(* ===== verification/Prelude.thy ===== *)
theory Prelude
  imports Main "HOL-Library.Word" "HOL-Library.Monad_Syntax"
begin

text \<open>
  Shared vocabulary of the Pintos development.

  \<^item> Machine types: \<open>u8\<close>, \<open>u16\<close>, \<open>u32\<close>, \<open>u64\<close> are words of HOL-Library.Word; \<open>size_t\<close> counters
    (32 bits on the i386 target) are \<open>nat\<close> with the wrap-around written out by \<open>sz_add\<close>,
    \<open>sz_sub\<close> and \<open>sz_mul\<close>.
  \<^item> Errors: an operation that may fail an \<open>ASSERT\<close>, call \<open>PANIC\<close> or touch memory outside the
    object it was given returns an \<open>option\<close>; \<open>None\<close> is "the kernel stops here". Error codes
    that the C code returns (NULL, false, -1) are ordinary values.
  \<^item> Loops: \<open>for_upto\<close> is \<open>for (i = lo; i < hi; i++) body\<close>, \<open>find_upto\<close> is the same loop
    with an early return of \<open>i\<close>. Their invariant rules carry the component proofs.
\<close>

unbundle bit_operations_syntax

subsection \<open>Machine types and size arithmetic\<close>

type_synonym u8 = "8 word"
type_synonym u16 = "16 word"
type_synonym u32 = "32 word"
type_synonym u64 = "64 word"

abbreviation SIZE_MAX :: nat where
  "SIZE_MAX \<equiv> 2 ^ 32 - 1"

definition sz_add :: "nat \<Rightarrow> nat \<Rightarrow> nat" where
  "sz_add a b = (a + b) mod 2 ^ 32"

definition sz_sub :: "nat \<Rightarrow> nat \<Rightarrow> nat" where
  "sz_sub a b = (a + (2 ^ 32 - b mod 2 ^ 32)) mod 2 ^ 32"

definition sz_mul :: "nat \<Rightarrow> nat \<Rightarrow> nat" where
  "sz_mul a b = (a * b) mod 2 ^ 32"

text \<open>The macros of \<open>lib/round.h\<close> on \<open>size_t\<close> operands.\<close>

definition DIV_ROUND_UP :: "nat \<Rightarrow> nat \<Rightarrow> nat" where
  "DIV_ROUND_UP x step = sz_sub (sz_add x step) 1 div step"

definition ROUND_UP :: "nat \<Rightarrow> nat \<Rightarrow> nat" where
  "ROUND_UP x step = sz_mul (sz_sub (sz_add x step) 1 div step) step"

definition ROUND_DOWN :: "nat \<Rightarrow> nat \<Rightarrow> nat" where
  "ROUND_DOWN x step = sz_mul (x div step) step"

text \<open>The values of an \<open>int\<close>; signed arithmetic that leaves them is undefined.\<close>

definition int_ok :: "int \<Rightarrow> bool" where
  "int_ok v \<longleftrightarrow> - (2 ^ 31) \<le> v \<and> v < 2 ^ 31"

named_theorems size_arith

text \<open>For the evaluation of closed terms.\<close>

lemmas size_eval =
  sz_add_def sz_sub_def sz_mul_def DIV_ROUND_UP_def ROUND_UP_def ROUND_DOWN_def

lemma sz_add_id [size_arith]: "a + b < 2 ^ 32 \<Longrightarrow> sz_add a b = a + b"
  by (simp add: sz_add_def)

lemma sz_sub_id [size_arith]: "b \<le> a \<Longrightarrow> a < 2 ^ 32 \<Longrightarrow> sz_sub a b = a - b"
proof -
  assume "b \<le> a" and "a < 2 ^ 32"
  then have "b mod 2 ^ 32 = b" and "a + (2 ^ 32 - b) = (a - b) + 2 ^ 32" by auto
  then have "sz_sub a b = ((a - b) + 2 ^ 32) mod 2 ^ 32" by (simp only: sz_sub_def)
  also have "\<dots> = a - b" using \<open>a < 2 ^ 32\<close> by simp
  finally show ?thesis .
qed

lemma sz_mul_id [size_arith]: "a * b < 2 ^ 32 \<Longrightarrow> sz_mul a b = a * b"
  by (simp add: sz_mul_def)

lemma sz_add_less [simp]: "sz_add a b < 2 ^ 32"
  by (simp add: sz_add_def)

lemma DIV_ROUND_UP_exact [size_arith]:
  "0 < s \<Longrightarrow> x + s \<le> 2 ^ 32 - 1 \<Longrightarrow> DIV_ROUND_UP x s = (x + s - 1) div s"
  by (simp add: DIV_ROUND_UP_def sz_add_id sz_sub_id)

lemma div_round_up_le: "0 < (s::nat) \<Longrightarrow> x \<le> (x + s - 1) div s * s"
proof -
  assume s: "0 < s"
  have "x + s - 1 = (x + s - 1) div s * s + (x + s - 1) mod s" by simp
  moreover have "(x + s - 1) mod s \<le> s - 1" using s mod_less_divisor [of s] by (simp add: Suc_leI le_diff_conv2)
  ultimately show ?thesis using s by linarith
qed

lemma index_div_round_up: "0 < (s::nat) \<Longrightarrow> i < x \<Longrightarrow> i div s < (x + s - 1) div s"
proof -
  assume s: "0 < s" and "i < x"
  then have "i < (x + s - 1) div s * s" using div_round_up_le [OF s, of x] by linarith
  then show ?thesis using s by (simp add: div_less_iff_less_mult)
qed

subsection \<open>Words and the numbers they stand for\<close>

lemma unat_less_len: "unat x < 2 ^ LENGTH('a)" for x :: "'a::len word"
  by (rule unsigned_less)

lemma unat_push_bit: "unat x * 2 ^ k < 2 ^ LENGTH('a) \<Longrightarrow> unat (push_bit k x :: 'a::len word) = unat x * 2 ^ k"
proof -
  assume l: "unat x * 2 ^ k < 2 ^ LENGTH('a)"
  have "push_bit k x = of_nat (unat x * 2 ^ k)" by (simp add: push_bit_eq_mult)
  then show ?thesis using l by (simp add: unat_of_nat take_bit_nat_eq_self del: of_nat_mult)
qed

lemma unat_drop_bit: "unat (drop_bit k x) = unat x div 2 ^ k" for x :: "'a::len word"
  unfolding unsigned_drop_bit_eq take_bit_nat_eq_self [OF unat_less_len] by (rule drop_bit_eq_div)

lemma unat_ucast: "unat (ucast w :: 'b::len word) = unat w mod 2 ^ LENGTH('b)" for w :: "'a::len word"
  by (simp add: unsigned_ucast_eq unsigned_take_bit_eq take_bit_eq_mod)

subsection \<open>Assertions\<close>

definition guard :: "bool \<Rightarrow> unit option" where
  "guard b = (if b then Some () else None)"

lemma guard_bind [simp]: "Option.bind (guard b) f = (if b then f () else None)"
  by (simp add: guard_def)

lemma guard_eq_Some [simp]: "guard b = Some u \<longleftrightarrow> b"
  by (simp add: guard_def)

lemma guard_eq_None [simp]: "guard b = None \<longleftrightarrow> \<not> b"
  by (simp add: guard_def)

text \<open>Reading and writing an array cell; out of range is an invalid memory access.\<close>

definition array_get :: "'a list \<Rightarrow> nat \<Rightarrow> 'a option" where
  "array_get xs i = (if i < length xs then Some (xs ! i) else None)"

definition array_set :: "'a list \<Rightarrow> nat \<Rightarrow> 'a \<Rightarrow> 'a list option" where
  "array_set xs i v = (if i < length xs then Some (xs[i := v]) else None)"

lemma array_get_Some [simp]: "i < length xs \<Longrightarrow> array_get xs i = Some (xs ! i)"
  by (simp add: array_get_def)

lemma array_set_Some [simp]: "i < length xs \<Longrightarrow> array_set xs i v = Some (xs[i := v])"
  by (simp add: array_set_def)

lemma array_get_eq_Some: "array_get xs i = Some v \<longleftrightarrow> i < length xs \<and> xs ! i = v"
  by (auto simp: array_get_def)

lemma array_set_eq_Some: "array_set xs i v = Some ys \<longleftrightarrow> i < length xs \<and> ys = xs[i := v]"
  by (auto simp: array_set_def)

subsection \<open>Counting loops\<close>

function for_upto :: "nat \<Rightarrow> nat \<Rightarrow> (nat \<Rightarrow> 's \<Rightarrow> 's option) \<Rightarrow> 's \<Rightarrow> 's option" where
  "for_upto i hi body s =
     (if i < hi then do { s' \<leftarrow> body i s; for_upto (Suc i) hi body s' } else Some s)"
  by pat_completeness auto
termination
  by (relation "measure (\<lambda>(i, hi, body, s). hi - i)") auto

declare for_upto.simps [simp del]

lemma for_upto_done [simp]: "hi \<le> i \<Longrightarrow> for_upto i hi body s = Some s"
  by (subst for_upto.simps) simp

lemma for_upto_step:
  "i < hi \<Longrightarrow> for_upto i hi body s = do { s' \<leftarrow> body i s; for_upto (Suc i) hi body s' }"
  by (subst for_upto.simps) simp

text \<open>The loop rule: an invariant indexed by the counter, with progress of every iteration.\<close>

lemma for_upto_rule:
  assumes "lo \<le> hi" and "P lo s"
    and step: "\<And>i s. lo \<le> i \<Longrightarrow> i < hi \<Longrightarrow> P i s \<Longrightarrow> \<exists>s'. body i s = Some s' \<and> P (Suc i) s'"
  shows "\<exists>s'. for_upto lo hi body s = Some s' \<and> P hi s'"
proof -
  have "lo \<le> i \<Longrightarrow> i \<le> hi \<Longrightarrow> P i t \<Longrightarrow> \<exists>s'. for_upto i hi body t = Some s' \<and> P hi s'" for i t
  proof (induction "hi - i" arbitrary: i t)
    case 0
    then show ?case by auto
  next
    case (Suc n)
    then have "i < hi" by simp
    with Suc.prems obtain t' where "body i t = Some t'" and "P (Suc i) t'"
      using step [of i t] by auto
    with Suc \<open>i < hi\<close> show ?case
      by (simp add: for_upto_step)
  qed
  with assms show ?thesis by blast
qed

text \<open>Partial correctness of the same loop: what holds of any run that returns.\<close>

lemma for_upto_inv:
  assumes "for_upto lo hi body s = Some t" and "lo \<le> hi" and "P lo s"
    and step: "\<And>i s s'. lo \<le> i \<Longrightarrow> i < hi \<Longrightarrow> P i s \<Longrightarrow> body i s = Some s' \<Longrightarrow> P (Suc i) s'"
  shows "P hi t"
proof -
  have "lo \<le> i \<Longrightarrow> i \<le> hi \<Longrightarrow> P i u \<Longrightarrow> for_upto i hi body u = Some t \<Longrightarrow> P hi t" for i u
  proof (induction "hi - i" arbitrary: i u)
    case 0
    then show ?case by auto
  next
    case (Suc n)
    then have "i < hi" by simp
    with Suc.prems obtain u' where u': "body i u = Some u'" "for_upto (Suc i) hi body u' = Some t"
      by (auto simp: for_upto_step bind_eq_Some_conv)
    have "P (Suc i) u'" using step Suc.prems u'(1) \<open>i < hi\<close> by blast
    moreover have "n = hi - Suc i" using Suc.hyps(2) by simp
    ultimately show ?case using Suc.hyps(1) u'(2) Suc.prems(1) \<open>i < hi\<close> by simp
  qed
  with assms show ?thesis by blast
qed

text \<open>A loop that returns its counter at the first iteration whose test succeeds.\<close>

function find_upto :: "nat \<Rightarrow> nat \<Rightarrow> (nat \<Rightarrow> bool option) \<Rightarrow> nat option option" where
  "find_upto i hi test =
     (if i < hi then do { b \<leftarrow> test i; if b then Some (Some i) else find_upto (Suc i) hi test }
      else Some None)"
  by pat_completeness auto
termination
  by (relation "measure (\<lambda>(i, hi, test). hi - i)") auto

declare find_upto.simps [simp del]

lemma find_upto_total:
  assumes "\<And>i. lo \<le> i \<Longrightarrow> i < hi \<Longrightarrow> test i = Some (p i)"
  shows "find_upto lo hi test = Some (find p [lo..<hi])"
  using assms
proof (induction "hi - lo" arbitrary: lo)
  case 0
  then show ?case by (subst find_upto.simps) simp
next
  case (Suc n)
  then have lt: "lo < hi" by simp
  have n: "n = hi - Suc lo" using Suc.hyps(2) by simp
  have IH: "find_upto (Suc lo) hi test = Some (find p [Suc lo..<hi])"
    using Suc.hyps(1) [OF n] Suc.prems by simp
  show ?case
    by (subst find_upto.simps) (simp add: lt upt_conv_Cons IH Suc.prems)
qed

lemma find_upt_Some:
  "find p [lo..<hi] = Some i \<longleftrightarrow> lo \<le> i \<and> i < hi \<and> p i \<and> (\<forall>j. lo \<le> j \<and> j < i \<longrightarrow> \<not> p j)"
proof
  assume "find p [lo..<hi] = Some i"
  then obtain k where k: "k < hi - lo" "p ([lo..<hi] ! k)" "i = [lo..<hi] ! k"
      "\<forall>j<k. \<not> p ([lo..<hi] ! j)"
    by (auto simp: find_Some_iff)
  then have i: "i = lo + k" by simp
  have "\<not> p j" if "lo \<le> j" "j < i" for j
  proof -
    have "j - lo < k" using that i by simp
    then have "\<not> p ([lo..<hi] ! (j - lo))" using k(4) by simp
    moreover have "[lo..<hi] ! (j - lo) = j" using that i k(1) by simp
    ultimately show ?thesis by simp
  qed
  with k i show "lo \<le> i \<and> i < hi \<and> p i \<and> (\<forall>j. lo \<le> j \<and> j < i \<longrightarrow> \<not> p j)" by simp
next
  assume a: "lo \<le> i \<and> i < hi \<and> p i \<and> (\<forall>j. lo \<le> j \<and> j < i \<longrightarrow> \<not> p j)"
  then show "find p [lo..<hi] = Some i"
    by (auto simp: find_Some_iff intro!: exI [of _ "i - lo"])
qed

lemma find_upt_None: "find p [lo..<hi] = None \<longleftrightarrow> (\<forall>i. lo \<le> i \<and> i < hi \<longrightarrow> \<not> p i)"
  by (auto simp: find_None_iff)

subsection \<open>First-in first-out containers\<close>

text \<open>
  The contract shared by the kernel's queues. \<open>rep s xs\<close>: the concrete state \<open>s\<close> holds the
  sequence \<open>xs\<close>; \<open>room s xs bs\<close>: the elements \<open>bs\<close> can be appended one after the other.
\<close>

primrec enq_all :: "('a \<Rightarrow> 's \<Rightarrow> 's option) \<Rightarrow> 'a list \<Rightarrow> 's \<Rightarrow> 's option" where
  "enq_all enq [] s = Some s"
| "enq_all enq (a # as) s = do { s' \<leftarrow> enq a s; enq_all enq as s' }"

primrec deq_many :: "('s \<Rightarrow> ('a \<times> 's) option) \<Rightarrow> nat \<Rightarrow> 's \<Rightarrow> ('a list \<times> 's) option" where
  "deq_many deq 0 s = Some ([], s)"
| "deq_many deq (Suc n) s = do { (a, s') \<leftarrow> deq s; (as, s'') \<leftarrow> deq_many deq n s'; Some (a # as, s'') }"

locale fifo =
  fixes rep :: "'s \<Rightarrow> 'a list \<Rightarrow> bool"
    and room :: "'s \<Rightarrow> 'a list \<Rightarrow> 'a list \<Rightarrow> bool"
    and enq :: "'a \<Rightarrow> 's \<Rightarrow> 's option"
    and deq :: "'s \<Rightarrow> ('a \<times> 's) option"
  assumes enq_rep: "rep s xs \<Longrightarrow> room s xs (a # as) \<Longrightarrow>
      \<exists>s'. enq a s = Some s' \<and> rep s' (xs @ [a]) \<and> room s' (xs @ [a]) as"
    and deq_rep: "rep s (a # xs) \<Longrightarrow> \<exists>s'. deq s = Some (a, s') \<and> rep s' xs"
begin

lemma enq_all_rep:
  "rep s xs \<Longrightarrow> room s xs as \<Longrightarrow> \<exists>s'. enq_all enq as s = Some s' \<and> rep s' (xs @ as)"
proof (induction as arbitrary: s xs)
  case (Cons a as)
  then obtain s' where "enq a s = Some s'" "rep s' (xs @ [a])" "room s' (xs @ [a]) as"
    using enq_rep by blast
  with Cons.IH [of s' "xs @ [a]"] show ?case by auto
qed simp

lemma deq_many_rep:
  "rep s (as @ xs) \<Longrightarrow> \<exists>s'. deq_many deq (length as) s = Some (as, s') \<and> rep s' xs"
proof (induction as arbitrary: s)
  case (Cons a as)
  then obtain s' where "deq s = Some (a, s')" "rep s' (as @ xs)"
    using deq_rep by fastforce
  with Cons.IH [of s'] show ?case by auto
qed simp

lemma fifo_order:
  assumes "rep s xs" and "room s xs as"
  shows "\<exists>s' s''. enq_all enq as s = Some s' \<and> rep s' (xs @ as)
    \<and> deq_many deq (length (xs @ as)) s' = Some (xs @ as, s'') \<and> rep s'' []"
proof -
  obtain s' where s': "enq_all enq as s = Some s'" "rep s' (xs @ as)"
    using enq_all_rep [OF assms] by blast
  then have "rep s' ((xs @ as) @ [])" by simp
  from deq_many_rep [OF this] s' show ?thesis by blast
qed

end

end
