(* ===== verification/Bytes.thy ===== *)
theory Bytes
  imports Prelude
begin

text \<open>
  Objects in memory and on disk as the bytes the i386 stores: 16 and 32 bit integers in
  little-endian order, arrays of them, and \<open>memcpy\<close> into and out of a byte array.
\<close>

type_synonym bytes = "u8 list"

definition le32 :: "u8 \<Rightarrow> u8 \<Rightarrow> u8 \<Rightarrow> u8 \<Rightarrow> u32" where
  "le32 b0 b1 b2 b3 =
     ucast b0 OR push_bit 8 (ucast b1) OR push_bit 16 (ucast b2) OR push_bit 24 (ucast b3)"

definition to_le32 :: "u32 \<Rightarrow> bytes" where
  "to_le32 w = [ucast w, ucast (drop_bit 8 w), ucast (drop_bit 16 w), ucast (drop_bit 24 w)]"

definition le16 :: "u8 \<Rightarrow> u8 \<Rightarrow> u16" where
  "le16 b0 b1 = ucast b0 OR push_bit 8 (ucast b1)"

definition get_le32 :: "bytes \<Rightarrow> nat \<Rightarrow> u32 option" where
  "get_le32 bs i = do {
     b0 \<leftarrow> array_get bs i; b1 \<leftarrow> array_get bs (i + 1);
     b2 \<leftarrow> array_get bs (i + 2); b3 \<leftarrow> array_get bs (i + 3);
     Some (le32 b0 b1 b2 b3) }"

definition get_le16 :: "bytes \<Rightarrow> nat \<Rightarrow> u16 option" where
  "get_le16 bs i = do { b0 \<leftarrow> array_get bs i; b1 \<leftarrow> array_get bs (i + 1); Some (le16 b0 b1) }"

fun words_of :: "bytes \<Rightarrow> u32 list" where
  "words_of (b0 # b1 # b2 # b3 # bs) = le32 b0 b1 b2 b3 # words_of bs"
| "words_of bs = []"

definition bytes_of :: "u32 list \<Rightarrow> bytes" where
  "bytes_of ws = concat (map to_le32 ws)"

lemma le32_to_le32: "le32 (ucast w) (ucast (drop_bit 8 w)) (ucast (drop_bit 16 w)) (ucast (drop_bit 24 w)) = w"
proof (rule bit_eqI)
  fix n assume "possible_bit TYPE(u32) n"
  then have "n < 32" by simp
  then have "n < 8 \<or> 8 \<le> n \<and> n < 16 \<or> 16 \<le> n \<and> n < 24 \<or> 24 \<le> n" by auto
  with \<open>n < 32\<close> show "bit (le32 (ucast w) (ucast (drop_bit 8 w)) (ucast (drop_bit 16 w)) (ucast (drop_bit 24 w))) n = bit w n"
    by (auto simp: le32_def bit_or_iff bit_push_bit_iff bit_ucast_iff bit_drop_bit_eq)
qed

lemma to_le32_le32: "to_le32 (le32 b0 b1 b2 b3) = [b0, b1, b2, b3]"
proof -
  have b: "bit b n \<Longrightarrow> n < 8" for b :: u8 and n using bit_imp_le_length by fastforce
  have "ucast (le32 b0 b1 b2 b3) = b0" "ucast (drop_bit 8 (le32 b0 b1 b2 b3)) = b1"
    "ucast (drop_bit 16 (le32 b0 b1 b2 b3)) = b2" "ucast (drop_bit 24 (le32 b0 b1 b2 b3)) = b3"
    by (rule bit_eqI; auto simp: le32_def bit_or_iff bit_push_bit_iff bit_ucast_iff bit_drop_bit_eq dest: b)+
  then show ?thesis by (simp add: to_le32_def)
qed

lemma length_to_le32 [simp]: "length (to_le32 w) = 4"
  by (simp add: to_le32_def)

lemma length_bytes_of [simp]: "length (bytes_of ws) = 4 * length ws"
  by (induction ws) (simp_all add: bytes_of_def)

lemma length_words_of [simp]: "length (words_of bs) = length bs div 4"
  by (induction bs rule: words_of.induct) auto

lemma words_of_bytes_of [simp]: "words_of (bytes_of ws) = ws"
  by (induction ws) (simp_all add: bytes_of_def to_le32_def le32_to_le32)

lemma bytes_of_words_of: "length bs mod 4 = 0 \<Longrightarrow> bytes_of (words_of bs) = bs"
  by (induction bs rule: words_of.induct) (auto simp: bytes_of_def to_le32_le32)

subsection \<open>memcpy\<close>

definition slice :: "nat \<Rightarrow> nat \<Rightarrow> 'a list \<Rightarrow> 'a list" where
  "slice ofs len bs = take len (drop ofs bs)"

definition splice :: "nat \<Rightarrow> 'a list \<Rightarrow> 'a list \<Rightarrow> 'a list" where
  "splice ofs new bs = take ofs bs @ new @ drop (ofs + length new) bs"

lemma length_slice [simp]: "ofs + len \<le> length bs \<Longrightarrow> length (slice ofs len bs) = len"
  by (simp add: slice_def)

lemma length_splice [simp]: "ofs + length new \<le> length bs \<Longrightarrow> length (splice ofs new bs) = length bs"
  by (simp add: splice_def)

lemma nth_splice:
  "ofs + length new \<le> length bs \<Longrightarrow> i < length bs \<Longrightarrow>
   splice ofs new bs ! i = (if ofs \<le> i \<and> i < ofs + length new then new ! (i - ofs) else bs ! i)"
  by (auto simp: splice_def nth_append min_def)

lemma nth_slice: "ofs + len \<le> length bs \<Longrightarrow> i < len \<Longrightarrow> slice ofs len bs ! i = bs ! (ofs + i)"
  by (simp add: slice_def)

lemma slice_splice_same: "ofs + length new \<le> length bs \<Longrightarrow> slice ofs (length new) (splice ofs new bs) = new"
  by (rule nth_equalityI) (simp_all add: nth_slice nth_splice)

lemma slice_all [simp]: "slice 0 (length bs) bs = bs"
  by (simp add: slice_def)

lemma splice_all: "length new = length bs \<Longrightarrow> splice 0 new bs = new"
  by (simp add: splice_def)

end
