(* ===== verification/Bitmap.thy ===== *)
theory Bitmap
  imports Prelude
begin

text \<open>
  The bitmap of \<open>lib/kernel/bitmap.c\<close>: an array of \<open>elem_type\<close> (\<open>unsigned long\<close>, 32 bits on
  i386) that simulates an array of bits. The abstraction \<open>bm_abs\<close> reads the array of bits off
  the words; every operation is shown to refine the obvious operation on a \<open>bool list\<close>.
\<close>

subsection \<open>Representation\<close>

definition ELEM_BITS :: nat where
  "ELEM_BITS = 32"

definition BITMAP_ERROR :: nat where
  "BITMAP_ERROR = SIZE_MAX"

record bitmap =
  bit_cnt :: nat
  bits :: "u32 list"

definition elem_idx :: "nat \<Rightarrow> nat" where
  "elem_idx bit_idx = bit_idx div ELEM_BITS"

definition bit_mask :: "nat \<Rightarrow> u32" where
  "bit_mask bit_idx = push_bit (bit_idx mod ELEM_BITS) 1"

definition elem_cnt :: "nat \<Rightarrow> nat" where
  "elem_cnt n = DIV_ROUND_UP n ELEM_BITS"

definition byte_cnt :: "nat \<Rightarrow> nat" where
  "byte_cnt n = sz_mul 4 (elem_cnt n)"

definition last_mask :: "bitmap \<Rightarrow> u32" where
  "last_mask b =
     (let last_bits = bit_cnt b mod ELEM_BITS
      in if last_bits \<noteq> 0 then push_bit last_bits 1 - 1 else - 1)"

subsection \<open>Single bits\<close>

definition bitmap_size :: "bitmap \<Rightarrow> nat" where
  "bitmap_size b = bit_cnt b"

definition bitmap_mark :: "bitmap \<Rightarrow> nat \<Rightarrow> bitmap option" where
  "bitmap_mark b bit_idx = do {
     w \<leftarrow> array_get (bits b) (elem_idx bit_idx);
     ws \<leftarrow> array_set (bits b) (elem_idx bit_idx) (w OR bit_mask bit_idx);
     Some (b\<lparr>bits := ws\<rparr>) }"

definition bitmap_reset :: "bitmap \<Rightarrow> nat \<Rightarrow> bitmap option" where
  "bitmap_reset b bit_idx = do {
     w \<leftarrow> array_get (bits b) (elem_idx bit_idx);
     ws \<leftarrow> array_set (bits b) (elem_idx bit_idx) (w AND NOT (bit_mask bit_idx));
     Some (b\<lparr>bits := ws\<rparr>) }"

definition bitmap_flip :: "bitmap \<Rightarrow> nat \<Rightarrow> bitmap option" where
  "bitmap_flip b bit_idx = do {
     w \<leftarrow> array_get (bits b) (elem_idx bit_idx);
     ws \<leftarrow> array_set (bits b) (elem_idx bit_idx) (w XOR bit_mask bit_idx);
     Some (b\<lparr>bits := ws\<rparr>) }"

definition bitmap_set :: "bitmap \<Rightarrow> nat \<Rightarrow> bool \<Rightarrow> bitmap option" where
  "bitmap_set b idx value = do {
     guard (idx < bit_cnt b);
     if value then bitmap_mark b idx else bitmap_reset b idx }"

definition bitmap_test :: "bitmap \<Rightarrow> nat \<Rightarrow> bool option" where
  "bitmap_test b idx = do {
     guard (idx < bit_cnt b);
     w \<leftarrow> array_get (bits b) (elem_idx idx);
     Some (w AND bit_mask idx \<noteq> 0) }"

subsection \<open>Groups of bits\<close>

definition bitmap_set_multiple :: "bitmap \<Rightarrow> nat \<Rightarrow> nat \<Rightarrow> bool \<Rightarrow> bitmap option" where
  "bitmap_set_multiple b start cnt value = do {
     guard (start \<le> bit_cnt b);
     guard (sz_add start cnt \<le> bit_cnt b);
     for_upto 0 cnt (\<lambda>i b. bitmap_set b (sz_add start i) value) b }"

definition bitmap_set_all :: "bitmap \<Rightarrow> bool \<Rightarrow> bitmap option" where
  "bitmap_set_all b value = bitmap_set_multiple b 0 (bitmap_size b) value"

definition bitmap_count :: "bitmap \<Rightarrow> nat \<Rightarrow> nat \<Rightarrow> bool \<Rightarrow> nat option" where
  "bitmap_count b start cnt value = do {
     guard (start \<le> bit_cnt b);
     guard (sz_add start cnt \<le> bit_cnt b);
     for_upto 0 cnt (\<lambda>i value_cnt. do {
         t \<leftarrow> bitmap_test b (sz_add start i);
         Some (if t = value then Suc value_cnt else value_cnt) }) 0 }"

definition bitmap_contains :: "bitmap \<Rightarrow> nat \<Rightarrow> nat \<Rightarrow> bool \<Rightarrow> bool option" where
  "bitmap_contains b start cnt value = do {
     guard (start \<le> bit_cnt b);
     guard (sz_add start cnt \<le> bit_cnt b);
     r \<leftarrow> find_upto 0 cnt (\<lambda>i. do { t \<leftarrow> bitmap_test b (sz_add start i); Some (t = value) });
     Some (r \<noteq> None) }"

definition bitmap_any :: "bitmap \<Rightarrow> nat \<Rightarrow> nat \<Rightarrow> bool option" where
  "bitmap_any b start cnt = bitmap_contains b start cnt True"

definition bitmap_none :: "bitmap \<Rightarrow> nat \<Rightarrow> nat \<Rightarrow> bool option" where
  "bitmap_none b start cnt = map_option Not (bitmap_contains b start cnt True)"

definition bitmap_all :: "bitmap \<Rightarrow> nat \<Rightarrow> nat \<Rightarrow> bool option" where
  "bitmap_all b start cnt = map_option Not (bitmap_contains b start cnt False)"

subsection \<open>Scanning\<close>

definition bitmap_scan :: "bitmap \<Rightarrow> nat \<Rightarrow> nat \<Rightarrow> bool \<Rightarrow> nat option" where
  "bitmap_scan b start cnt value = do {
     guard (start \<le> bit_cnt b);
     if cnt \<le> bit_cnt b then do {
       let last = bit_cnt b - cnt;
       r \<leftarrow> find_upto start (Suc last)
             (\<lambda>i. map_option Not (bitmap_contains b i cnt (\<not> value)));
       Some (case r of Some i \<Rightarrow> i | None \<Rightarrow> BITMAP_ERROR) }
     else Some BITMAP_ERROR }"

definition bitmap_scan_and_flip :: "bitmap \<Rightarrow> nat \<Rightarrow> nat \<Rightarrow> bool \<Rightarrow> (nat \<times> bitmap) option" where
  "bitmap_scan_and_flip b start cnt value = do {
     idx \<leftarrow> bitmap_scan b start cnt value;
     b' \<leftarrow> (if idx \<noteq> BITMAP_ERROR then bitmap_set_multiple b idx cnt (\<not> value) else Some b);
     Some (idx, b') }"

subsection \<open>Creation\<close>

text \<open>
  The two calls of \<open>malloc\<close> are parameters: whether the header was obtained, and the storage
  for the words (with whatever contents it happens to have), \<open>None\<close> for a null pointer.
\<close>

definition bitmap_create :: "bool \<Rightarrow> u32 list option \<Rightarrow> nat \<Rightarrow> bitmap option option" where
  "bitmap_create got_header storage n =
     (if got_header then
        (if storage \<noteq> None \<or> n = 0 then
           map_option Some
             (bitmap_set_all
               \<lparr>bit_cnt = n, bits = (case storage of Some ws \<Rightarrow> ws | None \<Rightarrow> [])\<rparr> False)
         else Some None)
      else Some None)"

definition bitmap_buf_size :: "nat \<Rightarrow> nat" where
  "bitmap_buf_size n = sz_add 8 (byte_cnt n)"

definition bitmap_create_in_buf :: "nat \<Rightarrow> u32 list \<Rightarrow> nat \<Rightarrow> bitmap option" where
  "bitmap_create_in_buf n storage block_size = do {
     guard (block_size \<ge> bitmap_buf_size n);
     bitmap_set_all \<lparr>bit_cnt = n, bits = storage\<rparr> False }"

definition bitmap_file_size :: "bitmap \<Rightarrow> nat" where
  "bitmap_file_size b = byte_cnt (bit_cnt b)"

subsection \<open>Abstraction and well-formedness\<close>

definition bm_bit :: "bitmap \<Rightarrow> nat \<Rightarrow> bool" where
  "bm_bit b i \<longleftrightarrow> bit (bits b ! (i div 32)) (i mod 32)"

definition bm_abs :: "bitmap \<Rightarrow> bool list" where
  "bm_abs b = map (bm_bit b) [0..<bit_cnt b]"

definition bm_wf :: "bitmap \<Rightarrow> bool" where
  "bm_wf b \<longleftrightarrow> bit_cnt b + 32 \<le> SIZE_MAX \<and> elem_cnt (bit_cnt b) \<le> length (bits b)"

named_theorems bitmap_simps

lemma bm_abs_length [bitmap_simps]: "length (bm_abs b) = bit_cnt b"
  by (simp add: bm_abs_def)

lemma bm_abs_nth [bitmap_simps]: "i < bit_cnt b \<Longrightarrow> bm_abs b ! i = bm_bit b i"
  by (simp add: bm_abs_def)

lemma bm_wf_index: "bm_wf b \<Longrightarrow> i < bit_cnt b \<Longrightarrow> i div 32 < length (bits b)"
  using index_div_round_up [of 32 i "bit_cnt b"]
  by (auto simp: bm_wf_def elem_cnt_def ELEM_BITS_def size_arith)

lemma bm_wf_sz_add: "bm_wf b \<Longrightarrow> s + c \<le> bit_cnt b \<Longrightarrow> sz_add s c = s + c"
  by (rule sz_add_id) (simp add: bm_wf_def)

lemma bit_mask_bit: "bit (bit_mask i) n \<longleftrightarrow> n = i mod 32"
  by (auto simp: bit_mask_def ELEM_BITS_def bit_exp_iff)

lemma and_bit_mask_nonzero: "(w AND bit_mask i \<noteq> 0) \<longleftrightarrow> bit w (i mod 32)"
proof
  assume "w AND bit_mask i \<noteq> 0"
  then obtain n where "bit (w AND bit_mask i) n" by (auto simp: bit_eq_iff)
  then show "bit w (i mod 32)" by (auto simp: bit_and_iff bit_mask_bit)
next
  assume "bit w (i mod 32)"
  then have "bit (w AND bit_mask i) (i mod 32)" by (simp add: bit_and_iff bit_mask_bit)
  then show "w AND bit_mask i \<noteq> 0" by auto
qed

lemma bitmap_test_abs [bitmap_simps]:
  "bm_wf b \<Longrightarrow> i < bit_cnt b \<Longrightarrow> bitmap_test b i = Some (bm_abs b ! i)"
  by (simp add: bitmap_test_def bm_wf_index elem_idx_def ELEM_BITS_def and_bit_mask_nonzero
      bm_abs_nth bm_bit_def)

subsection \<open>Setting bits refines list update\<close>

lemma index_split_iff: "(j::nat) div 32 = i div 32 \<Longrightarrow> j mod 32 = i mod 32 \<longleftrightarrow> j = i"
  by (metis div_mult_mod_eq)

lemma bm_bit_update:
  assumes "bm_wf b" and "i < bit_cnt b" and "j < bit_cnt b"
    and "\<And>n. bit w n = (if n = i mod 32 then v else bit (bits b ! (i div 32)) n)"
  shows "bm_bit (b\<lparr>bits := (bits b)[i div 32 := w]\<rparr>) j = (if j = i then v else bm_bit b j)"
  using assms index_split_iff [of j i]
  by (cases "j div 32 = i div 32") (auto simp: bm_bit_def bm_wf_index)

lemma bitmap_update_abs:
  assumes "bm_wf b" and "i < bit_cnt b"
    and "\<And>n. bit w n = (if n = i mod 32 then v else bit (bits b ! (i div 32)) n)"
  shows "bm_abs (b\<lparr>bits := (bits b)[i div 32 := w]\<rparr>) = (bm_abs b)[i := v]"
  using assms bm_bit_update [OF assms(1,2) _ assms(3)]
  by (intro nth_equalityI) (auto simp: bitmap_simps nth_list_update)

lemma bm_wf_update: "bm_wf b \<Longrightarrow> bm_wf (b\<lparr>bits := (bits b)[k := w]\<rparr>)"
  by (simp add: bm_wf_def)

lemma bitmap_mark_abs:
  assumes "bm_wf b" and "i < bit_cnt b"
  shows "\<exists>b'. bitmap_mark b i = Some b' \<and> bm_wf b' \<and> bit_cnt b' = bit_cnt b
           \<and> bm_abs b' = (bm_abs b)[i := True]"
  using assms
  by (auto simp: bitmap_mark_def bm_wf_index elem_idx_def ELEM_BITS_def bm_wf_update
      bit_or_iff bit_mask_bit intro!: bitmap_update_abs)

lemma bitmap_reset_abs:
  assumes "bm_wf b" and "i < bit_cnt b"
  shows "\<exists>b'. bitmap_reset b i = Some b' \<and> bm_wf b' \<and> bit_cnt b' = bit_cnt b
           \<and> bm_abs b' = (bm_abs b)[i := False]"
proof -
  have "bit (w AND NOT (bit_mask i)) n = (if n = i mod 32 then False else bit w n)" for w n
    using bit_imp_le_length [of w n]
    by (auto simp: bit_and_iff bit_not_iff bit_mask_bit)
  with assms show ?thesis
    by (auto simp: bitmap_reset_def bm_wf_index elem_idx_def ELEM_BITS_def bm_wf_update
        intro!: bitmap_update_abs)
qed

lemma bitmap_flip_abs:
  assumes "bm_wf b" and "i < bit_cnt b"
  shows "\<exists>b'. bitmap_flip b i = Some b' \<and> bm_wf b' \<and> bit_cnt b' = bit_cnt b
           \<and> bm_abs b' = (bm_abs b)[i := \<not> bm_abs b ! i]"
  using assms
  by (auto simp: bitmap_flip_def bm_wf_index elem_idx_def ELEM_BITS_def bm_wf_update bitmap_simps
      bm_bit_def bit_xor_iff bit_mask_bit intro!: bitmap_update_abs)

lemma bitmap_set_abs:
  assumes "bm_wf b" and "i < bit_cnt b"
  shows "\<exists>b'. bitmap_set b i v = Some b' \<and> bm_wf b' \<and> bit_cnt b' = bit_cnt b
           \<and> bm_abs b' = (bm_abs b)[i := v]"
  using assms bitmap_mark_abs [of b i] bitmap_reset_abs [of b i]
  by (cases v) (auto simp: bitmap_set_def)

text \<open>The range \<open>[s, s+c)\<close> of a bit list set to one value.\<close>

definition fill_range :: "bool list \<Rightarrow> nat \<Rightarrow> nat \<Rightarrow> bool \<Rightarrow> bool list" where
  "fill_range xs s c v = map (\<lambda>i. if s \<le> i \<and> i < s + c then v else xs ! i) [0..<length xs]"

lemma fill_range_length [bitmap_simps]: "length (fill_range xs s c v) = length xs"
  by (simp add: fill_range_def)

lemma fill_range_nth [bitmap_simps]:
  "i < length xs \<Longrightarrow> fill_range xs s c v ! i = (if s \<le> i \<and> i < s + c then v else xs ! i)"
  by (simp add: fill_range_def)

lemma fill_range_0 [bitmap_simps]: "fill_range xs s 0 v = xs"
  by (rule nth_equalityI) (auto simp: bitmap_simps)

lemma fill_range_Suc: "s + c < length xs \<Longrightarrow> (fill_range xs s c v)[s + c := v] = fill_range xs s (Suc c) v"
  by (rule nth_equalityI) (auto simp: bitmap_simps nth_list_update)

lemma bitmap_set_multiple_abs:
  assumes wf: "bm_wf b" and le: "s + c \<le> bit_cnt b"
  shows "\<exists>b'. bitmap_set_multiple b s c v = Some b' \<and> bm_wf b' \<and> bit_cnt b' = bit_cnt b
           \<and> bm_abs b' = fill_range (bm_abs b) s c v"
proof -
  let ?P = "\<lambda>i b'. bm_wf b' \<and> bit_cnt b' = bit_cnt b \<and> bm_abs b' = fill_range (bm_abs b) s i v"
  have "\<exists>b'. for_upto 0 c (\<lambda>i b. bitmap_set b (sz_add s i) v) b = Some b' \<and> ?P c b'"
  proof (rule for_upto_rule)
    fix i b1 assume "0 \<le> i" and i: "i < c" and P: "?P i b1"
    then have "sz_add s i = s + i" and "s + i < bit_cnt b1"
      using le bm_wf_sz_add [OF wf, of s i] by auto
    then show "\<exists>b2. bitmap_set b1 (sz_add s i) v = Some b2 \<and> ?P (Suc i) b2"
      using P bitmap_set_abs [of b1 "s + i" v] by (auto simp: fill_range_Suc bitmap_simps)
  qed (use wf in \<open>auto simp: bitmap_simps\<close>)
  with le bm_wf_sz_add [OF wf le] show ?thesis by (simp add: bitmap_set_multiple_def)
qed

subsection \<open>Counting, containment and scanning\<close>

lemma bitmap_contains_abs:
  assumes wf: "bm_wf b" and le: "s + c \<le> bit_cnt b"
  shows "bitmap_contains b s c v = Some (v \<in> set (take c (drop s (bm_abs b))))"
proof -
  have t: "do { t \<leftarrow> bitmap_test b (sz_add s i); Some (t = v) } = Some (bm_abs b ! (s + i) = v)"
    if "0 \<le> i" "i < c" for i
    using that le bm_wf_sz_add [OF wf, of s i] by (simp add: bitmap_test_abs [OF wf])
  have "find_upto 0 c (\<lambda>i. do { t \<leftarrow> bitmap_test b (sz_add s i); Some (t = v) })
      = Some (find (\<lambda>i. bm_abs b ! (s + i) = v) [0..<c])"
    by (rule find_upto_total) (rule t)
  moreover have "find (\<lambda>i. bm_abs b ! (s + i) = v) [0..<c] \<noteq> None
      \<longleftrightarrow> v \<in> set (take c (drop s (bm_abs b)))"
    using le by (auto simp: find_None_iff in_set_conv_nth bitmap_simps)
  ultimately show ?thesis
    using le bm_wf_sz_add [OF wf le] by (simp add: bitmap_contains_def)
qed

lemma take_Suc_drop: "s + i < length xs \<Longrightarrow> take (Suc i) (drop s xs) = take i (drop s xs) @ [xs ! (s + i)]"
  by (simp add: take_Suc_conv_app_nth)

lemma bitmap_count_abs:
  assumes wf: "bm_wf b" and le: "s + c \<le> bit_cnt b"
  shows "bitmap_count b s c v = Some (count_list (take c (drop s (bm_abs b))) v)"
proof -
  let ?body = "\<lambda>i n. do { t \<leftarrow> bitmap_test b (sz_add s i); Some (if t = v then Suc n else n) }"
  have "\<exists>n. for_upto 0 c ?body 0 = Some n \<and> n = count_list (take c (drop s (bm_abs b))) v"
  proof (rule for_upto_rule)
    fix i n assume "i < c" and n: "n = count_list (take i (drop s (bm_abs b))) v"
    then have lt: "s + i < bit_cnt b" and "sz_add s i = s + i"
      using le bm_wf_sz_add [OF wf, of s i] by auto
    then show "\<exists>n'. ?body i n = Some n' \<and> n' = count_list (take (Suc i) (drop s (bm_abs b))) v"
      using n by (simp add: bitmap_test_abs [OF wf] take_Suc_drop bitmap_simps)
  qed auto
  then show ?thesis using le bm_wf_sz_add [OF wf le] by (simp add: bitmap_count_def)
qed

text \<open>A group of \<open>c\<close> bits at \<open>i\<close>, all equal to \<open>v\<close>, inside the bit list.\<close>

definition group_at :: "bool list \<Rightarrow> nat \<Rightarrow> nat \<Rightarrow> bool \<Rightarrow> bool" where
  "group_at xs i c v \<longleftrightarrow> i + c \<le> length xs \<and> (\<forall>j < c. xs ! (i + j) = v)"

lemma group_at_contains:
  "i + c \<le> length xs \<Longrightarrow> group_at xs i c v \<longleftrightarrow> (\<not> v) \<notin> set (take c (drop i xs))"
  by (auto simp: group_at_def in_set_conv_nth)

lemma bitmap_scan_abs:
  assumes wf: "bm_wf b" and "s \<le> bit_cnt b"
  shows "bitmap_scan b s c v =
    Some (case find (\<lambda>i. group_at (bm_abs b) i c v) [s..<Suc (bit_cnt b - c)] of
            Some i \<Rightarrow> (if c \<le> bit_cnt b then i else BITMAP_ERROR) | None \<Rightarrow> BITMAP_ERROR)"
proof (cases "c \<le> bit_cnt b")
  case True
  have "find_upto s (Suc (bit_cnt b - c))
          (\<lambda>i. map_option Not (bitmap_contains b i c (\<not> v)))
      = Some (find (\<lambda>i. group_at (bm_abs b) i c v) [s..<Suc (bit_cnt b - c)])"
  proof (rule find_upto_total)
    fix i assume "i < Suc (bit_cnt b - c)"
    with True have "i + c \<le> bit_cnt b" by simp
    then show "map_option Not (bitmap_contains b i c (\<not> v)) = Some (group_at (bm_abs b) i c v)"
      by (simp add: bitmap_contains_abs [OF wf] group_at_contains bitmap_simps)
  qed
  with True assms show ?thesis by (simp add: bitmap_scan_def split: option.splits)
next
  case False
  with assms show ?thesis by (simp add: bitmap_scan_def split: option.splits)
qed


lemma bm_wf_not_error: "bm_wf b \<Longrightarrow> i \<le> bit_cnt b \<Longrightarrow> i \<noteq> BITMAP_ERROR"
  by (auto simp: bm_wf_def BITMAP_ERROR_def)

lemma group_at_bound: "group_at (bm_abs b) i c v \<Longrightarrow> i + c \<le> bit_cnt b"
  by (simp add: group_at_def bitmap_simps)

text \<open>The two outcomes of a scan.\<close>

lemma bitmap_scan_found:
  assumes "bm_wf b" and "s \<le> bit_cnt b" and "bitmap_scan b s c v = Some i" and "i \<noteq> BITMAP_ERROR"
  shows "s \<le> i \<and> group_at (bm_abs b) i c v \<and> (\<forall>j. s \<le> j \<and> j < i \<longrightarrow> \<not> group_at (bm_abs b) j c v)"
  using assms by (auto simp: bitmap_scan_abs find_upt_Some simp del: upt_Suc split: option.splits if_splits)

lemma bitmap_scan_finds:
  assumes wf: "bm_wf b" and s: "s \<le> bit_cnt b" and g: "s \<le> k" "group_at (bm_abs b) k c v"
  shows "\<exists>i. bitmap_scan b s c v = Some i \<and> i \<noteq> BITMAP_ERROR"
proof -
  have k: "k + c \<le> bit_cnt b" using g(2) by (rule group_at_bound)
  have "find (\<lambda>i. group_at (bm_abs b) i c v) [s..<Suc (bit_cnt b - c)] \<noteq> None"
    using g k unfolding find_upt_None by (auto intro!: exI [of _ k])
  then obtain i where i: "find (\<lambda>i. group_at (bm_abs b) i c v) [s..<Suc (bit_cnt b - c)] = Some i"
    by blast
  then have "i + c \<le> bit_cnt b" by (auto simp: find_upt_Some simp del: upt_Suc dest: group_at_bound)
  with i k wf s show ?thesis by (simp add: bitmap_scan_abs bm_wf_not_error del: upt_Suc)
qed

lemma bitmap_scan_none:
  assumes "bm_wf b" and "s \<le> bit_cnt b" and "\<And>k. s \<le> k \<Longrightarrow> \<not> group_at (bm_abs b) k c v"
  shows "bitmap_scan b s c v = Some BITMAP_ERROR"
  using assms by (auto simp: bitmap_scan_abs find_upt_Some simp del: upt_Suc split: option.splits)

lemma bitmap_scan_and_flip_found:
  assumes wf: "bm_wf b" and s: "s \<le> bit_cnt b" and g: "s \<le> k" "group_at (bm_abs b) k c v"
  shows "\<exists>i b'. bitmap_scan_and_flip b s c v = Some (i, b') \<and> s \<le> i \<and> i \<noteq> BITMAP_ERROR
           \<and> group_at (bm_abs b) i c v \<and> (\<forall>j. s \<le> j \<and> j < i \<longrightarrow> \<not> group_at (bm_abs b) j c v)
           \<and> bm_wf b' \<and> bit_cnt b' = bit_cnt b \<and> bm_abs b' = fill_range (bm_abs b) i c (\<not> v)"
proof -
  obtain i where i: "bitmap_scan b s c v = Some i" "i \<noteq> BITMAP_ERROR"
    using bitmap_scan_finds [OF assms] by blast
  note found = bitmap_scan_found [OF wf s i]
  then have "i + c \<le> bit_cnt b" by (auto dest: group_at_bound)
  from bitmap_set_multiple_abs [OF wf this, of "\<not> v"] i found show ?thesis
    by (auto simp: bitmap_scan_and_flip_def)
qed

lemma bitmap_scan_and_flip_none:
  assumes "bm_wf b" and "s \<le> bit_cnt b" and "\<And>k. s \<le> k \<Longrightarrow> \<not> group_at (bm_abs b) k c v"
  shows "bitmap_scan_and_flip b s c v = Some (BITMAP_ERROR, b)"
  using bitmap_scan_none [OF assms] by (simp add: bitmap_scan_and_flip_def)

subsection \<open>Creation\<close>

lemma fill_range_all: "length xs = n \<Longrightarrow> fill_range xs 0 n v = replicate n v"
  by (rule nth_equalityI) (auto simp: bitmap_simps)

lemma bitmap_set_all_abs:
  assumes "bm_wf b"
  shows "\<exists>b'. bitmap_set_all b v = Some b' \<and> bm_wf b' \<and> bit_cnt b' = bit_cnt b
           \<and> bm_abs b' = replicate (bit_cnt b) v"
  using bitmap_set_multiple_abs [OF assms, of 0 "bit_cnt b" v]
  by (auto simp: bitmap_set_all_def bitmap_size_def fill_range_all bitmap_simps)

subsection \<open>The interface its clients use: a pool of numbered slots\<close>

text \<open>
  The page allocator and the free map use a bitmap as a pool: take the first group of free
  slots, give a group back, ask whether a group is in use. The locale states what they rely on.
\<close>

locale slot_pool =
  fixes wf :: "'b \<Rightarrow> bool"
    and used :: "'b \<Rightarrow> bool list"
    and take_group :: "'b \<Rightarrow> nat \<Rightarrow> (nat \<times> 'b) option"
    and put_group :: "'b \<Rightarrow> nat \<Rightarrow> nat \<Rightarrow> 'b option"
    and all_used :: "'b \<Rightarrow> nat \<Rightarrow> nat \<Rightarrow> bool option"
  assumes take_found: "wf b \<Longrightarrow> group_at (used b) k c False \<Longrightarrow>
      \<exists>i b'. take_group b c = Some (i, b') \<and> i \<noteq> BITMAP_ERROR \<and> group_at (used b) i c False
        \<and> (\<forall>j < i. \<not> group_at (used b) j c False) \<and> wf b' \<and> used b' = fill_range (used b) i c True"
    and take_full: "wf b \<Longrightarrow> (\<And>k. \<not> group_at (used b) k c False) \<Longrightarrow>
      take_group b c = Some (BITMAP_ERROR, b)"
    and put: "wf b \<Longrightarrow> s + c \<le> length (used b) \<Longrightarrow>
      \<exists>b'. put_group b s c = Some b' \<and> wf b' \<and> used b' = fill_range (used b) s c False"
    and all_used: "wf b \<Longrightarrow> s + c \<le> length (used b) \<Longrightarrow>
      all_used b s c = Some (group_at (used b) s c True)"
begin

lemma take_total: "wf b \<Longrightarrow> \<exists>i b'. take_group b c = Some (i, b') \<and> wf b' \<and> length (used b') = length (used b)"
  using take_found [of b _ c] take_full [of b c]
  by (cases "\<exists>k. group_at (used b) k c False") (fastforce simp: bitmap_simps)+

lemma take_SomeD:
  assumes "wf b" and "take_group b c = Some (i, b')" and "i \<noteq> BITMAP_ERROR"
  shows "group_at (used b) i c False \<and> wf b' \<and> used b' = fill_range (used b) i c True
    \<and> (\<forall>j < i. \<not> group_at (used b) j c False)"
  using take_found [OF assms(1), of _ c] take_full [OF assms(1), of c] assms(2,3) by fastforce

lemma take_error_iff:
  assumes "wf b" and "take_group b c = Some (i, b')"
  shows "i = BITMAP_ERROR \<longleftrightarrow> (\<forall>k. \<not> group_at (used b) k c False)"
  using take_found [OF assms(1), of _ c] take_full [OF assms(1), of c] assms(2) by fastforce

lemma take_error_same:
  assumes "wf b" and "take_group b c = Some (BITMAP_ERROR, b')"
  shows "b' = b"
  using take_found [OF assms(1), of _ c] take_full [OF assms(1), of c] assms(2) by fastforce

text \<open>Two successive allocations never overlap.\<close>

lemma take_take_disjoint:
  assumes "wf b" and "take_group b c = Some (i, b1)" "i \<noteq> BITMAP_ERROR"
    and "take_group b1 d = Some (j, b2)" "j \<noteq> BITMAP_ERROR"
  shows "{i..<i + c} \<inter> {j..<j + d} = {}"
proof -
  note one = take_SomeD [OF assms(1-3)]
  note two = take_SomeD [OF _ assms(4,5)]
  have "k \<notin> {i..<i + c}" if "k \<in> {j..<j + d}" for k
  proof -
    obtain m where m: "k = j + m" "m < d" using \<open>k \<in> {j..<j + d}\<close> by (auto simp: nat_le_iff_add)
    then have "\<not> used b1 ! k" and "k < length (used b1)" using one two by (auto simp: group_at_def)
    with one show ?thesis by (auto simp: bitmap_simps)
  qed
  then show ?thesis by blast
qed

text \<open>Giving an allocated group back restores the pool.\<close>

lemma take_put:
  assumes "wf b" and "take_group b c = Some (i, b1)" "i \<noteq> BITMAP_ERROR"
  shows "\<exists>b2. put_group b1 i c = Some b2 \<and> wf b2 \<and> used b2 = used b"
proof -
  note one = take_SomeD [OF assms]
  then have "i + c \<le> length (used b1)" by (simp add: group_at_def bitmap_simps)
  moreover have "fill_range (fill_range (used b) i c True) i c False = used b"
  proof (rule nth_equalityI)
    fix k assume "k < length (fill_range (fill_range (used b) i c True) i c False)"
    then have k: "k < length (used b)" by (simp add: bitmap_simps)
    have "\<not> used b ! k" if r: "i \<le> k" "k < i + c"
    proof -
      obtain m where "k = i + m" "m < c" using r by (auto simp: nat_le_iff_add)
      then show ?thesis using one by (simp add: group_at_def)
    qed
    with k show "fill_range (fill_range (used b) i c True) i c False ! k = used b ! k"
      by (auto simp: bitmap_simps)
  qed (simp add: bitmap_simps)
  ultimately show ?thesis using put [of b1 i c] one by auto
qed

end

lemma group_at_all:
  "s + c \<le> length xs \<Longrightarrow> (\<not> False \<in> set (take c (drop s xs))) = group_at xs s c True"
  by (simp add: group_at_contains)

interpretation bmp: slot_pool bm_wf bm_abs "\<lambda>b c. bitmap_scan_and_flip b 0 c False"
  "\<lambda>b s c. bitmap_set_multiple b s c False" bitmap_all
proof unfold_locales
  fix b k c assume "bm_wf b" and "group_at (bm_abs b) k c False"
  then show "\<exists>i b'. bitmap_scan_and_flip b 0 c False = Some (i, b') \<and> i \<noteq> BITMAP_ERROR
      \<and> group_at (bm_abs b) i c False \<and> (\<forall>j < i. \<not> group_at (bm_abs b) j c False)
      \<and> bm_wf b' \<and> bm_abs b' = fill_range (bm_abs b) i c True"
    using bitmap_scan_and_flip_found [of b 0 k c False] by auto
next
  fix b c assume "bm_wf b" and "\<And>k. \<not> group_at (bm_abs b) k c False"
  then show "bitmap_scan_and_flip b 0 c False = Some (BITMAP_ERROR, b)"
    by (intro bitmap_scan_and_flip_none) auto
next
  fix b s c assume "bm_wf b" and "s + c \<le> length (bm_abs b)"
  then show "\<exists>b'. bitmap_set_multiple b s c False = Some b' \<and> bm_wf b'
      \<and> bm_abs b' = fill_range (bm_abs b) s c False"
    using bitmap_set_multiple_abs [of b s c False] by (auto simp: bitmap_simps)
next
  fix b s c assume "bm_wf b" and "s + c \<le> length (bm_abs b)"
  then show "bitmap_all b s c = Some (group_at (bm_abs b) s c True)"
    by (simp add: bitmap_all_def bitmap_contains_abs bitmap_simps group_at_all)
qed

lemmas bitmap_eval =
  bm_wf_def elem_cnt_def ELEM_BITS_def bitmap_size_def bitmap_scan_def bitmap_contains_def
  bitmap_test_def find_upto.simps bit_mask_def elem_idx_def BITMAP_ERROR_def array_get_def

subsection \<open>Properties\<close>



text \<open>C2: Words simulate an array of bits. Inside the bitmap, \<open>bitmap_set\<close> never fails, keeps the
  representation well formed, and afterwards \<open>bitmap_test\<close> reads the stored value at the index
  written and the old value at every other index.\<close>

theorem bitmap_set_test:
  assumes "bm_wf b" and "i < bitmap_size b" and "j < bitmap_size b"
  shows "\<exists>b'. bitmap_set b i v = Some b' \<and> bm_wf b' \<and>
    bitmap_test b' j = (if j = i then Some v else bitmap_test b j)"
proof -
  obtain b' where b': "bitmap_set b i v = Some b'" "bm_wf b'" "bit_cnt b' = bit_cnt b"
      "bm_abs b' = (bm_abs b)[i := v]"
    using bitmap_set_abs [of b i v] assms by (auto simp: bitmap_size_def)
  then have "bitmap_test b' j = Some ((bm_abs b)[i := v] ! j)"
    using assms bitmap_test_abs [of b' j] by (simp add: bitmap_size_def)
  with b' assms show ?thesis
    by (auto simp: bitmap_test_abs bitmap_size_def nth_list_update bm_abs_length)
qed

theorem bitmap_set_test_witness:
  "\<exists>b'. bitmap_set \<lparr>bit_cnt = 40, bits = [0, 0]\<rparr> 35 True = Some b' \<and> bm_wf b' \<and>
     bitmap_test b' 35 = Some True"
proof -
  let ?b = "\<lparr>bit_cnt = 40, bits = [0, 0]\<rparr> :: bitmap"
  have "bm_wf ?b" and "35 < bitmap_size ?b" by (simp_all add: bitmap_eval size_eval)
  from bitmap_set_test [OF this this(2), of True] show ?thesis by simp
qed

end
