(* ===== verification/Klist.thy ===== *)
theory Klist
  imports Prelude "HOL-Library.Multiset"
begin

text \<open>
  The intrusive doubly linked list of \<open>lib/kernel/list.c\<close>, on an explicit heap.

  A \<open>struct list_elem\<close> is an address; its two members live in the component heaps \<open>nxt\<close> and
  \<open>prv\<close> (partial maps: an address outside their domain is not a list element, address 0 is
  NULL). A \<open>struct list\<close> is the pair of addresses of its two embedded headers. Loops over a list
  are \<open>partial_function (option)\<close>: on a corrupted (cyclic) list they do not return, which is
  \<open>None\<close>, as is a failed \<open>ASSERT\<close> or an access through a bad pointer.

  \<open>dlist h l xs\<close> says that the heap represents the sequence \<open>xs\<close>; the lemmas show that every
  operation returns on a represented list and refines the operation on sequences.
\<close>

subsection \<open>Elements, lists and the heap\<close>

type_synonym addr = nat

abbreviation NULL :: addr where
  "NULL \<equiv> 0"

record list_heap =
  nxt :: "addr \<rightharpoonup> addr"
  prv :: "addr \<rightharpoonup> addr"

record klist =
  head :: addr
  tail :: addr

definition get_next :: "list_heap \<Rightarrow> addr \<Rightarrow> addr option" where
  "get_next h p = (if p = NULL then None else nxt h p)"

definition get_prev :: "list_heap \<Rightarrow> addr \<Rightarrow> addr option" where
  "get_prev h p = (if p = NULL then None else prv h p)"

definition set_next :: "addr \<Rightarrow> addr \<Rightarrow> list_heap \<Rightarrow> list_heap option" where
  "set_next p v h =
     (if p = NULL \<or> nxt h p = None then None else Some (h\<lparr>nxt := (nxt h)(p \<mapsto> v)\<rparr>))"

definition set_prev :: "addr \<Rightarrow> addr \<Rightarrow> list_heap \<Rightarrow> list_heap option" where
  "set_prev p v h =
     (if p = NULL \<or> prv h p = None then None else Some (h\<lparr>prv := (prv h)(p \<mapsto> v)\<rparr>))"

definition is_head :: "list_heap \<Rightarrow> addr \<Rightarrow> bool option" where
  "is_head h e = (if e = NULL then Some False
     else do { p \<leftarrow> get_prev h e; n \<leftarrow> get_next h e; Some (p = NULL \<and> n \<noteq> NULL) })"

definition is_interior :: "list_heap \<Rightarrow> addr \<Rightarrow> bool option" where
  "is_interior h e = (if e = NULL then Some False
     else do { p \<leftarrow> get_prev h e; n \<leftarrow> get_next h e; Some (p \<noteq> NULL \<and> n \<noteq> NULL) })"

definition is_tail :: "list_heap \<Rightarrow> addr \<Rightarrow> bool option" where
  "is_tail h e = (if e = NULL then Some False
     else do { p \<leftarrow> get_prev h e; n \<leftarrow> get_next h e; Some (p \<noteq> NULL \<and> n = NULL) })"

subsection \<open>Traversal\<close>

text \<open>\<open>list_init\<close> writes all four header members; the headers are memory of the list's owner.\<close>

definition list_init :: "klist \<Rightarrow> list_heap \<Rightarrow> list_heap" where
  "list_init l h =
     h\<lparr>prv := (prv h)(head l \<mapsto> NULL, tail l \<mapsto> head l),
       nxt := (nxt h)(head l \<mapsto> tail l, tail l \<mapsto> NULL)\<rparr>"

definition list_begin :: "list_heap \<Rightarrow> klist \<Rightarrow> addr option" where
  "list_begin h l = get_next h (head l)"

definition list_next :: "list_heap \<Rightarrow> addr \<Rightarrow> addr option" where
  "list_next h e = do {
     a \<leftarrow> is_head h e; b \<leftarrow> is_interior h e;
     guard (a \<or> b);
     get_next h e }"

definition list_end :: "klist \<Rightarrow> addr" where
  "list_end l = tail l"

definition list_rbegin :: "list_heap \<Rightarrow> klist \<Rightarrow> addr option" where
  "list_rbegin h l = get_prev h (tail l)"

definition list_prev :: "list_heap \<Rightarrow> addr \<Rightarrow> addr option" where
  "list_prev h e = do {
     a \<leftarrow> is_interior h e; b \<leftarrow> is_tail h e;
     guard (a \<or> b);
     get_prev h e }"

definition list_rend :: "klist \<Rightarrow> addr" where
  "list_rend l = head l"

definition list_head :: "klist \<Rightarrow> addr" where
  "list_head l = head l"

definition list_tail :: "klist \<Rightarrow> addr" where
  "list_tail l = tail l"

subsection \<open>Insertion and removal\<close>

definition list_insert :: "addr \<Rightarrow> addr \<Rightarrow> list_heap \<Rightarrow> list_heap option" where
  "list_insert before e h = do {
     a \<leftarrow> is_interior h before; b \<leftarrow> is_tail h before;
     guard (a \<or> b);
     guard (e \<noteq> NULL);
     p \<leftarrow> get_prev h before;
     h \<leftarrow> set_prev e p h;
     h \<leftarrow> set_next e before h;
     q \<leftarrow> get_prev h before;
     h \<leftarrow> set_next q e h;
     set_prev before e h }"

definition list_splice :: "addr \<Rightarrow> addr \<Rightarrow> addr \<Rightarrow> list_heap \<Rightarrow> list_heap option" where
  "list_splice before first lst h = do {
     a \<leftarrow> is_interior h before; b \<leftarrow> is_tail h before;
     guard (a \<or> b);
     if first = lst then Some h
     else do {
       lst \<leftarrow> list_prev h lst;
       fi \<leftarrow> is_interior h first; guard fi;
       li \<leftarrow> is_interior h lst; guard li;
       fp \<leftarrow> get_prev h first; ln \<leftarrow> get_next h lst;
       h \<leftarrow> set_next fp ln h;
       ln \<leftarrow> get_next h lst; fp \<leftarrow> get_prev h first;
       h \<leftarrow> set_prev ln fp h;
       bp \<leftarrow> get_prev h before;
       h \<leftarrow> set_prev first bp h;
       h \<leftarrow> set_next lst before h;
       bp \<leftarrow> get_prev h before;
       h \<leftarrow> set_next bp first h;
       set_prev before lst h } }"

definition list_push_front :: "klist \<Rightarrow> addr \<Rightarrow> list_heap \<Rightarrow> list_heap option" where
  "list_push_front l e h = do { b \<leftarrow> list_begin h l; list_insert b e h }"

definition list_push_back :: "klist \<Rightarrow> addr \<Rightarrow> list_heap \<Rightarrow> list_heap option" where
  "list_push_back l e h = list_insert (list_end l) e h"

definition list_remove :: "addr \<Rightarrow> list_heap \<Rightarrow> (addr \<times> list_heap) option" where
  "list_remove e h = do {
     a \<leftarrow> is_interior h e; guard a;
     p \<leftarrow> get_prev h e; n \<leftarrow> get_next h e;
     h \<leftarrow> set_next p n h;
     n \<leftarrow> get_next h e; p \<leftarrow> get_prev h e;
     h \<leftarrow> set_prev n p h;
     r \<leftarrow> get_next h e;
     Some (r, h) }"

definition list_empty :: "list_heap \<Rightarrow> klist \<Rightarrow> bool option" where
  "list_empty h l = do { b \<leftarrow> list_begin h l; Some (b = list_end l) }"

definition list_front :: "list_heap \<Rightarrow> klist \<Rightarrow> addr option" where
  "list_front h l = do { b \<leftarrow> list_empty h l; guard (\<not> b); get_next h (head l) }"

definition list_back :: "list_heap \<Rightarrow> klist \<Rightarrow> addr option" where
  "list_back h l = do { b \<leftarrow> list_empty h l; guard (\<not> b); get_prev h (tail l) }"

definition list_pop_front :: "klist \<Rightarrow> list_heap \<Rightarrow> (addr \<times> list_heap) option" where
  "list_pop_front l h = do {
     front \<leftarrow> list_front h l;
     (_, h) \<leftarrow> list_remove front h;
     Some (front, h) }"

definition list_pop_back :: "klist \<Rightarrow> list_heap \<Rightarrow> (addr \<times> list_heap) option" where
  "list_pop_back l h = do {
     back \<leftarrow> list_back h l;
     (_, h) \<leftarrow> list_remove back h;
     Some (back, h) }"

subsection \<open>Loops over a list\<close>

partial_function (option) list_size_from :: "list_heap \<Rightarrow> klist \<Rightarrow> addr \<Rightarrow> nat \<Rightarrow> nat option" where
  "list_size_from h l e cnt =
     (if e \<noteq> list_end l then do { e' \<leftarrow> list_next h e; list_size_from h l e' (Suc cnt) }
      else Some cnt)"

definition list_size :: "list_heap \<Rightarrow> klist \<Rightarrow> nat option" where
  "list_size h l = do { e \<leftarrow> list_begin h l; list_size_from h l e 0 }"

text \<open>\<open>swap (&e->prev, &e->next)\<close> of one element.\<close>

definition swap_links :: "addr \<Rightarrow> list_heap \<Rightarrow> list_heap option" where
  "swap_links e h = do {
     p \<leftarrow> get_prev h e; n \<leftarrow> get_next h e;
     h \<leftarrow> set_prev e n h;
     set_next e p h }"

partial_function (option) list_reverse_from ::
  "klist \<Rightarrow> addr \<Rightarrow> list_heap \<Rightarrow> list_heap option" where
  "list_reverse_from l e h =
     (if e \<noteq> list_end l then do {
        h \<leftarrow> swap_links e h;
        e' \<leftarrow> get_prev h e;
        list_reverse_from l e' h }
      else Some h)"

definition list_reverse :: "klist \<Rightarrow> list_heap \<Rightarrow> list_heap option" where
  "list_reverse l h = do {
     emp \<leftarrow> list_empty h l;
     if \<not> emp then do {
       b \<leftarrow> list_begin h l;
       h \<leftarrow> list_reverse_from l b h;
       a \<leftarrow> get_next h (head l); z \<leftarrow> get_prev h (tail l);
       h \<leftarrow> set_next (head l) z h;
       h \<leftarrow> set_prev (tail l) a h;
       f \<leftarrow> get_next h (head l); t \<leftarrow> get_prev h (tail l);
       fp \<leftarrow> get_prev h f; tn \<leftarrow> get_next h t;
       h \<leftarrow> set_prev f tn h;
       set_next t fp h }
     else Some h }"

type_synonym list_less = "addr \<Rightarrow> addr \<Rightarrow> bool"

partial_function (option) is_sorted_from ::
  "list_heap \<Rightarrow> addr \<Rightarrow> addr \<Rightarrow> list_less \<Rightarrow> bool option" where
  "is_sorted_from h a b lt = do {
     a \<leftarrow> list_next h a;
     if a \<noteq> b then do {
       p \<leftarrow> list_prev h a;
       if lt a p then Some False else is_sorted_from h a b lt }
     else Some True }"

definition is_sorted :: "list_heap \<Rightarrow> addr \<Rightarrow> addr \<Rightarrow> list_less \<Rightarrow> bool option" where
  "is_sorted h a b lt = (if a \<noteq> b then is_sorted_from h a b lt else Some True)"

partial_function (option) find_end_of_run_loop ::
  "list_heap \<Rightarrow> addr \<Rightarrow> addr \<Rightarrow> list_less \<Rightarrow> addr option" where
  "find_end_of_run_loop h a b lt = do {
     a \<leftarrow> list_next h a;
     if a \<noteq> b then do {
       p \<leftarrow> list_prev h a;
       if \<not> lt a p then find_end_of_run_loop h a b lt else Some a }
     else Some a }"

definition find_end_of_run :: "list_heap \<Rightarrow> addr \<Rightarrow> addr \<Rightarrow> list_less \<Rightarrow> addr option" where
  "find_end_of_run h a b lt = do {
     guard (a \<noteq> NULL); guard (b \<noteq> NULL); guard (a \<noteq> b);
     find_end_of_run_loop h a b lt }"

partial_function (option) inplace_merge_loop ::
  "addr \<Rightarrow> addr \<Rightarrow> addr \<Rightarrow> list_less \<Rightarrow> list_heap \<Rightarrow> list_heap option" where
  "inplace_merge_loop a0 a1b0 b1 lt h =
     (if a0 \<noteq> a1b0 \<and> a1b0 \<noteq> b1 then
        (if \<not> lt a1b0 a0 then do {
           a0 \<leftarrow> list_next h a0;
           inplace_merge_loop a0 a1b0 b1 lt h }
         else do {
           a1b0 \<leftarrow> list_next h a1b0;
           p \<leftarrow> list_prev h a1b0;
           h \<leftarrow> list_splice a0 p a1b0 h;
           inplace_merge_loop a0 a1b0 b1 lt h })
      else Some h)"

definition inplace_merge ::
  "addr \<Rightarrow> addr \<Rightarrow> addr \<Rightarrow> list_less \<Rightarrow> list_heap \<Rightarrow> list_heap option" where
  "inplace_merge a0 a1b0 b1 lt h = do {
     guard (a0 \<noteq> NULL); guard (a1b0 \<noteq> NULL); guard (b1 \<noteq> NULL);
     s \<leftarrow> is_sorted h a0 a1b0 lt; guard s;
     t \<leftarrow> is_sorted h a1b0 b1 lt; guard t;
     inplace_merge_loop a0 a1b0 b1 lt h }"

text \<open>One pass of the merge sort: the body of the outer loop, with the number of output runs.\<close>

partial_function (option) list_sort_pass ::
  "klist \<Rightarrow> list_less \<Rightarrow> addr \<Rightarrow> nat \<Rightarrow> list_heap \<Rightarrow> (nat \<times> list_heap) option" where
  "list_sort_pass l lt a0 output_run_cnt h =
     (if a0 \<noteq> list_end l then do {
        a1b0 \<leftarrow> find_end_of_run h a0 (list_end l) lt;
        if a1b0 = list_end l then Some (Suc output_run_cnt, h)
        else do {
          b1 \<leftarrow> find_end_of_run h a1b0 (list_end l) lt;
          h \<leftarrow> inplace_merge a0 a1b0 b1 lt h;
          list_sort_pass l lt b1 (Suc output_run_cnt) h } }
      else Some (output_run_cnt, h))"

partial_function (option) list_sort_loop ::
  "klist \<Rightarrow> list_less \<Rightarrow> list_heap \<Rightarrow> list_heap option" where
  "list_sort_loop l lt h = do {
     a0 \<leftarrow> list_begin h l;
     (output_run_cnt, h) \<leftarrow> list_sort_pass l lt a0 0 h;
     if output_run_cnt > 1 then list_sort_loop l lt h else Some h }"

definition list_sort :: "klist \<Rightarrow> list_less \<Rightarrow> list_heap \<Rightarrow> list_heap option" where
  "list_sort l lt h = do {
     h \<leftarrow> list_sort_loop l lt h;
     b \<leftarrow> list_begin h l;
     s \<leftarrow> is_sorted h b (list_end l) lt;
     guard s;
     Some h }"

partial_function (option) list_insert_ordered_pos ::
  "list_heap \<Rightarrow> klist \<Rightarrow> addr \<Rightarrow> addr \<Rightarrow> list_less \<Rightarrow> addr option" where
  "list_insert_ordered_pos h l x e lt =
     (if e \<noteq> list_end l then
        (if lt x e then Some e
         else do { e' \<leftarrow> list_next h e; list_insert_ordered_pos h l x e' lt })
      else Some e)"

definition list_insert_ordered ::
  "klist \<Rightarrow> addr \<Rightarrow> list_less \<Rightarrow> list_heap \<Rightarrow> list_heap option" where
  "list_insert_ordered l x lt h = do {
     guard (x \<noteq> NULL);
     b \<leftarrow> list_begin h l;
     e \<leftarrow> list_insert_ordered_pos h l x b lt;
     list_insert e x h }"

partial_function (option) list_unique_from ::
  "klist \<Rightarrow> klist option \<Rightarrow> list_less \<Rightarrow> addr \<Rightarrow> list_heap \<Rightarrow> list_heap option" where
  "list_unique_from l duplicates lt e h = do {
     n \<leftarrow> list_next h e;
     if n \<noteq> list_end l then
       (if \<not> lt e n \<and> \<not> lt n e then do {
          (_, h) \<leftarrow> list_remove n h;
          h \<leftarrow> (case duplicates of Some d \<Rightarrow> list_push_back d n h | None \<Rightarrow> Some h);
          list_unique_from l duplicates lt e h }
        else list_unique_from l duplicates lt n h)
     else Some h }"

definition list_unique ::
  "klist \<Rightarrow> klist option \<Rightarrow> list_less \<Rightarrow> list_heap \<Rightarrow> list_heap option" where
  "list_unique l duplicates lt h = do {
     emp \<leftarrow> list_empty h l;
     if emp then Some h
     else do { e \<leftarrow> list_begin h l; list_unique_from l duplicates lt e h } }"

partial_function (option) list_max_from ::
  "list_heap \<Rightarrow> klist \<Rightarrow> list_less \<Rightarrow> addr \<Rightarrow> addr \<Rightarrow> addr option" where
  "list_max_from h l lt best e =
     (if e \<noteq> list_end l then do {
        e' \<leftarrow> list_next h e;
        list_max_from h l lt (if lt best e then e else best) e' }
      else Some best)"

definition list_max :: "list_heap \<Rightarrow> klist \<Rightarrow> list_less \<Rightarrow> addr option" where
  "list_max h l lt = do {
     best \<leftarrow> list_begin h l;
     if best \<noteq> list_end l then do { e \<leftarrow> list_next h best; list_max_from h l lt best e }
     else Some best }"

partial_function (option) list_min_from ::
  "list_heap \<Rightarrow> klist \<Rightarrow> list_less \<Rightarrow> addr \<Rightarrow> addr \<Rightarrow> addr option" where
  "list_min_from h l lt best e =
     (if e \<noteq> list_end l then do {
        e' \<leftarrow> list_next h e;
        list_min_from h l lt (if lt e best then e else best) e' }
      else Some best)"

definition list_min :: "list_heap \<Rightarrow> klist \<Rightarrow> list_less \<Rightarrow> addr option" where
  "list_min h l lt = do {
     best \<leftarrow> list_begin h l;
     if best \<noteq> list_end l then do { e \<leftarrow> list_next h best; list_min_from h l lt best e }
     else Some best }"


subsection \<open>Representation of a sequence\<close>

definition link :: "list_heap \<Rightarrow> addr \<Rightarrow> addr \<Rightarrow> bool" where
  "link h a b \<longleftrightarrow> nxt h a = Some b \<and> prv h b = Some a"

fun chain :: "list_heap \<Rightarrow> addr list \<Rightarrow> bool" where
  "chain h (a # b # ps) \<longleftrightarrow> link h a b \<and> chain h (b # ps)"
| "chain h ps \<longleftrightarrow> True"

definition dlist :: "list_heap \<Rightarrow> klist \<Rightarrow> addr list \<Rightarrow> bool" where
  "dlist h l xs \<longleftrightarrow>
     distinct (head l # xs @ [tail l]) \<and> NULL \<notin> set (head l # xs @ [tail l]) \<and>
     chain h (head l # xs @ [tail l]) \<and> prv h (head l) = Some NULL \<and> nxt h (tail l) = Some NULL"

named_theorems klist_simps

lemma chain_Cons [simp]: "chain h (a # ps) \<longleftrightarrow> (ps = [] \<or> link h a (hd ps) \<and> chain h ps)"
  by (cases ps) auto

lemma chain_append [simp]:
  "chain h (xs @ ys) \<longleftrightarrow>
     chain h xs \<and> chain h ys \<and> (xs \<noteq> [] \<longrightarrow> ys \<noteq> [] \<longrightarrow> link h (last xs) (hd ys))"
  by (induction xs) auto

declare chain.simps(1) [simp del]

text \<open>A chain only depends on the \<open>next\<close> of all but its last and the \<open>prev\<close> of all but its
  first element.\<close>

lemma chain_cong:
  "(\<And>p. p \<in> set (butlast ps) \<Longrightarrow> nxt h' p = nxt h p) \<Longrightarrow>
   (\<And>p. p \<in> set (tl ps) \<Longrightarrow> prv h' p = prv h p) \<Longrightarrow> chain h' ps = chain h ps"
proof (induction ps)
  case Nil
  then show ?case by simp
next
  case (Cons a ps)
  show ?case
  proof (cases ps)
    case Nil
    then show ?thesis by simp
  next
    case (Cons b qs)
    have "chain h' ps = chain h ps"
      using Cons.prems Cons by (intro Cons.IH) (auto dest: list.set_sel(2))
    moreover have "nxt h' a = nxt h a" and "prv h' b = prv h b" using Cons.prems Cons by auto
    ultimately show ?thesis using Cons by (simp add: link_def)
  qed
qed

text \<open>The sequence around one gap: \<open>p\<close> is the element before it (or the head), \<open>n\<close> the one
  after it (or the tail).\<close>

lemma dlist_gap:
  "dlist h l (xs @ ys) \<longleftrightarrow>
     distinct (head l # xs @ ys @ [tail l]) \<and> NULL \<notin> set (head l # xs @ ys @ [tail l]) \<and>
     chain h (head l # xs) \<and> link h (last (head l # xs)) (hd (ys @ [tail l])) \<and>
     chain h (ys @ [tail l]) \<and> prv h (head l) = Some NULL \<and> nxt h (tail l) = Some NULL"
proof -
  have "chain h ((head l # xs) @ (ys @ [tail l])) \<longleftrightarrow>
      chain h (head l # xs) \<and> link h (last (head l # xs)) (hd (ys @ [tail l])) \<and> chain h (ys @ [tail l])"
    by (subst chain_append) auto
  then show ?thesis unfolding dlist_def by (simp del: chain_append chain_Cons)
qed

lemma dlist_distinct: "dlist h l xs \<Longrightarrow> distinct xs"
  by (simp add: dlist_def)

lemma dlist_notNULL: "dlist h l xs \<Longrightarrow> x \<in> set xs \<Longrightarrow> x \<noteq> NULL"
  unfolding dlist_def by (metis UnI1 list.set_intros(2) set_append)

lemma dlist_ends: "dlist h l xs \<Longrightarrow> x \<in> set xs \<Longrightarrow> x \<noteq> head l \<and> x \<noteq> tail l \<and> head l \<noteq> tail l"
  by (auto simp: dlist_def)

lemma dlist_headers:
  assumes "dlist h l xs"
  shows "head l \<noteq> tail l" "tail l \<noteq> head l" "0 < head l" "0 < tail l"
  using assms by (auto simp: dlist_def)

text \<open>The two neighbours of an element.\<close>

lemma dlist_elem:
  assumes "dlist h l (xs @ x # ys)"
  shows "prv h x = Some (last (head l # xs)) \<and> nxt h x = Some (hd (ys @ [tail l]))"
  using assms by (cases ys) (auto simp: dlist_gap link_def)

lemma dlist_head: "dlist h l xs \<Longrightarrow> nxt h (head l) = Some (hd (xs @ [tail l]))"
  by (cases xs) (auto simp: dlist_def link_def)

lemma dlist_tail: "dlist h l xs \<Longrightarrow> prv h (tail l) = Some (last (head l # xs))"
  by (cases xs rule: rev_cases) (auto simp: dlist_def link_def)

lemma dlist_last_nonzero: "dlist h l (xs @ ys) \<Longrightarrow> 0 < last (head l # xs)"
  by (cases xs rule: rev_cases) (auto simp: dlist_def)

lemma dlist_hd_nonzero: "dlist h l (xs @ ys) \<Longrightarrow> 0 < hd (ys @ [tail l])"
  by (cases ys) (auto simp: dlist_def)

lemmas dlist_nonzero = dlist_last_nonzero dlist_hd_nonzero

subsection \<open>Traversal of a represented list\<close>

lemma list_begin_eq [klist_simps]: "dlist h l xs \<Longrightarrow> list_begin h l = Some (hd (xs @ [tail l]))"
  by (simp add: list_begin_def get_next_def dlist_head dlist_headers [of h l xs])

lemma list_rbegin_eq [klist_simps]: "dlist h l xs \<Longrightarrow> list_rbegin h l = Some (last (head l # xs))"
  by (simp add: list_rbegin_def get_prev_def dlist_tail dlist_headers [of h l xs])

lemma list_empty_eq [klist_simps]: "dlist h l xs \<Longrightarrow> list_empty h l = Some (xs = [])"
  using dlist_ends [of h l xs "hd xs"] by (cases xs) (simp_all add: list_empty_def list_begin_eq list_end_def)

lemma is_interior_elem:
  assumes "dlist h l (xs @ x # ys)"
  shows "is_interior h x = Some True" "is_tail h x = Some False" "is_head h x = Some False"
proof -
  have "0 < last (head l # xs)" using assms by (rule dlist_last_nonzero)
  moreover have "0 < hd (ys @ [tail l])" using assms dlist_hd_nonzero [of h l "xs @ [x]" ys] by simp
  moreover have "x \<noteq> NULL" using assms by (rule dlist_notNULL) simp
  ultimately show "is_interior h x = Some True" "is_tail h x = Some False" "is_head h x = Some False"
    using dlist_elem [OF assms]
    by (simp_all add: is_interior_def is_tail_def is_head_def get_prev_def get_next_def del: last.simps)
qed

lemma is_tail_tail:
  assumes "dlist h l xs"
  shows "is_tail h (tail l) = Some True" "is_interior h (tail l) = Some False"
  using assms dlist_tail [OF assms] dlist_last_nonzero [of h l xs "[]"]
  by (simp_all add: is_tail_def is_interior_def get_prev_def get_next_def dlist_def del: last.simps)

lemma is_head_head:
  assumes "dlist h l xs"
  shows "is_head h (head l) = Some True" "is_interior h (head l) = Some False"
  using assms dlist_head [OF assms] dlist_hd_nonzero [of h l "[]" xs]
  by (simp_all add: is_head_def is_interior_def get_prev_def get_next_def dlist_def)

lemma list_next_elem:
  "dlist h l (xs @ x # ys) \<Longrightarrow> list_next h x = Some (hd (ys @ [tail l]))"
  using dlist_elem [of h l xs x ys] dlist_notNULL [of h l "xs @ x # ys" x]
  by (simp add: list_next_def is_interior_elem get_next_def)

lemma list_prev_elem:
  "dlist h l (xs @ x # ys) \<Longrightarrow> list_prev h x = Some (last (head l # xs))"
  using dlist_elem [of h l xs x ys] dlist_notNULL [of h l "xs @ x # ys" x]
  by (simp add: list_prev_def is_interior_elem get_prev_def)

lemma list_prev_tail: "dlist h l xs \<Longrightarrow> list_prev h (tail l) = Some (last (head l # xs))"
  by (simp add: list_prev_def is_tail_tail get_prev_def dlist_tail dlist_headers [of h l xs])

lemma list_prev_gap:
  "dlist h l (xs @ ys) \<Longrightarrow> list_prev h (hd (ys @ [tail l])) = Some (last (head l # xs))"
  by (cases ys) (auto simp: list_prev_tail list_prev_elem)

lemma gap_interior_or_tail:
  "dlist h l (xs @ ys) \<Longrightarrow> \<exists>a b. is_interior h (hd (ys @ [tail l])) = Some a
     \<and> is_tail h (hd (ys @ [tail l])) = Some b \<and> (a \<or> b)"
  by (cases ys) (auto simp: is_tail_tail is_interior_elem)

subsection \<open>Insertion and removal refine the sequence operations\<close>

text \<open>The whole node sequence, headers included.\<close>

definition nodes :: "list_heap \<Rightarrow> addr list \<Rightarrow> bool" where
  "nodes h ps \<longleftrightarrow> distinct ps \<and> NULL \<notin> set ps \<and> chain h ps
     \<and> prv h (hd ps) = Some NULL \<and> nxt h (last ps) = Some NULL"

lemma dlist_nodes: "dlist h l xs \<longleftrightarrow> nodes h (head l # xs @ [tail l])"
  by (simp add: dlist_def nodes_def)

lemma dlist_append_nodes:
  "head l # xs = P \<Longrightarrow> ys @ [tail l] = Q \<Longrightarrow> dlist h l (xs @ ys) \<longleftrightarrow> nodes h (P @ Q)"
  by (auto simp: dlist_nodes)

text \<open>The two nodes around a gap of the sequence.\<close>

lemma dlist_gapE:
  assumes "dlist h l (xs @ ys)"
  obtains P p n Q where "head l # xs = P @ [p]" "ys @ [tail l] = n # Q"
    "last (head l # xs) = p" "hd (ys @ [tail l]) = n" "nodes h (P @ p # n # Q)"
proof -
  obtain P p where P: "head l # xs = P @ [p]" by (metis append_butlast_last_id list.distinct(1))
  obtain n Q where Q: "ys @ [tail l] = n # Q" by (cases "ys @ [tail l]") auto
  have "nodes h ((P @ [p]) @ (n # Q))" using assms dlist_append_nodes [OF P Q] by simp
  then show ?thesis using P Q that by simp
qed

lemma chain_same:
  "(\<And>p. p \<in> set ps \<Longrightarrow> nxt h' p = nxt h p \<and> prv h' p = prv h p) \<Longrightarrow> chain h' ps = chain h ps"
  by (rule chain_cong) (metis in_set_butlastD, metis list.set_sel(2) tl_Nil)

text \<open>Two heaps that agree on the nodes of a sequence represent it alike.\<close>

lemma dlist_same:
  assumes "\<And>p. p \<in> set (head l # xs @ [tail l]) \<Longrightarrow> nxt h' p = nxt h p \<and> prv h' p = prv h p"
  shows "dlist h' l xs = dlist h l xs"
proof -
  have "chain h' (head l # xs @ [tail l]) = chain h (head l # xs @ [tail l])"
    by (rule chain_same) (rule assms)
  then show ?thesis using assms by (simp add: dlist_def)
qed

lemma nodes_insert:
  assumes "nodes h (P @ p # n # Q)" and "e \<notin> set (P @ p # n # Q)" "e \<noteq> NULL"
    and "h' = h\<lparr>nxt := (nxt h)(e \<mapsto> n, p \<mapsto> e), prv := (prv h)(e \<mapsto> p, n \<mapsto> e)\<rparr>"
  shows "nodes h' (P @ p # e # n # Q)"
proof -
  have "chain h' P = chain h P" by (rule chain_same) (use assms in \<open>auto simp: nodes_def\<close>)
  moreover have "chain h' Q = chain h Q" by (rule chain_same) (use assms in \<open>auto simp: nodes_def\<close>)
  moreover have "P \<noteq> [] \<Longrightarrow> last P \<noteq> p \<and> last P \<noteq> e \<and> hd P \<noteq> n \<and> hd P \<noteq> e"
    and "Q \<noteq> [] \<Longrightarrow> hd Q \<noteq> n \<and> hd Q \<noteq> e \<and> last Q \<noteq> p \<and> last Q \<noteq> e"
    using assms last_in_set [of P] hd_in_set [of Q] last_in_set [of Q] hd_in_set [of P]
    by (auto simp: nodes_def)
  ultimately show ?thesis
    using assms by (cases "P = []"; cases "Q = []") (auto simp: nodes_def link_def)
qed

lemma nodes_remove:
  assumes "nodes h (P @ p # e # n # Q)"
    and "h' = h\<lparr>nxt := (nxt h)(p \<mapsto> n), prv := (prv h)(n \<mapsto> p)\<rparr>"
  shows "nodes h' (P @ p # n # Q)"
proof -
  have "chain h' P = chain h P" by (rule chain_same) (use assms in \<open>auto simp: nodes_def\<close>)
  moreover have "chain h' Q = chain h Q" by (rule chain_same) (use assms in \<open>auto simp: nodes_def\<close>)
  moreover have "P \<noteq> [] \<Longrightarrow> last P \<noteq> p \<and> hd P \<noteq> n" and "Q \<noteq> [] \<Longrightarrow> hd Q \<noteq> n \<and> last Q \<noteq> p"
    using assms last_in_set [of P] hd_in_set [of Q] last_in_set [of Q] hd_in_set [of P]
    by (auto simp: nodes_def)
  ultimately show ?thesis
    using assms by (cases "P = []"; cases "Q = []") (auto simp: nodes_def link_def)
qed

text \<open>An element is fresh for a list when it is allocated and not one of its nodes.\<close>

definition fresh_elem :: "list_heap \<Rightarrow> klist \<Rightarrow> addr list \<Rightarrow> addr \<Rightarrow> bool" where
  "fresh_elem h l xs e \<longleftrightarrow>
     e \<noteq> NULL \<and> nxt h e \<noteq> None \<and> prv h e \<noteq> None \<and> e \<notin> set (head l # xs @ [tail l])"

lemma dlist_gap_neighbours:
  assumes "dlist h l (xs @ ys)"
  shows "nxt h (last (head l # xs)) = Some (hd (ys @ [tail l]))"
    and "prv h (hd (ys @ [tail l])) = Some (last (head l # xs))"
    and "last (head l # xs) \<noteq> hd (ys @ [tail l])"
  using assms by - (erule dlist_gapE, simp add: nodes_def link_def del: last.simps)+

lemma list_insert_dlist:
  assumes d: "dlist h l (xs @ ys)" and f: "fresh_elem h l (xs @ ys) e"
  shows "\<exists>h'. list_insert (hd (ys @ [tail l])) e h = Some h' \<and> dlist h' l (xs @ e # ys)
    \<and> (\<forall>q. q \<noteq> e \<and> q \<noteq> last (head l # xs) \<longrightarrow> nxt h' q = nxt h q)
    \<and> (\<forall>q. q \<noteq> e \<and> q \<noteq> hd (ys @ [tail l]) \<longrightarrow> prv h' q = prv h q)
    \<and> dom (nxt h') = dom (nxt h) \<and> dom (prv h') = dom (prv h)"
proof -
  from d obtain P p n Q where P: "head l # xs = P @ [p]" and Q: "ys @ [tail l] = n # Q"
    and last_hd: "last (head l # xs) = p" "hd (ys @ [tail l]) = n"
    and nodes: "nodes h (P @ p # n # Q)"
    by (rule dlist_gapE)
  have set: "set (head l # (xs @ ys) @ [tail l]) = set (P @ p # n # Q)"
    using arg_cong [OF P, of set] arg_cong [OF Q, of set] by auto
  then have e: "e \<notin> set (P @ p # n # Q)" "e \<noteq> NULL" "nxt h e \<noteq> None" "prv h e \<noteq> None"
    using f by (auto simp: fresh_elem_def)
  note nb = dlist_gap_neighbours [OF d, unfolded last_hd]
  note nz = dlist_nonzero [OF d, unfolded last_hd]
  obtain a b where ab: "is_interior h n = Some a" "is_tail h n = Some b" "a \<or> b"
    using gap_interior_or_tail [OF d, unfolded last_hd] by blast
  let ?h = "h\<lparr>nxt := (nxt h)(e \<mapsto> n, p \<mapsto> e), prv := (prv h)(e \<mapsto> p, n \<mapsto> e)\<rparr>"
  have "list_insert n e h = Some ?h"
    using ab nb nz e by (auto simp: list_insert_def get_prev_def set_prev_def set_next_def)
  moreover have "dlist ?h l (xs @ e # ys)"
    using nodes_insert [OF nodes e(1,2) refl]
    by (subst dlist_append_nodes [OF P, of "e # ys" "e # n # Q"]) (simp_all add: Q)
  ultimately show ?thesis using nb e(3,4) unfolding last_hd by (auto simp: domIff)
qed

lemma list_remove_dlist:
  assumes d: "dlist h l (xs @ e # ys)"
  shows "\<exists>h'. list_remove e h = Some (hd (ys @ [tail l]), h') \<and> dlist h' l (xs @ ys)
    \<and> (\<forall>q. q \<noteq> last (head l # xs) \<longrightarrow> nxt h' q = nxt h q)
    \<and> (\<forall>q. q \<noteq> hd (ys @ [tail l]) \<longrightarrow> prv h' q = prv h q)
    \<and> dom (nxt h') = dom (nxt h) \<and> dom (prv h') = dom (prv h)"
proof -
  from d obtain P p n Q where P: "head l # xs = P @ [p]" and Q: "(e # ys) @ [tail l] = n # Q"
    and p: "last (head l # xs) = p" and nodes: "nodes h (P @ p # n # Q)"
    by (rule dlist_gapE)
  then obtain m R where R: "n = e" "ys @ [tail l] = m # R" "Q = m # R" "hd (ys @ [tail l]) = m"
    by (cases "ys @ [tail l]") auto
  note nodes = nodes [unfolded R(1,3)]
  have el: "prv h e = Some p" "nxt h e = Some m"
    using dlist_elem [OF d] p R(4) by simp_all
  have nz: "p \<noteq> NULL" "e \<noteq> NULL" "m \<noteq> NULL" and ne: "p \<noteq> e" "m \<noteq> e" "p \<noteq> m"
    and def: "nxt h p \<noteq> None" "prv h m \<noteq> None"
    using nodes by (auto simp: nodes_def link_def)
  let ?h = "h\<lparr>nxt := (nxt h)(p \<mapsto> m), prv := (prv h)(m \<mapsto> p)\<rparr>"
  have "list_remove e h = Some (m, ?h)"
    using el nz ne def is_interior_elem(1) [OF d]
    by (simp add: list_remove_def get_prev_def get_next_def set_prev_def set_next_def)
  moreover have "dlist ?h l (xs @ ys)"
    using nodes_remove [OF nodes refl] by (subst dlist_append_nodes [OF P R(2)]) simp
  ultimately show ?thesis using def unfolding p R(4) by (auto simp: domIff)
qed

lemma list_push_front_dlist:
  assumes "dlist h l xs" and "fresh_elem h l xs e"
  shows "\<exists>h'. list_push_front l e h = Some h' \<and> dlist h' l (e # xs)"
  using list_insert_dlist [of h l "[]" xs e] assms
  by (auto simp: list_push_front_def list_begin_eq [OF assms(1)])

lemma list_push_back_dlist:
  assumes "dlist h l xs" and "fresh_elem h l xs e"
  shows "\<exists>h'. list_push_back l e h = Some h' \<and> dlist h' l (xs @ [e])"
  using list_insert_dlist [of h l xs "[]" e] assms
  by (auto simp: list_push_back_def list_end_def)

lemma list_front_eq [klist_simps]: "dlist h l (x # xs) \<Longrightarrow> list_front h l = Some x"
  using list_begin_eq [of h l "x # xs"] by (simp add: list_front_def list_empty_eq list_begin_def)

lemma list_back_eq [klist_simps]: "dlist h l (xs @ [x]) \<Longrightarrow> list_back h l = Some x"
  using list_rbegin_eq [of h l "xs @ [x]"] by (simp add: list_back_def list_empty_eq list_rbegin_def)

lemma list_pop_front_dlist:
  assumes "dlist h l (x # xs)"
  shows "\<exists>h'. list_pop_front l h = Some (x, h') \<and> dlist h' l xs"
  using list_remove_dlist [of h l "[]" x xs] assms
  by (auto simp: list_pop_front_def list_front_eq [OF assms])

lemma list_pop_back_dlist:
  assumes "dlist h l (xs @ [x])"
  shows "\<exists>h'. list_pop_back l h = Some (x, h') \<and> dlist h' l xs"
  using list_remove_dlist [of h l xs x "[]"] assms
  by (auto simp: list_pop_back_def list_back_eq [OF assms])

lemma list_init_dlist:
  assumes "head l \<noteq> NULL" "tail l \<noteq> NULL" "head l \<noteq> tail l"
  shows "dlist (list_init l h) l []"
  using assms by (simp add: dlist_def list_init_def link_def)

subsection \<open>Loops refine folds over the sequence\<close>

text \<open>A position of the sequence that is not its end is the element there.\<close>

lemma dlist_pos: "dlist h l (xs @ y # ys) \<Longrightarrow> y \<noteq> list_end l"
  using dlist_ends [of h l "xs @ y # ys" y] by (simp add: list_end_def)

lemma list_size_from_eq:
  "dlist h l (xs @ ys) \<Longrightarrow> list_size_from h l (hd (ys @ [tail l])) c = Some (c + length ys)"
proof (induction ys arbitrary: xs c)
  case Nil
  show ?case by (subst list_size_from.simps) (simp add: list_end_def)
next
  case (Cons y ys)
  then show ?case
    using Cons.IH [of "xs @ [y]" "Suc c"]
    by (subst list_size_from.simps) (simp add: dlist_pos list_next_elem)
qed

lemma list_size_eq [klist_simps]: "dlist h l xs \<Longrightarrow> list_size h l = Some (length xs)"
  using list_size_from_eq [of h l "[]" xs 0] by (simp add: list_size_def list_begin_eq)

lemma list_max_from_eq:
  "dlist h l (xs @ ys) \<Longrightarrow>
   list_max_from h l lt m (hd (ys @ [tail l])) = Some (foldl (\<lambda>m e. if lt m e then e else m) m ys)"
proof (induction ys arbitrary: xs m)
  case Nil
  show ?case by (subst list_max_from.simps) (simp add: list_end_def)
next
  case (Cons y ys)
  then show ?case
    using Cons.IH [of "xs @ [y]"]
    by (subst list_max_from.simps) (simp add: dlist_pos list_next_elem)
qed

lemma list_min_from_eq:
  "dlist h l (xs @ ys) \<Longrightarrow>
   list_min_from h l lt m (hd (ys @ [tail l])) = Some (foldl (\<lambda>m e. if lt e m then e else m) m ys)"
proof (induction ys arbitrary: xs m)
  case Nil
  show ?case by (subst list_min_from.simps) (simp add: list_end_def)
next
  case (Cons y ys)
  then show ?case
    using Cons.IH [of "xs @ [y]"]
    by (subst list_min_from.simps) (simp add: dlist_pos list_next_elem)
qed

lemma list_max_eq:
  "dlist h l (x # xs) \<Longrightarrow> list_max h l lt = Some (foldl (\<lambda>m e. if lt m e then e else m) x xs)"
  using list_max_from_eq [of h l "[x]" xs lt x] list_next_elem [of h l "[]" x xs] dlist_pos [of h l "[]" x xs]
  by (simp add: list_max_def list_begin_eq)

lemma list_min_eq:
  "dlist h l (x # xs) \<Longrightarrow> list_min h l lt = Some (foldl (\<lambda>m e. if lt e m then e else m) x xs)"
  using list_min_from_eq [of h l "[x]" xs lt x] list_next_elem [of h l "[]" x xs] dlist_pos [of h l "[]" x xs]
  by (simp add: list_min_def list_begin_eq)

lemma list_insert_ordered_pos_eq:
  "dlist h l (xs @ ys) \<Longrightarrow>
   list_insert_ordered_pos h l x (hd (ys @ [tail l])) lt
     = Some (hd (dropWhile (\<lambda>e. \<not> lt x e) ys @ [tail l]))"
proof (induction ys arbitrary: xs)
  case Nil
  show ?case by (subst list_insert_ordered_pos.simps) (simp add: list_end_def)
next
  case (Cons y ys)
  then show ?case
    using Cons.IH [of "xs @ [y]"]
    by (subst list_insert_ordered_pos.simps) (simp add: dlist_pos list_next_elem)
qed

lemma list_insert_ordered_dlist:
  assumes d: "dlist h l xs" and f: "fresh_elem h l xs x"
  shows "\<exists>h'. list_insert_ordered l x lt h = Some h' \<and>
    dlist h' l (takeWhile (\<lambda>e. \<not> lt x e) xs @ x # dropWhile (\<lambda>e. \<not> lt x e) xs)"
proof -
  let ?ys = "takeWhile (\<lambda>e. \<not> lt x e) xs" and ?zs = "dropWhile (\<lambda>e. \<not> lt x e) xs"
  have "\<exists>h'. list_insert (hd (?zs @ [tail l])) x h = Some h' \<and> dlist h' l (?ys @ x # ?zs)"
    using list_insert_dlist [of h l ?ys ?zs x] d f by auto
  then show ?thesis
    using f list_insert_ordered_pos_eq [of h l "[]" xs x lt] d
    by (auto simp: list_insert_ordered_def list_begin_eq fresh_elem_def)
qed

subsection \<open>The list is a first-in first-out queue\<close>

lemma list_push_back_fresh:
  assumes "dlist h l xs" and "fresh_elem h l xs e" and "fresh_elem h l xs b" and "b \<noteq> e"
    and "list_push_back l e h = Some h'"
  shows "fresh_elem h' l (xs @ [e]) b"
proof -
  have "dom (nxt h') = dom (nxt h) \<and> dom (prv h') = dom (prv h)"
    using list_insert_dlist [of h l xs "[]" e] assms by (auto simp: list_push_back_def list_end_def)
  then have "nxt h' b \<noteq> None \<longleftrightarrow> nxt h b \<noteq> None" "prv h' b \<noteq> None \<longleftrightarrow> prv h b \<noteq> None"
    by (auto simp: dom_def)
  with assms(3,4) show ?thesis by (auto simp: fresh_elem_def)
qed

interpretation lq: fifo "\<lambda>h xs. dlist h l xs"
  "\<lambda>h xs bs. distinct bs \<and> (\<forall>b \<in> set bs. fresh_elem h l xs b)" "list_push_back l" "list_pop_front l" for l
proof (unfold_locales, goal_cases)
  case (1 h xs a as)
  then obtain h' where h': "list_push_back l a h = Some h'" "dlist h' l (xs @ [a])"
    using list_push_back_dlist by fastforce
  moreover have "fresh_elem h' l (xs @ [a]) b" if "b \<in> set as" for b
    using list_push_back_fresh [OF 1(1) _ _ _ h'(1)] 1 that by auto
  ultimately show ?case using 1 by auto
next
  case (2 h x xs)
  then show ?case by (rule list_pop_front_dlist)
qed

text \<open>C6: Elements appended with \<open>list_push_back\<close> come out of \<open>list_pop_front\<close> in the order they
  went in, after the elements that were there before, and the list ends up empty. No step fails:
  no assertion is violated and no unallocated link is touched.\<close>

theorem list_push_back_pop_front_fifo:
  assumes "dlist h l xs" and "distinct as" and "\<And>a. a \<in> set as \<Longrightarrow> fresh_elem h l xs a"
  shows "\<exists>h' h''. enq_all (list_push_back l) as h = Some h' \<and> dlist h' l (xs @ as)
    \<and> deq_many (list_pop_front l) (length (xs @ as)) h' = Some (xs @ as, h'') \<and> dlist h'' l []"
  using assms by (intro lq.fifo_order) auto

text \<open>A concrete heap for the examples: the list with header 1, 2 holds 30, 10, 20; the
  elements 40 and 50 are allocated and in no list.\<close>

definition heap3 :: list_heap where
  "heap3 = \<lparr>nxt = [1 \<mapsto> 30, 30 \<mapsto> 10, 10 \<mapsto> 20, 20 \<mapsto> 2, 2 \<mapsto> 0, 40 \<mapsto> 0, 50 \<mapsto> 0],
           prv = [1 \<mapsto> 0, 30 \<mapsto> 1, 10 \<mapsto> 30, 20 \<mapsto> 10, 2 \<mapsto> 20, 40 \<mapsto> 0, 50 \<mapsto> 0]\<rparr>"

abbreviation list3 :: klist where
  "list3 \<equiv> \<lparr>head = 1, tail = 2\<rparr>"

lemma heap3_dlist: "dlist heap3 list3 [30, 10, 20]"
  by (simp add: dlist_def link_def heap3_def)

lemma heap3_fresh: "fresh_elem heap3 list3 [30, 10, 20] 40" "fresh_elem heap3 list3 [30, 10, 20] 50"
  by (simp_all add: fresh_elem_def heap3_def)

theorem list_push_back_pop_front_fifo_witness:
  "\<exists>h' h''. enq_all (list_push_back list3) [40, 50] heap3 = Some h'
    \<and> deq_many (list_pop_front list3) 5 h' = Some ([30, 10, 20, 40, 50], h'') \<and> dlist h'' list3 []"
proof -
  have "fresh_elem heap3 list3 [30, 10, 20] a" if "a \<in> set [40, 50]" for a
    using that heap3_fresh by auto
  moreover have "distinct [40, 50 :: addr]" by simp
  ultimately have "\<exists>h' h''. enq_all (list_push_back list3) [40, 50] heap3 = Some h' \<and> dlist h' list3 ([30, 10, 20] @ [40, 50])
      \<and> deq_many (list_pop_front list3) (length ([30, 10, 20] @ [40, 50 :: addr])) h' = Some ([30, 10, 20] @ [40, 50], h'')
      \<and> dlist h'' list3 []"
    by (intro list_push_back_pop_front_fifo [OF heap3_dlist])
  moreover have "length ([30, 10, 20] @ [40, 50 :: addr]) = 5" "[30, 10, 20] @ [40, 50 :: addr] = [30, 10, 20, 40, 50]"
    by simp_all
  ultimately show ?thesis by (simp only:) blast
qed

text \<open>C5: Removing an element takes exactly it out: the others keep their order, the element that
  followed it is returned, and links of nodes that were not its neighbours are untouched, so every
  other list in the heap is preserved. Inserting it back before the returned position restores
  the sequence.\<close>

theorem list_remove_insert_roundtrip:
  assumes "dlist h l (xs @ e # ys)"
  shows "\<exists>n h' h''. list_remove e h = Some (n, h') \<and> dlist h' l (xs @ ys)
    \<and> (\<forall>q. q \<noteq> last (head l # xs) \<longrightarrow> nxt h' q = nxt h q) \<and> (\<forall>q. q \<noteq> n \<longrightarrow> prv h' q = prv h q)
    \<and> list_insert n e h' = Some h'' \<and> dlist h'' l (xs @ e # ys)"
proof -
  let ?n = "hd (ys @ [tail l])"
  obtain h' where h': "list_remove e h = Some (?n, h')" "dlist h' l (xs @ ys)"
      "\<forall>q. q \<noteq> last (head l # xs) \<longrightarrow> nxt h' q = nxt h q" "\<forall>q. q \<noteq> ?n \<longrightarrow> prv h' q = prv h q"
      "dom (nxt h') = dom (nxt h)" "dom (prv h') = dom (prv h)"
    using list_remove_dlist [OF assms] by blast
  have "e \<in> dom (nxt h')" "e \<in> dom (prv h')" using dlist_elem [OF assms] h'(5,6) by auto
  then have "fresh_elem h' l (xs @ ys) e" using assms by (auto simp: fresh_elem_def dlist_def domIff)
  from list_insert_dlist [OF h'(2) this] h' show ?thesis by blast
qed

theorem list_remove_insert_roundtrip_witness:
  "\<exists>n h' h''. list_remove 10 heap3 = Some (n, h') \<and> dlist h' list3 [30, 20]
    \<and> list_insert n 10 h' = Some h'' \<and> dlist h'' list3 [30, 10, 20]"
  using list_remove_insert_roundtrip [of heap3 list3 "[30]" 10 "[20]"] heap3_dlist by auto

end
