(* ===== verification/Klist_Sort.thy ===== *)
theory Klist_Sort
  imports Klist
begin

text \<open>
  Correctness of the list operations that rearrange a whole list: \<open>list_reverse\<close>,
  \<open>list_splice\<close> as the merge uses it, and the natural merge sort \<open>list_sort\<close>. The sort is
  shown to return, sorted, with the same elements and in a stable order, whenever the comparison
  is a strict weak order; its own assertions are shown to hold.
\<close>

subsection \<open>Reversal\<close>

text \<open>The heap after the loop of \<open>list_reverse\<close> has the links of the visited nodes swapped.\<close>

definition swapped :: "list_heap \<Rightarrow> addr set \<Rightarrow> list_heap" where
  "swapped h S = h\<lparr>nxt := (\<lambda>q. if q \<in> S then prv h q else nxt h q),
                   prv := (\<lambda>q. if q \<in> S then nxt h q else prv h q)\<rparr>"

lemma swapped_empty [simp]: "swapped h {} = h"
  by (simp add: swapped_def)

lemma swap_links_swapped:
  assumes "e \<noteq> NULL" and "nxt h e = Some n" and "prv h e = Some p" and "e \<notin> S"
  shows "swap_links e (swapped h S) = Some (swapped h (insert e S))"
proof -
  let ?g = "swapped h S"
  have g: "nxt ?g e = Some n" "prv ?g e = Some p" using assms by (simp_all add: swapped_def)
  then have "swap_links e ?g = Some (?g\<lparr>prv := (prv ?g)(e \<mapsto> n), nxt := (nxt ?g)(e \<mapsto> p)\<rparr>)"
    using assms(1) by (simp add: swap_links_def get_prev_def get_next_def set_prev_def set_next_def)
  also have "?g\<lparr>prv := (prv ?g)(e \<mapsto> n), nxt := (nxt ?g)(e \<mapsto> p)\<rparr> = swapped h (insert e S)"
    using assms by (auto simp: swapped_def fun_eq_iff intro!: list_heap.equality)
  finally show ?thesis .
qed

lemma list_reverse_from_eq:
  assumes "dlist h l (xs @ ys)"
  shows "list_reverse_from l (hd (ys @ [tail l])) (swapped h (set xs)) = Some (swapped h (set (xs @ ys)))"
  using assms
proof (induction ys arbitrary: xs)
  case Nil
  show ?case by (subst list_reverse_from.simps) (simp add: list_end_def)
next
  case (Cons y ys)
  have y: "y \<noteq> NULL" using dlist_notNULL [OF Cons.prems, of y] by simp
  have el: "prv h y = Some (last (head l # xs))" "nxt h y = Some (hd (ys @ [tail l]))"
    using dlist_elem [OF Cons.prems] by simp_all
  have "y \<notin> set xs" using dlist_distinct [OF Cons.prems] by simp
  note sw = swap_links_swapped [OF y el(2,1) this]
  have "get_prev (swapped h (insert y (set xs))) y = Some (hd (ys @ [tail l]))"
    using y el by (simp add: get_prev_def swapped_def)
  then show ?case
    using Cons.IH [of "xs @ [y]"] Cons.prems sw
    by (subst list_reverse_from.simps) (simp add: dlist_pos)
qed

lemma chain_rev:
  assumes "\<And>q. q \<in> set xs \<Longrightarrow> nxt h' q = prv h q \<and> prv h' q = nxt h q"
  shows "chain h xs \<Longrightarrow> chain h' (rev xs)"
  using assms
proof (induction xs)
  case Nil
  then show ?case by simp
next
  case (Cons x xs)
  then have "chain h' (rev xs)" by auto
  moreover have "link h' (hd xs) x" if "xs \<noteq> []"
    using that Cons.prems by (auto simp: link_def)
  ultimately show ?case by (auto simp: last_rev)
qed

lemma dlist_chain_interior: "dlist h l xs \<Longrightarrow> chain h xs"
  by (simp add: dlist_def)

lemma list_reverse_dlist:
  assumes d: "dlist h l xs"
  shows "\<exists>h'. list_reverse l h = Some h' \<and> dlist h' l (rev xs)"
proof (cases "xs = []")
  case True
  with d show ?thesis by (simp add: list_reverse_def list_empty_eq)
next
  case False
  define g where "g = swapped h (set xs)"
  define f where "f = last xs"
  define t where "t = hd xs"
  have ft: "f \<in> set xs" "t \<in> set xs" using False by (auto simp: f_def t_def)
  then have ne: "f \<noteq> NULL" "t \<noteq> NULL" "f \<noteq> head l" "f \<noteq> tail l" "t \<noteq> head l" "t \<noteq> tail l"
    "head l \<noteq> tail l" "head l \<noteq> NULL" "tail l \<noteq> NULL" "head l \<notin> set xs" "tail l \<notin> set xs"
    using d dlist_notNULL [OF d] dlist_ends [OF d] dlist_headers [OF d] by auto
  have loop: "list_reverse_from l t h = Some g"
    using list_reverse_from_eq [of h l "[]" xs] d False by (simp add: g_def t_def)
  have links: "nxt g (head l) = Some t" "prv g (tail l) = Some f"
    "prv g f = Some (tail l)" "nxt g t = Some (head l)" "prv g (head l) = Some NULL" "nxt g (tail l) = Some NULL"
    using d dlist_head [OF d] dlist_tail [OF d] False ft ne
      dlist_elem [of h l "[]" t "tl xs"] dlist_elem [of h l "butlast xs" f "[]"]
    by (auto simp: g_def swapped_def f_def t_def dlist_def)
  have def: "nxt g q \<noteq> None \<and> prv g q \<noteq> None" if "q \<in> set xs" for q
    using split_list [OF that] dlist_elem [of h l _ q] d that by (auto simp: g_def swapped_def)
  let ?h = "g\<lparr>nxt := (nxt g)(head l \<mapsto> f, t \<mapsto> tail l), prv := (prv g)(tail l \<mapsto> t, f \<mapsto> head l)\<rparr>"
  have "list_reverse l h = Some ?h"
    using d False loop links ne def [OF ft(1)] def [OF ft(2)]
    by (auto simp: list_reverse_def list_empty_eq list_begin_eq t_def [symmetric] get_next_def
        get_prev_def set_next_def set_prev_def fun_upd_twist intro!: list_heap.equality)
  moreover have "chain ?h (rev xs)"
  proof -
    have "chain g (rev xs)"
      using dlist_chain_interior [OF d] by (intro chain_rev [of xs g h]) (auto simp: g_def swapped_def)
    moreover have "t \<notin> set (butlast (rev xs))"
      using False dlist_distinct [OF d] by (cases xs) (simp_all add: t_def)
    moreover have "f \<notin> set (tl (rev xs))"
      using False dlist_distinct [OF d] by (cases xs rule: rev_cases) (simp_all add: f_def)
    moreover have "set (butlast (rev xs)) \<subseteq> set xs" "set (tl (rev xs)) \<subseteq> set xs"
      using False by (auto dest: in_set_butlastD list.set_sel(2) [rotated])
    ultimately show ?thesis
      using ne by (subst chain_cong [of _ ?h g]) auto
  qed
  moreover have "dlist ?h l (rev xs)"
  proof -
    have "link ?h (head l) f" "link ?h t (tail l)" using ne by (simp_all add: link_def)
    then have "chain ?h (head l # rev xs @ [tail l])"
      using \<open>chain ?h (rev xs)\<close> False
      by (simp add: hd_rev last_rev f_def [symmetric] t_def [symmetric])
    moreover have "distinct xs" "NULL \<notin> set xs" using d by (simp_all add: dlist_def)
    ultimately show ?thesis using ne links by (simp add: dlist_def)
  qed
  ultimately show ?thesis by blast
qed

subsection \<open>Splicing a segment towards the front\<close>

lemma distinct_last_notin: "distinct xs \<Longrightarrow> last xs \<notin> set (butlast xs)"
  by (cases xs rule: rev_cases) auto

lemma distinct_hd_notin: "distinct xs \<Longrightarrow> hd xs \<notin> set (tl xs)"
  by (cases xs) auto

lemma set_butlast_subset: "set (butlast xs) \<subseteq> set xs"
  by (auto dest: in_set_butlastD)

lemma set_tl_subset: "set (tl xs) \<subseteq> set xs"
  by (cases xs) auto

lemma nodes_splice:
  assumes n: "nodes h (P @ q # A @ S @ n # Q)" and ne: "A \<noteq> []" "S \<noteq> []"
    and h': "h' = h\<lparr>nxt := (nxt h)(last A \<mapsto> n, last S \<mapsto> hd A, q \<mapsto> hd S),
                  prv := (prv h)(n \<mapsto> last A, hd S \<mapsto> q, hd A \<mapsto> last S)\<rparr>"
  shows "nodes h' (P @ q # S @ A @ n # Q)"
proof -
  have d: "distinct (P @ q # A @ S @ n # Q)" using n by (simp add: nodes_def)
  have mem: "last A \<in> set A" "hd A \<in> set A" "last S \<in> set S" "hd S \<in> set S" using ne by simp_all
  have seg: "p \<noteq> last A \<and> p \<noteq> last S \<and> p \<noteq> q" if "p \<in> set (butlast A) \<or> p \<in> set (butlast S)" for p
    using that d mem set_butlast_subset [of A] set_butlast_subset [of S]
      distinct_last_notin [of A] distinct_last_notin [of S] by auto
  have seg': "p \<noteq> hd A \<and> p \<noteq> hd S \<and> p \<noteq> n" if "p \<in> set (tl A) \<or> p \<in> set (tl S)" for p
    using that d mem set_tl_subset [of A] set_tl_subset [of S]
      distinct_hd_notin [of A] distinct_hd_notin [of S] by auto
  have "chain h' A = chain h A" by (rule chain_cong) (simp_all add: h' seg seg')
  moreover have "chain h' S = chain h S" by (rule chain_cong) (simp_all add: h' seg seg')
  moreover have "chain h' P = chain h P" by (rule chain_same) (use d mem in \<open>auto simp: h'\<close>)
  moreover have "chain h' Q = chain h Q" by (rule chain_same) (use d mem in \<open>auto simp: h'\<close>)
  moreover have "link h' (last P) q" if "P \<noteq> []"
  proof -
    have "last P \<in> set P" using that by simp
    then have "last P \<noteq> last A \<and> last P \<noteq> last S \<and> last P \<noteq> q" "q \<noteq> n \<and> q \<noteq> hd S \<and> q \<noteq> hd A"
      using d mem by auto
    moreover have "link h (last P) q" using n that by (simp add: nodes_def)
    ultimately show ?thesis by (simp add: link_def h')
  qed
  moreover have "link h' n (hd Q)" if "Q \<noteq> []"
  proof -
    have "hd Q \<in> set Q" using that by simp
    then have "hd Q \<noteq> n \<and> hd Q \<noteq> hd S \<and> hd Q \<noteq> hd A" "n \<noteq> last A \<and> n \<noteq> last S \<and> n \<noteq> q"
      using d mem by auto
    moreover have "link h n (hd Q)" using n that by (simp add: nodes_def)
    ultimately show ?thesis by (simp add: link_def h')
  qed
  moreover have "link h' q (hd S)" "link h' (last S) (hd A)" "link h' (last A) n"
    using d mem by (auto simp: link_def h')
  ultimately have "chain h' (P @ q # S @ A @ n # Q)"
    using n ne by (cases "Q = []") (simp_all add: nodes_def)
  moreover have "prv h' (hd (P @ [q])) = Some NULL"
  proof -
    have "hd (P @ [q]) \<in> set (P @ [q])" by (rule hd_in_set) simp
    then have "hd (P @ [q]) \<notin> {n, hd S, hd A}" using d mem by auto
    moreover have "prv h (hd (P @ [q])) = Some NULL" using n by (cases P) (simp_all add: nodes_def)
    ultimately show ?thesis by (simp add: h')
  qed
  moreover have "nxt h' (last (n # Q)) = Some NULL"
  proof -
    have "last (n # Q) \<in> set (n # Q)" by (rule last_in_set) simp
    then have "last (n # Q) \<notin> {q, last S, last A}" using d mem by auto
    moreover have "nxt h (last (n # Q)) = Some NULL" using n by (simp add: nodes_def)
    ultimately show ?thesis by (simp add: h' del: last.simps)
  qed
  moreover have "hd (P @ q # S @ A @ n # Q) = hd (P @ [q])" by (cases P) simp_all
  moreover have "NULL \<notin> set (P @ q # S @ A @ n # Q)" "distinct (P @ q # S @ A @ n # Q)"
    using n by (auto simp: nodes_def)
  ultimately show ?thesis by (simp add: nodes_def)
qed

lemma is_interior_mem:
  "dlist h l xs \<Longrightarrow> x \<in> set xs \<Longrightarrow> is_interior h x = Some True \<and> is_tail h x = Some False"
  by (metis is_interior_elem split_list)

lemma list_splice_dlist:
  assumes d: "dlist h l (D @ A @ S @ rest)" and ne: "A \<noteq> []" "S \<noteq> []"
  shows "\<exists>h'. list_splice (hd A) (hd S) (hd (rest @ [tail l])) h = Some h' \<and> dlist h' l (D @ S @ A @ rest)"
proof -
  obtain P q where P: "head l # D = P @ [q]" by (metis append_butlast_last_id list.distinct(1))
  obtain n Q where Q: "rest @ [tail l] = n # Q" by (cases "rest @ [tail l]") auto
  have nodes: "nodes h (P @ q # A @ S @ n # Q)"
    using d dlist_append_nodes [OF P, of "A @ S @ rest" "A @ S @ n # Q"] Q by simp
  have hn: "hd (rest @ [tail l]) = n" using Q by simp
  have q: "last (head l # D) = q" using P by simp
  have mem: "last A \<in> set A" "hd A \<in> set A" "last S \<in> set S" "hd S \<in> set S" using ne by simp_all
  have dist: "distinct (P @ q # A @ S @ n # Q)" "NULL \<notin> set (P @ q # A @ S @ n # Q)"
    using nodes by (simp_all add: nodes_def)
  then have neq: "hd S \<noteq> n" "last A \<noteq> last S" "hd A \<noteq> hd S" "hd A \<noteq> n" "q \<noteq> last A" "q \<noteq> last S"
      "last A \<noteq> NULL" "last S \<noteq> NULL" "hd A \<noteq> NULL" "hd S \<noteq> NULL" "n \<noteq> NULL" "q \<noteq> NULL"
    using mem by auto
  have lk: "link h q (hd A)" "link h (last A) (hd S)" "link h (last S) n"
    using nodes ne by (simp_all add: nodes_def)
  have int: "is_interior h (hd A) = Some True" "is_tail h (hd A) = Some False" "is_interior h (hd S) = Some True"
    "is_interior h (last S) = Some True"
    using is_interior_mem [OF d] mem by simp_all
  have lp: "list_prev h n = Some (last S)"
    using list_prev_gap [of h l "D @ A @ S" rest] d ne by (simp add: hn)
  let ?h = "h\<lparr>nxt := (nxt h)(last A \<mapsto> n, last S \<mapsto> hd A, q \<mapsto> hd S),
              prv := (prv h)(n \<mapsto> last A, hd S \<mapsto> q, hd A \<mapsto> last S)\<rparr>"
  have "list_splice (hd A) (hd S) n h = Some ?h"
    using int lp lk neq
    by (simp add: list_splice_def link_def get_prev_def get_next_def set_prev_def set_next_def)
  moreover have "dlist ?h l (D @ S @ A @ rest)"
    using nodes_splice [OF nodes ne refl]
    by (subst dlist_append_nodes [OF P, of "S @ A @ rest" "S @ A @ n # Q"]) (simp_all add: Q)
  ultimately show ?thesis by (simp add: hn)
qed

subsection \<open>The merge sort on sequences\<close>

definition strict_weak :: "('a \<Rightarrow> 'a \<Rightarrow> bool) \<Rightarrow> bool" where
  "strict_weak lt \<longleftrightarrow> (\<forall>a b. lt a b \<longrightarrow> \<not> lt b a) \<and> (\<forall>a b c. lt a c \<longrightarrow> lt a b \<or> lt b c)"

abbreviation nondecreasing :: "('a \<Rightarrow> 'a \<Rightarrow> bool) \<Rightarrow> 'a list \<Rightarrow> bool" where
  "nondecreasing lt xs \<equiv> sorted_wrt (\<lambda>a b. \<not> lt b a) xs"

lemma nondecreasing_successively:
  "strict_weak lt \<Longrightarrow> successively (\<lambda>a b. \<not> lt b a) xs \<longleftrightarrow> nondecreasing lt xs"
  by (rule successively_conv_sorted_wrt, rule transpI) (metis strict_weak_def)

fun run_split :: "('a \<Rightarrow> 'a \<Rightarrow> bool) \<Rightarrow> 'a \<Rightarrow> 'a list \<Rightarrow> 'a list \<times> 'a list" where
  "run_split lt a [] = ([a], [])"
| "run_split lt a (b # ys) =
     (if \<not> lt b a then (a # fst (run_split lt b ys), snd (run_split lt b ys)) else ([a], b # ys))"

fun mrg :: "('a \<Rightarrow> 'a \<Rightarrow> bool) \<Rightarrow> 'a list \<Rightarrow> 'a list \<Rightarrow> 'a list" where
  "mrg lt [] bs = bs"
| "mrg lt as [] = as"
| "mrg lt (a # as) (b # bs) =
     (if \<not> lt b a then a # mrg lt as (b # bs) else b # mrg lt (a # as) bs)"

fun runs :: "('a \<Rightarrow> 'a \<Rightarrow> bool) \<Rightarrow> 'a list \<Rightarrow> nat" where
  "runs lt [] = 0"
| "runs lt [x] = 1"
| "runs lt (x # y # zs) = (if lt y x then Suc (runs lt (y # zs)) else runs lt (y # zs))"

lemma mset_mrg: "mset (mrg lt as bs) = mset as + mset bs"
  by (induction lt as bs rule: mrg.induct) auto

lemma set_mrg: "set (mrg lt as bs) = set as \<union> set bs"
  by (metis mset_mrg set_mset_mset set_mset_union)

lemma nondecreasing_mrg:
  "strict_weak lt \<Longrightarrow> nondecreasing lt as \<Longrightarrow> nondecreasing lt bs \<Longrightarrow> nondecreasing lt (mrg lt as bs)"
proof (induction lt as bs rule: mrg.induct)
  case (3 lt a as b bs)
  show ?case
  proof (cases "lt b a")
    case True
    then have "\<not> lt x b" if "x \<in> set (a # as)" for x
      using that 3(3,4) unfolding strict_weak_def by (metis set_ConsD sorted_wrt.simps(2))
    with True 3 show ?thesis by (auto simp: set_mrg)
  next
    case False
    then have "\<not> lt x a" if "x \<in> set (b # bs)" for x
      using that 3(3,5) unfolding strict_weak_def by (metis set_ConsD sorted_wrt.simps(2))
    with False 3 show ?thesis by (auto simp: set_mrg)
  qed
qed auto

lemma run_split_props:
  "a # ys = fst (run_split lt a ys) @ snd (run_split lt a ys)
   \<and> fst (run_split lt a ys) \<noteq> [] \<and> hd (fst (run_split lt a ys)) = a
   \<and> successively (\<lambda>a b. \<not> lt b a) (fst (run_split lt a ys))
   \<and> runs lt (a # ys) = Suc (runs lt (snd (run_split lt a ys)))"
  by (induction lt a ys rule: run_split.induct) (auto simp: successively_Cons)

lemma runs_append: "successively (\<lambda>a b. \<not> lt b a) A \<Longrightarrow> runs lt (A @ B) \<le> Suc (runs lt B)"
proof (induction lt A rule: runs.induct)
  case (2 lt x)
  then show ?case by (cases B) auto
qed auto

lemma runs_pos: "xs \<noteq> [] \<Longrightarrow> 0 < runs lt xs"
  by (induction lt xs rule: runs.induct) auto

lemma runs_le_1: "runs lt xs \<le> 1 \<longleftrightarrow> successively (\<lambda>a b. \<not> lt b a) xs"
proof (induction lt xs rule: runs.induct)
  case (3 lt x y zs)
  then show ?case using runs_pos [of "y # zs" lt] by auto
qed auto

text \<open>One pass: merge the first two runs, go on with the rest.\<close>

function sort_pass :: "('a \<Rightarrow> 'a \<Rightarrow> bool) \<Rightarrow> 'a list \<Rightarrow> nat \<times> 'a list" where
  "sort_pass lt [] = (0, [])"
| "sort_pass lt (x # xs) =
     (let A = fst (run_split lt x xs) in
      case snd (run_split lt x xs) of
        [] \<Rightarrow> (1, A)
      | y # ys \<Rightarrow>
          let B = fst (run_split lt y ys); (n, zs) = sort_pass lt (snd (run_split lt y ys))
          in (Suc n, mrg lt A B @ zs))"
  by pat_completeness auto
termination
proof (relation "measure (\<lambda>(lt, xs). length xs)")
  show "wf (measure (\<lambda>(lt, xs). length xs))" by simp
next
  fix lt :: "'a \<Rightarrow> 'a \<Rightarrow> bool" and x xs A y ys B
  assume "snd (run_split lt x xs) = y # ys"
  then have "length (y # ys) < length (x # xs)"
    using arg_cong [OF conjunct1 [OF run_split_props [of x xs lt]], of length]
      run_split_props [of x xs lt] by simp
  moreover have "length (snd (run_split lt y ys)) \<le> length (y # ys)"
    using arg_cong [OF conjunct1 [OF run_split_props [of y ys lt]], of length] by simp
  ultimately show "((lt, snd (run_split lt y ys)), lt, x # xs) \<in> measure (\<lambda>(lt, xs). length xs)"
    by simp
qed

text \<open>Elements equivalent to a given one keep their order (stability).\<close>

definition equivalents :: "('a \<Rightarrow> 'a \<Rightarrow> bool) \<Rightarrow> 'a \<Rightarrow> 'a list \<Rightarrow> 'a list" where
  "equivalents lt k xs = filter (\<lambda>x. \<not> lt x k \<and> \<not> lt k x) xs"

lemma equivalents_append [simp]: "equivalents lt k (xs @ ys) = equivalents lt k xs @ equivalents lt k ys"
  by (simp add: equivalents_def)

lemma equivalents_mrg:
  "strict_weak lt \<Longrightarrow> nondecreasing lt as \<Longrightarrow> nondecreasing lt bs \<Longrightarrow>
   equivalents lt k (mrg lt as bs) = equivalents lt k as @ equivalents lt k bs"
proof (induction lt as bs rule: mrg.induct)
  case (3 lt a as b bs)
  show ?case
  proof (cases "lt b a")
    case True
    have "equivalents lt k (a # as) = []" if "\<not> lt b k" "\<not> lt k b"
    proof -
      have "lt k x" if "x \<in> set (a # as)" for x
        using that True 3(3,4) \<open>\<not> lt b k\<close> \<open>\<not> lt k b\<close> unfolding strict_weak_def
        by (metis set_ConsD sorted_wrt.simps(2))
      then show ?thesis by (auto simp: equivalents_def filter_empty_conv)
    qed
    with True 3 show ?thesis by (auto simp: equivalents_def)
  next
    case False
    with 3 show ?thesis by (auto simp: equivalents_def)
  qed
qed (auto simp: equivalents_def)

lemma sort_pass_props:
  assumes "strict_weak lt"
  shows "mset (snd (sort_pass lt xs)) = mset xs
    \<and> runs lt (snd (sort_pass lt xs)) \<le> fst (sort_pass lt xs)
    \<and> 2 * fst (sort_pass lt xs) \<le> Suc (runs lt xs)
    \<and> equivalents lt k (snd (sort_pass lt xs)) = equivalents lt k xs"
  using assms
proof (induction lt xs rule: sort_pass.induct)
  case (1 lt)
  then show ?case by simp
next
  case (2 lt x xs)
  note rx = run_split_props [of x xs lt]
  show ?case
  proof (cases "snd (run_split lt x xs)")
    case Nil
    then have f: "fst (run_split lt x xs) = x # xs" and "runs lt (x # xs) = 1" using rx by force+
    moreover have "sort_pass lt (x # xs) = (1, x # xs)" using Nil f by simp
    ultimately show ?thesis by (simp del: sort_pass.simps)
  next
    case (Cons y ys)
    define A where "A = fst (run_split lt x xs)"
    define B where "B = fst (run_split lt y ys)"
    define zs where "zs = snd (run_split lt y ys)"
    note ry = run_split_props [of y ys lt]
    have xs: "x # xs = A @ B @ zs" using rx ry Cons by (simp add: A_def B_def zs_def)
    have "runs lt (x # xs) = Suc (runs lt (y # ys))" using rx Cons by argo
    then have r: "runs lt (x # xs) = Suc (Suc (runs lt zs))" using ry unfolding zs_def by argo
    have A: "nondecreasing lt A" and B: "nondecreasing lt B"
      using rx ry nondecreasing_successively [OF 2(2)] by (simp_all add: A_def B_def)
    have M: "successively (\<lambda>a b. \<not> lt b a) (mrg lt A B)"
      using nondecreasing_mrg [OF 2(2) A B] nondecreasing_successively [OF 2(2)] by blast
    obtain n us where p: "sort_pass lt zs = (n, us)" by fastforce
    have IH: "mset us = mset zs" "runs lt us \<le> n" "2 * n \<le> Suc (runs lt zs)"
      "equivalents lt k us = equivalents lt k zs"
      using 2(1) [OF A_def Cons B_def 2(2)] p by (simp_all add: zs_def)
    have "sort_pass lt (x # xs) = (Suc n, mrg lt A B @ us)"
      using Cons p by (simp add: A_def B_def zs_def)
    then show ?thesis
      using IH r runs_append [OF M, of us] equivalents_mrg [OF 2(2) A B, of k]
      by (simp add: xs mset_mrg)
  qed
qed

subsection \<open>The heap sort refines it\<close>

lemma dlist_hd_neq:
  assumes "dlist h l (xs @ y # ys @ zs)"
  shows "y \<noteq> hd (zs @ [tail l])"
  using assms by (cases zs) (auto simp: dlist_def)

lemma is_sorted_from_eq:
  "dlist h l (xs @ a # ys @ zs) \<Longrightarrow>
   is_sorted_from h a (hd (zs @ [tail l])) lt = Some (successively (\<lambda>a b. \<not> lt b a) (a # ys))"
proof (induction ys arbitrary: xs a)
  case Nil
  then show ?case by (subst is_sorted_from.simps) (simp add: list_next_elem)
next
  case (Cons y ys)
  have "list_prev h y = Some a"
    using list_prev_elem [of h l "xs @ [a]" y "ys @ zs"] Cons.prems by simp
  moreover have "list_next h a = Some y"
    using list_next_elem [of h l xs a "(y # ys) @ zs"] Cons.prems by simp
  moreover have "y \<noteq> hd (zs @ [tail l])"
    using dlist_hd_neq [of h l "xs @ [a]" y ys zs] Cons.prems by simp
  ultimately show ?case
    using Cons.IH [of "xs @ [a]" y] Cons.prems by (subst is_sorted_from.simps) simp
qed

lemma is_sorted_eq:
  "dlist h l (xs @ ys @ zs) \<Longrightarrow>
   is_sorted h (hd (ys @ zs @ [tail l])) (hd (zs @ [tail l])) lt
     = Some (successively (\<lambda>a b. \<not> lt b a) ys)"
proof (cases ys)
  case Nil
  then show ?thesis by (simp add: is_sorted_def)
next
  case (Cons y ys')
  assume "dlist h l (xs @ ys @ zs)"
  with Cons show ?thesis
    using is_sorted_from_eq [of h l xs y ys' zs lt] dlist_hd_neq [of h l xs y ys' zs]
    by (simp add: is_sorted_def)
qed

lemma find_end_of_run_loop_eq:
  "dlist h l (xs @ a # ys) \<Longrightarrow>
   find_end_of_run_loop h a (tail l) lt = Some (hd (snd (run_split lt a ys) @ [tail l]))"
proof (induction ys arbitrary: xs a)
  case Nil
  then show ?case by (subst find_end_of_run_loop.simps) (simp add: list_next_elem)
next
  case (Cons y ys)
  have "list_prev h y = Some a"
    using list_prev_elem [of h l "xs @ [a]" y ys] Cons.prems by simp
  moreover have "list_next h a = Some y"
    using list_next_elem [of h l xs a "y # ys"] Cons.prems by simp
  moreover have "y \<noteq> tail l"
    using dlist_hd_neq [of h l "xs @ [a]" y ys "[]"] Cons.prems by simp
  ultimately show ?case
    using Cons.IH [of "xs @ [a]" y] Cons.prems by (subst find_end_of_run_loop.simps) simp
qed

lemma find_end_of_run_eq:
  assumes "dlist h l (xs @ a # ys)"
  shows "find_end_of_run h a (list_end l) lt = Some (hd (snd (run_split lt a ys) @ [tail l]))"
  using assms find_end_of_run_loop_eq [OF assms, of lt] dlist_notNULL [OF assms, of a]
    dlist_ends [OF assms, of a] dlist_headers [OF assms]
  by (simp add: find_end_of_run_def list_end_def)

lemma inplace_merge_loop_dlist:
  assumes "dlist h l (D @ A @ B @ rest)"
  shows "\<exists>h'. inplace_merge_loop (hd (A @ B @ rest @ [tail l])) (hd (B @ rest @ [tail l]))
      (hd (rest @ [tail l])) lt h = Some h' \<and> dlist h' l (D @ mrg lt A B @ rest)"
  using assms
proof (induction lt A B arbitrary: D h rule: mrg.induct)
  case (1 lt bs)
  then show ?case by (subst inplace_merge_loop.simps) simp
next
  case (2 lt a as)
  then show ?case by (subst inplace_merge_loop.simps) simp
next
  case (3 lt a as b bs)
  have ne: "a \<noteq> b" "b \<noteq> hd (rest @ [tail l])"
    using dlist_hd_neq [of h l D a as "b # bs @ rest"] dlist_hd_neq [of h l "D @ a # as" b bs rest] 3(3)
    by simp_all
  show ?case
  proof (cases "lt b a")
    case False
    have "list_next h a = Some (hd (as @ b # bs @ rest @ [tail l]))"
      using list_next_elem [of h l D a "as @ b # bs @ rest"] 3(3) by simp
    with False ne 3(1) [of h "D @ [a]"] 3(3) show ?thesis
      by (subst inplace_merge_loop.simps) simp
  next
    case True
    have "list_next h b = Some (hd (bs @ rest @ [tail l]))"
      using list_next_elem [of h l "D @ a # as" b "bs @ rest"] 3(3) by simp
    moreover have "list_prev h (hd (bs @ rest @ [tail l])) = Some b"
      using list_prev_gap [of h l "D @ (a # as) @ [b]" "bs @ rest"] 3(3) by simp
    moreover obtain h1 where "list_splice a b (hd (bs @ rest @ [tail l])) h = Some h1"
        and d1: "dlist h1 l ((D @ [b]) @ (a # as) @ bs @ rest)"
      using list_splice_dlist [of h l D "a # as" "[b]" "bs @ rest"] 3(3) by auto
    moreover obtain h' where "inplace_merge_loop a (hd (bs @ rest @ [tail l])) (hd (rest @ [tail l])) lt h1 = Some h'"
        and "dlist h' l ((D @ [b]) @ mrg lt (a # as) bs @ rest)"
      using 3(2) [OF _ d1] True by auto
    ultimately show ?thesis
      using True ne by (subst inplace_merge_loop.simps) simp
  qed
qed

lemma inplace_merge_dlist:
  assumes d: "dlist h l (D @ A @ B @ rest)"
    and s: "successively (\<lambda>a b. \<not> lt b a) A" "successively (\<lambda>a b. \<not> lt b a) B"
  shows "\<exists>h'. inplace_merge (hd (A @ B @ rest @ [tail l])) (hd (B @ rest @ [tail l]))
      (hd (rest @ [tail l])) lt h = Some h' \<and> dlist h' l (D @ mrg lt A B @ rest)"
proof -
  have "0 < hd (A @ B @ rest @ [tail l])" "0 < hd (B @ rest @ [tail l])" "0 < hd (rest @ [tail l])"
    using dlist_hd_nonzero [of h l D "A @ B @ rest"] dlist_hd_nonzero [of h l "D @ A" "B @ rest"]
      dlist_hd_nonzero [of h l "D @ A @ B" rest] d by simp_all
  moreover have "is_sorted h (hd (A @ B @ rest @ [tail l])) (hd (B @ rest @ [tail l])) lt = Some True"
    using is_sorted_eq [of h l D A "B @ rest" lt] d s by simp
  moreover have "is_sorted h (hd (B @ rest @ [tail l])) (hd (rest @ [tail l])) lt = Some True"
    using is_sorted_eq [of h l "D @ A" B rest lt] d s by simp
  ultimately show ?thesis
    using inplace_merge_loop_dlist [OF d, of lt] by (simp add: inplace_merge_def)
qed

lemma list_sort_pass_dlist:
  assumes "dlist h l (D @ xs)"
  shows "\<exists>h'. list_sort_pass l lt (hd (xs @ [tail l])) c h = Some (c + fst (sort_pass lt xs), h')
    \<and> dlist h' l (D @ snd (sort_pass lt xs))"
  using assms
proof (induction lt xs arbitrary: D c h rule: sort_pass.induct)
  case (1 lt)
  then show ?case by (subst list_sort_pass.simps) (simp add: list_end_def)
next
  case (2 lt x xs)
  note rx = run_split_props [of x xs lt]
  note e1 = find_end_of_run_eq [OF 2(2), of lt]
  have x: "x \<noteq> list_end l" using dlist_pos [OF 2(2)] .
  show ?case
  proof (cases "snd (run_split lt x xs)")
    case Nil
    then have "fst (run_split lt x xs) = x # xs" using rx by simp
    with Nil 2(2) e1 x show ?thesis by (subst list_sort_pass.simps) (simp add: list_end_def)
  next
    case (Cons y ys)
    define A where "A = fst (run_split lt x xs)"
    define B where "B = fst (run_split lt y ys)"
    define zs where "zs = snd (run_split lt y ys)"
    note ry = run_split_props [of y ys lt]
    have xs: "x # xs = A @ y # ys" "y # ys = B @ zs" "hd A = x" "hd B = y" "A \<noteq> []" "B \<noteq> []"
      using rx ry Cons by (simp_all add: A_def B_def zs_def)
    have d: "dlist h l (D @ A @ B @ zs)" using 2(2) xs by simp
    have y: "y \<noteq> list_end l" and e2: "find_end_of_run h y (list_end l) lt = Some (hd (zs @ [tail l]))"
      using dlist_pos [of h l "D @ A" y ys] find_end_of_run_eq [of h l "D @ A" y ys lt] 2(2) xs
      by (simp_all add: zs_def)
    obtain h1 where h1: "inplace_merge x y (hd (zs @ [tail l])) lt h = Some h1"
        and d1: "dlist h1 l ((D @ mrg lt A B) @ zs)"
      using inplace_merge_dlist [OF d, of lt] rx ry xs by (auto simp: A_def B_def)
    obtain h2 where "list_sort_pass l lt (hd (zs @ [tail l])) (Suc c) h1 = Some (Suc c + fst (sort_pass lt zs), h2)"
        and "dlist h2 l ((D @ mrg lt A B) @ snd (sort_pass lt zs))"
      using 2(1) [OF A_def Cons B_def d1 [unfolded zs_def], of "Suc c"] by (auto simp: zs_def)
    then show ?thesis
      using x y e1 e2 h1 Cons
      by (subst list_sort_pass.simps) (simp add: list_end_def A_def B_def zs_def split_beta)
  qed
qed

lemma list_sort_loop_dlist:
  assumes "strict_weak lt" and "dlist h l xs"
  shows "\<exists>h' ys. list_sort_loop l lt h = Some h' \<and> dlist h' l ys \<and> mset ys = mset xs
    \<and> nondecreasing lt ys \<and> (\<forall>k. equivalents lt k ys = equivalents lt k xs)"
  using assms(2)
proof (induction "runs lt xs" arbitrary: xs h rule: less_induct)
  case less
  obtain n ys where p: "sort_pass lt xs = (n, ys)" by fastforce
  note props = sort_pass_props [OF assms(1), of xs, unfolded p, simplified]
  obtain h1 where h1: "list_sort_pass l lt (hd (xs @ [tail l])) 0 h = Some (n, h1)" "dlist h1 l ys"
    using list_sort_pass_dlist [of h l "[]" xs lt 0] less.prems p by auto
  show ?case
  proof (cases "n > 1")
    case True
    then have "runs lt ys < runs lt xs"
      using conjunct1 [OF conjunct2 [OF props]] conjunct1 [OF conjunct2 [OF conjunct2 [OF props]]]
      by linarith
    from less.hyps [OF this h1(2)] props True h1 less.prems show ?thesis
      by (subst list_sort_loop.simps) (auto simp: list_begin_eq)
  next
    case False
    then have "nondecreasing lt ys"
      using props runs_le_1 [of lt ys] nondecreasing_successively [OF assms(1)] by auto
    with False props h1 less.prems show ?thesis
      by (subst list_sort_loop.simps) (auto simp: list_begin_eq)
  qed
qed

lemma list_sort_dlist:
  assumes "strict_weak lt" and "dlist h l xs"
  shows "\<exists>h' ys. list_sort l lt h = Some h' \<and> dlist h' l ys \<and> mset ys = mset xs
    \<and> nondecreasing lt ys \<and> (\<forall>k. equivalents lt k ys = equivalents lt k xs)"
proof -
  obtain h' ys where r: "list_sort_loop l lt h = Some h'" "dlist h' l ys" "mset ys = mset xs"
      "nondecreasing lt ys" "\<forall>k. equivalents lt k ys = equivalents lt k xs"
    using list_sort_loop_dlist [OF assms] by blast
  have "is_sorted h' (hd (ys @ [tail l])) (tail l) lt = Some True"
    using is_sorted_eq [of h' l "[]" ys "[]" lt] r nondecreasing_successively [OF assms(1)] by simp
  with r have "list_sort l lt h = Some h'" by (simp add: list_sort_def list_begin_eq list_end_def)
  with r show ?thesis by blast
qed

text \<open>C3: \<open>list_sort\<close> terminates on every list for every strict weak order \<open>less\<close>, none of its
  assertions fails, and the list then holds the same elements in nondecreasing order. The sort is
  stable: elements that are equivalent under \<open>less\<close> keep their relative order.\<close>

theorem list_sort_correct:
  assumes "strict_weak lt" and "dlist h l xs"
  shows "\<exists>h' ys. list_sort l lt h = Some h' \<and> dlist h' l ys \<and> mset ys = mset xs
    \<and> nondecreasing lt ys \<and> (\<forall>k. equivalents lt k ys = equivalents lt k xs)"
  using assms by (rule list_sort_dlist)

theorem list_sort_correct_witness:
  "\<exists>h'. list_sort list3 (<) heap3 = Some h' \<and> dlist h' list3 [10, 20, 30]"
proof -
  have "strict_weak ((<) :: nat \<Rightarrow> nat \<Rightarrow> bool)" by (auto simp: strict_weak_def)
  from list_sort_correct [OF this heap3_dlist] obtain h' ys where
    r: "list_sort list3 (<) heap3 = Some h'" "dlist h' list3 ys" "mset ys = mset [30, 10, 20]"
      "nondecreasing (<) ys" by blast
  then have "sorted ys" by (simp add: not_less)
  with r(3) have "ys = sort [30, 10, 20]" using properties_for_sort by metis
  with r show ?thesis by (simp add: eval_nat_numeral)
qed

lemma equivalents_greater: "\<forall>b \<in> set B. lt x b \<Longrightarrow> equivalents lt x B = []"
  by (simp add: equivalents_def filter_empty_conv)

lemma nondecreasing_insert:
  assumes "strict_weak lt" and "nondecreasing lt xs"
  shows "nondecreasing lt (takeWhile (\<lambda>e. \<not> lt x e) xs @ x # dropWhile (\<lambda>e. \<not> lt x e) xs)"
  using assms(2)
proof (induction xs)
  case (Cons y ys)
  show ?case
  proof (cases "lt x y")
    case True
    then have "\<not> lt y x" "\<forall>z \<in> set ys. \<not> lt z x"
      using Cons.prems assms(1) unfolding strict_weak_def sorted_wrt.simps by metis+
    with True Cons.prems show ?thesis by simp
  next
    case False
    moreover have "set (takeWhile (\<lambda>e. \<not> lt x e) ys @ x # dropWhile (\<lambda>e. \<not> lt x e) ys) = insert x (set ys)"
      by (metis set_append list.set(2) Un_insert_right takeWhile_dropWhile_id)
    ultimately show ?thesis using Cons by auto
  qed
qed simp

text \<open>C4: Inserting into a list that is in nondecreasing order with \<open>list_insert_ordered\<close>
  keeps it in nondecreasing order and adds exactly the new element; an element equivalent to others goes behind them.\<close>

theorem list_insert_ordered_keeps_order:
  assumes "strict_weak lt" and "dlist h l xs" and "nondecreasing lt xs" and "fresh_elem h l xs x"
  shows "\<exists>h' ys. list_insert_ordered l x lt h = Some h' \<and> dlist h' l ys \<and> nondecreasing lt ys
    \<and> mset ys = add_mset x (mset xs) \<and> equivalents lt x ys = equivalents lt x xs @ [x]"
proof -
  let ?A = "takeWhile (\<lambda>e. \<not> lt x e) xs" and ?B = "dropWhile (\<lambda>e. \<not> lt x e) xs"
  obtain h' where "list_insert_ordered l x lt h = Some h'" "dlist h' l (?A @ x # ?B)"
    using list_insert_ordered_dlist [OF assms(2,4)] by blast
  moreover have "\<forall>b \<in> set ?B. lt x b"
  proof (cases ?B)
    case (Cons b bs)
    then have b: "lt x b" using hd_dropWhile [of "\<lambda>e. \<not> lt x e" xs] by simp
    have "nondecreasing lt (?A @ ?B)" using assms(3) by simp
    then have "\<forall>c \<in> set bs. \<not> lt c b" unfolding Cons sorted_wrt_append by simp
    then have "lt x c" if "c \<in> set bs" for c
      using b that assms(1) unfolding strict_weak_def by blast
    with b Cons show ?thesis by simp
  next
    case Nil
    then show ?thesis unfolding Nil by simp
  qed
  then have "equivalents lt x ?B = []" by (rule equivalents_greater)
  moreover have "\<not> lt x x" using assms(1) by (auto simp: strict_weak_def)
  then have "equivalents lt x (?A @ x # ?B) = equivalents lt x ?A @ x # equivalents lt x ?B"
    by (simp add: equivalents_def)
  moreover have "equivalents lt x xs = equivalents lt x ?A @ equivalents lt x ?B"
    by (simp flip: equivalents_append)
  moreover have "mset (?A @ x # ?B) = add_mset x (mset xs)"
    by (metis mset_append mset.simps(2) takeWhile_dropWhile_id union_mset_add_mset_right)
  ultimately show ?thesis using nondecreasing_insert [OF assms(1,3), of x]
    by (intro exI [of _ h'] exI [of _ "?A @ x # ?B"] conjI) simp_all
qed

theorem list_insert_ordered_keeps_order_witness:
  "\<exists>h' ys. list_insert_ordered list3 40 (\<lambda>a b. a mod 25 < b mod 25) heap3 = Some h'
     \<and> dlist h' list3 ys \<and> mset ys = {#40, 30, 10, 20#} \<and> nondecreasing (\<lambda>a b. a mod 25 < b mod 25) ys"
proof -
  let ?lt = "\<lambda>a b :: nat. a mod 25 < b mod 25"
  have "strict_weak ?lt" "nondecreasing ?lt [30, 10, 20]" by (auto simp: strict_weak_def)
  from list_insert_ordered_keeps_order [OF this(1) heap3_dlist this(2) heap3_fresh(1)]
  show ?thesis by auto
qed

end
