(* ===== verification/Hash_Table.thy ===== *)
theory Hash_Table
  imports Klist_Sort
begin

text \<open>
  The hash table of \<open>lib/kernel/hash.c\<close>. A bucket is the sequence its list holds (\<open>list.c\<close> is
  shown to implement sequences in the theories before this one); an element is its address, of
  some type \<open>'e\<close>. The hash and comparison functions with their auxiliary data are fields of the
  table, as in \<open>struct hash\<close>. Every call of \<open>malloc\<close> is a boolean parameter: whether it returned
  memory.
\<close>

subsection \<open>The table and its operations\<close>

record 'e hash =
  elem_count :: nat
  bucket_count :: nat
  buckets :: "'e list list"
  hash_func :: "'e \<Rightarrow> u32"
  less_func :: "'e \<Rightarrow> 'e \<Rightarrow> bool"

definition find_bucket :: "'e hash \<Rightarrow> 'e \<Rightarrow> nat" where
  "find_bucket h e = unat (hash_func h e) AND sz_sub (bucket_count h) 1"

definition find_elem :: "'e hash \<Rightarrow> 'e list \<Rightarrow> 'e \<Rightarrow> 'e option" where
  "find_elem h bucket e = find (\<lambda>hi. \<not> less_func h hi e \<and> \<not> less_func h e hi) bucket"

definition insert_elem :: "'e hash \<Rightarrow> nat \<Rightarrow> 'e \<Rightarrow> 'e hash option" where
  "insert_elem h bucket e = do {
     b \<leftarrow> array_get (buckets h) bucket;
     bs \<leftarrow> array_set (buckets h) bucket (e # b);
     Some (h\<lparr>elem_count := sz_add (elem_count h) 1, buckets := bs\<rparr>) }"

text \<open>\<open>list_remove\<close> unlinks the element from the one bucket that holds it.\<close>

definition remove_elem :: "'e hash \<Rightarrow> 'e \<Rightarrow> 'e hash" where
  "remove_elem h e =
     h\<lparr>elem_count := sz_sub (elem_count h) 1, buckets := map (remove1 e) (buckets h)\<rparr>"

definition turn_off_least_1bit :: "nat \<Rightarrow> nat" where
  "turn_off_least_1bit x = x AND sz_sub x 1"

definition is_power_of_2 :: "nat \<Rightarrow> bool" where
  "is_power_of_2 x \<longleftrightarrow> x \<noteq> 0 \<and> turn_off_least_1bit x = 0"

definition BEST_ELEMS_PER_BUCKET :: nat where
  "BEST_ELEMS_PER_BUCKET = 2"

partial_function (option) ideal_bucket_loop :: "nat \<Rightarrow> nat option" where
  "ideal_bucket_loop n =
     (if \<not> is_power_of_2 n then ideal_bucket_loop (turn_off_least_1bit n) else Some n)"

primrec move_bucket :: "'e list \<Rightarrow> 'e hash \<Rightarrow> 'e hash option" where
  "move_bucket [] h = Some h"
| "move_bucket (e # es) h = do {
     b \<leftarrow> array_get (buckets h) (find_bucket h e);
     bs \<leftarrow> array_set (buckets h) (find_bucket h e) (e # b);
     move_bucket es (h\<lparr>buckets := bs\<rparr>) }"

primrec move_buckets :: "'e list list \<Rightarrow> 'e hash \<Rightarrow> 'e hash option" where
  "move_buckets [] h = Some h"
| "move_buckets (b # bs) h = do { h' \<leftarrow> move_bucket b h; move_buckets bs h' }"

definition rehash :: "bool \<Rightarrow> 'e hash \<Rightarrow> 'e hash option" where
  "rehash malloc_ok h = do {
     let n = elem_count h div BEST_ELEMS_PER_BUCKET;
     new_bucket_cnt \<leftarrow> ideal_bucket_loop (if n < 4 then 4 else n);
     if new_bucket_cnt = bucket_count h then Some h
     else if \<not> malloc_ok then Some h
     else move_buckets (buckets h)
            (h\<lparr>buckets := replicate new_bucket_cnt [], bucket_count := new_bucket_cnt\<rparr>) }"

text \<open>\<open>destructor\<close> is an action on the rest of the state.\<close>

definition hash_clear :: "('e \<Rightarrow> 's \<Rightarrow> 's) option \<Rightarrow> 'e hash \<Rightarrow> 's \<Rightarrow> 'e hash \<times> 's" where
  "hash_clear destructor h s =
     (h\<lparr>buckets := map (\<lambda>_. []) (buckets h), elem_count := 0\<rparr>,
      case destructor of None \<Rightarrow> s | Some d \<Rightarrow> fold (\<lambda>bucket s. fold d bucket s) (buckets h) s)"

definition hash_init :: "bool \<Rightarrow> ('e \<Rightarrow> u32) \<Rightarrow> ('e \<Rightarrow> 'e \<Rightarrow> bool) \<Rightarrow> 'e hash option" where
  "hash_init malloc_ok hash lt =
     (let h = \<lparr>elem_count = 0, bucket_count = 4, buckets = replicate 4 [],
               hash_func = hash, less_func = lt\<rparr>
      in if malloc_ok then Some (fst (hash_clear None h ())) else None)"

definition hash_insert :: "bool \<Rightarrow> 'e hash \<Rightarrow> 'e \<Rightarrow> ('e option \<times> 'e hash) option" where
  "hash_insert malloc_ok h new = do {
     let bucket = find_bucket h new;
     b \<leftarrow> array_get (buckets h) bucket;
     let old = find_elem h b new;
     h \<leftarrow> (if old = None then insert_elem h bucket new else Some h);
     h \<leftarrow> rehash malloc_ok h;
     Some (old, h) }"

definition hash_replace :: "bool \<Rightarrow> 'e hash \<Rightarrow> 'e \<Rightarrow> ('e option \<times> 'e hash) option" where
  "hash_replace malloc_ok h new = do {
     let bucket = find_bucket h new;
     b \<leftarrow> array_get (buckets h) bucket;
     let old = find_elem h b new;
     let h = (case old of None \<Rightarrow> h | Some x \<Rightarrow> remove_elem h x);
     h \<leftarrow> insert_elem h bucket new;
     h \<leftarrow> rehash malloc_ok h;
     Some (old, h) }"

definition hash_find :: "'e hash \<Rightarrow> 'e \<Rightarrow> 'e option option" where
  "hash_find h e = do {
     b \<leftarrow> array_get (buckets h) (find_bucket h e);
     Some (find_elem h b e) }"

definition hash_delete :: "bool \<Rightarrow> 'e hash \<Rightarrow> 'e \<Rightarrow> ('e option \<times> 'e hash) option" where
  "hash_delete malloc_ok h e = do {
     b \<leftarrow> array_get (buckets h) (find_bucket h e);
     let found = find_elem h b e;
     h \<leftarrow> (case found of None \<Rightarrow> Some h | Some x \<Rightarrow> rehash malloc_ok (remove_elem h x));
     Some (found, h) }"

definition hash_apply :: "('e \<Rightarrow> 's \<Rightarrow> 's) \<Rightarrow> 'e hash \<Rightarrow> 's \<Rightarrow> 's" where
  "hash_apply action h s = fold (\<lambda>bucket s. fold action bucket s) (buckets h) s"

definition hash_size :: "'e hash \<Rightarrow> nat" where
  "hash_size h = elem_count h"

definition hash_empty :: "'e hash \<Rightarrow> bool" where
  "hash_empty h \<longleftrightarrow> elem_count h = 0"

subsection \<open>Iteration\<close>

text \<open>The cursor of \<open>struct hash_iterator\<close>: the bucket and the position in it, 0 for the head of its
  list; at the end of the table the element is null.\<close>

record hash_iterator =
  it_bucket :: nat
  it_pos :: nat
  it_null :: bool

definition hash_first :: hash_iterator where
  "hash_first = \<lparr>it_bucket = 0, it_pos = 0, it_null = False\<rparr>"

partial_function (option) hash_next_loop ::
  "'e hash \<Rightarrow> hash_iterator \<Rightarrow> ('e option \<times> hash_iterator) option" where
  "hash_next_loop h i = do {
     b \<leftarrow> array_get (buckets h) (it_bucket i);
     if it_pos i = Suc (length b) then
       (if Suc (it_bucket i) \<ge> bucket_count h
        then Some (None, i\<lparr>it_bucket := Suc (it_bucket i), it_null := True\<rparr>)
        else hash_next_loop h (i\<lparr>it_bucket := Suc (it_bucket i), it_pos := 1\<rparr>))
     else do { e \<leftarrow> array_get b (it_pos i - 1); Some (Some e, i) } }"

definition hash_next :: "'e hash \<Rightarrow> hash_iterator \<Rightarrow> ('e option \<times> hash_iterator) option" where
  "hash_next h i = do {
     guard (\<not> it_null i);
     hash_next_loop h (i\<lparr>it_pos := Suc (it_pos i)\<rparr>) }"

definition hash_cur :: "'e hash \<Rightarrow> hash_iterator \<Rightarrow> 'e option option" where
  "hash_cur h i =
     (if it_null i then Some None
      else do {
        b \<leftarrow> array_get (buckets h) (it_bucket i);
        guard (it_pos i \<noteq> 0);
        map_option Some (array_get b (it_pos i - 1)) })"

subsection \<open>Hash functions\<close>

definition FNV_32_PRIME :: u32 where
  "FNV_32_PRIME = 16777619"

definition FNV_32_BASIS :: u32 where
  "FNV_32_BASIS = 2166136261"

definition hash_bytes :: "u8 list \<Rightarrow> nat \<Rightarrow> u32 option" where
  "hash_bytes buf sz =
     for_upto 0 sz (\<lambda>i hash. do { c \<leftarrow> array_get buf i; Some ((hash * FNV_32_PRIME) XOR ucast c) })
       FNV_32_BASIS"

partial_function (option) hash_string_loop :: "u8 list \<Rightarrow> nat \<Rightarrow> u32 \<Rightarrow> u32 option" where
  "hash_string_loop s i hash = do {
     c \<leftarrow> array_get s i;
     if c \<noteq> 0 then hash_string_loop s (Suc i) ((hash * FNV_32_PRIME) XOR ucast c)
     else Some hash }"

definition hash_string :: "u8 list \<Rightarrow> u32 option" where
  "hash_string s = hash_string_loop s 0 FNV_32_BASIS"

definition hash_int :: "u32 \<Rightarrow> u32 option" where
  "hash_int i = hash_bytes [ucast i, ucast (drop_bit 8 i), ucast (drop_bit 16 i), ucast (drop_bit 24 i)] 4"

subsection \<open>Powers of two\<close>

lemma and_pred_even:
  "(2 * n :: nat) AND (2 * n - 1) = 2 * (n AND (n - 1))"
proof (cases n)
  case (Suc m)
  have "(2 * Suc m) AND Suc (2 * m) = 2 * (Suc m AND m)"
    by (subst and_nat_rec) simp
  with Suc show ?thesis by simp
qed simp

lemma and_pred_odd: "Suc (2 * n) AND (2 * n) = 2 * n"
  by (subst and_nat_rec) simp

lemma and_pred_0_imp_power: "0 < n \<Longrightarrow> n AND (n - 1) = 0 \<Longrightarrow> \<exists>k. n = (2::nat) ^ k"
proof (induction n rule: less_induct)
  case (less n)
  show ?case
  proof (cases "even n")
    case True
    then obtain m where m: "n = 2 * m" by blast
    then have "m AND (m - 1) = 0" using less.prems and_pred_even [of m] by simp
    then obtain k where "m = 2 ^ k" using less.IH [of m] less.prems m by auto
    with m show ?thesis by (intro exI [of _ "Suc k"]) simp
  next
    case False
    then obtain m where m: "n = Suc (2 * m)" by (auto elim: oddE)
    then have "m = 0" using less.prems and_pred_odd [of m] by simp
    with m show ?thesis by (intro exI [of _ 0]) simp
  qed
qed

lemma power_and_pred: "(2::nat) ^ k AND (2 ^ k - 1) = 0"
proof (induction k)
  case (Suc k)
  then show ?case using and_pred_even [of "2 ^ k"] by simp
qed simp

lemma and_pred_less: "0 < n \<Longrightarrow> n AND (n - 1) < (n :: nat)"
proof (induction n rule: less_induct)
  case (less n)
  show ?case
  proof (cases "even n")
    case True
    then obtain m where m: "n = 2 * m" by blast
    with less.prems less.IH [of m] show ?thesis using and_pred_even [of m] by simp
  next
    case False
    then obtain m where "n = Suc (2 * m)" by (auto elim: oddE)
    then show ?thesis using and_pred_odd [of m] by simp
  qed
qed

lemma and_pred_ge_power:
  "0 < n \<Longrightarrow> n AND (n - 1) \<noteq> 0 \<Longrightarrow> 2 ^ j \<le> n \<Longrightarrow> 2 ^ j \<le> n AND (n - (1::nat))"
proof (induction n arbitrary: j rule: less_induct)
  case (less n)
  show ?case
  proof (cases j)
    case 0
    with less.prems show ?thesis by simp
  next
    case (Suc i)
    show ?thesis
    proof (cases "even n")
      case True
      then obtain m where m: "n = 2 * m" by blast
      then have "2 ^ i \<le> m AND (m - 1)"
        using less.IH [of m i] less.prems and_pred_even [of m] Suc by auto
      with m Suc show ?thesis using and_pred_even [of m] by simp
    next
      case False
      then obtain m where m: "n = Suc (2 * m)" by (auto elim: oddE)
      with less.prems(3) Suc have "2 * 2 ^ i \<le> 2 * m" by simp
      with m Suc show ?thesis using and_pred_odd [of m] by simp
    qed
  qed
qed

lemma turn_off_least_1bit_eq: "0 < n \<Longrightarrow> n < 2 ^ 32 \<Longrightarrow> turn_off_least_1bit n = n AND (n - 1)"
  by (simp add: turn_off_least_1bit_def sz_sub_id)

lemma is_power_of_2_iff: "n < 2 ^ 32 \<Longrightarrow> is_power_of_2 n \<longleftrightarrow> (\<exists>k. n = 2 ^ k)"
proof (cases "n = 0")
  case False
  assume "n < 2 ^ 32"
  with False show ?thesis
    using and_pred_0_imp_power [of n] power_and_pred
    by (auto simp: is_power_of_2_def turn_off_least_1bit_eq)
qed (simp add: is_power_of_2_def)

text \<open>The loop ends at the largest power of two that is not above its argument.\<close>

lemma ideal_bucket_loop_eq:
  "0 < n \<Longrightarrow> n < 2 ^ 32 \<Longrightarrow> \<exists>k. ideal_bucket_loop n = Some (2 ^ k) \<and> 2 ^ k \<le> n \<and> n < 2 * 2 ^ k"
proof (induction n rule: less_induct)
  case (less n)
  show ?case
  proof (cases "is_power_of_2 n")
    case True
    with less.prems obtain k where "n = 2 ^ k" using is_power_of_2_iff by blast
    with True show ?thesis by (subst ideal_bucket_loop.simps) auto
  next
    case False
    let ?m = "n AND (n - 1)"
    have t: "turn_off_least_1bit n = ?m" using less.prems by (simp add: turn_off_least_1bit_eq)
    then have nz: "?m \<noteq> 0" using False less.prems by (simp add: is_power_of_2_def)
    then have b: "?m < n" using and_pred_less less.prems by auto
    then obtain k where k: "ideal_bucket_loop ?m = Some (2 ^ k)" "2 ^ k \<le> ?m" "?m < 2 * 2 ^ k"
      using less.IH [of ?m] less.prems nz by auto
    have "n < 2 * 2 ^ k"
    proof (rule ccontr)
      assume "\<not> n < 2 * 2 ^ k"
      then have "2 ^ Suc k \<le> n" by simp
      then show False using k and_pred_ge_power [of n "Suc k"] b less.prems nz by auto
    qed
    with False t k b show ?thesis by (subst ideal_bucket_loop.simps) auto
  qed
qed

subsection \<open>What the table represents\<close>

definition eqv :: "'e hash \<Rightarrow> 'e \<Rightarrow> 'e \<Rightarrow> bool" where
  "eqv h a b \<longleftrightarrow> \<not> less_func h a b \<and> \<not> less_func h b a"

text \<open>The functions given to \<open>hash_init\<close> are meant to be a strict weak order and a hash that
  agrees on equivalent elements.\<close>

definition good_funcs :: "'e hash \<Rightarrow> bool" where
  "good_funcs h \<longleftrightarrow> strict_weak (less_func h) \<and> (\<forall>a b. eqv h a b \<longrightarrow> hash_func h a = hash_func h b)"

definition elems :: "'e hash \<Rightarrow> 'e multiset" where
  "elems h = mset (concat (buckets h))"

definition well_placed :: "'e hash \<Rightarrow> bool" where
  "well_placed h \<longleftrightarrow> (\<exists>k. bucket_count h = 2 ^ k) \<and> bucket_count h < 2 ^ 32 \<and>
     length (buckets h) = bucket_count h \<and>
     (\<forall>i < length (buckets h). \<forall>e \<in> set (buckets h ! i). find_bucket h e = i)"

definition hash_wf :: "'e hash \<Rightarrow> bool" where
  "hash_wf h \<longleftrightarrow> good_funcs h \<and> well_placed h \<and> elem_count h = size (elems h) \<and> size (elems h) < 2 ^ 32 \<and>
     (\<forall>a. count (elems h) a \<le> 1) \<and>
     (\<forall>a \<in># elems h. \<forall>b \<in># elems h. eqv h a b \<longrightarrow> a = b)"

lemma find_bucket_mod:
  assumes "bucket_count h = 2 ^ k" and "bucket_count h < 2 ^ 32"
  shows "find_bucket h e = unat (hash_func h e) mod bucket_count h"
proof -
  have "sz_sub (bucket_count h) 1 = mask k"
    using assms by (simp add: sz_sub_id mask_eq_exp_minus_1)
  then show ?thesis using assms(1) by (simp add: find_bucket_def take_bit_eq_mod flip: take_bit_eq_mask)
qed

lemma find_bucket_less: "well_placed h \<Longrightarrow> find_bucket h e < length (buckets h)"
  unfolding well_placed_def by (metis find_bucket_mod mod_less_divisor zero_less_power zero_less_numeral)

lemma find_bucket_cong:
  "bucket_count h' = bucket_count h \<Longrightarrow> hash_func h' = hash_func h \<Longrightarrow> find_bucket h' e = find_bucket h e"
  by (simp add: find_bucket_def)

lemma well_placed_cong:
  "bucket_count h' = bucket_count h \<Longrightarrow> hash_func h' = hash_func h \<Longrightarrow> buckets h' = buckets h \<Longrightarrow>
   well_placed h' = well_placed h"
  by (simp add: well_placed_def find_bucket_cong [of h' h])

lemma mset_concat_update:
  "i < length bs \<Longrightarrow> mset (concat (bs[i := b])) + mset (bs ! i) = mset (concat bs) + mset b"
proof (induction bs arbitrary: i)
  case (Cons c bs)
  then show ?case by (cases i) (auto simp: ac_simps)
qed simp

lemma in_elems: "e \<in># elems h \<longleftrightarrow> (\<exists>i < length (buckets h). e \<in> set (buckets h ! i))"
proof -
  have "e \<in># elems h \<longleftrightarrow> (\<exists>b \<in> set (buckets h). e \<in> set b)" by (simp add: elems_def)
  then show ?thesis by (metis in_set_conv_nth)
qed

lemma elem_in_bucket:
  "well_placed h \<Longrightarrow> e \<in># elems h \<Longrightarrow> e \<in> set (buckets h ! find_bucket h e)"
  by (auto simp: in_elems well_placed_def)

lemma bucket_in_elems: "well_placed h \<Longrightarrow> x \<in> set (buckets h ! find_bucket h e) \<Longrightarrow> x \<in># elems h"
  using find_bucket_less [of h e] by (auto simp: in_elems)

text \<open>One push into the bucket of an element.\<close>

lemma push_elem:
  fixes e :: 'e
  assumes "well_placed h"
  defines "h' \<equiv> h\<lparr>buckets := (buckets h)[find_bucket h e := e # buckets h ! find_bucket h e]\<rparr>"
  shows "well_placed h'" "elems h' = add_mset e (elems h)"
proof -
  have fb: "find_bucket h' x = find_bucket h x" for x unfolding h'_def by (rule find_bucket_cong) simp_all
  show "well_placed h'"
    unfolding well_placed_def
  proof (intro conjI allI impI ballI)
    fix i x assume "i < length (buckets h')" and x: "x \<in> set (buckets h' ! i)"
    then have "x \<in> set (buckets h ! i) \<or> x = e \<and> i = find_bucket h e" and "i < length (buckets h)"
      by (cases "i = find_bucket h e"; auto simp: h'_def)+
    then show "find_bucket h' x = i" using assms(1) fb by (auto simp: well_placed_def)
  qed (use assms(1) in \<open>simp_all add: well_placed_def h'_def\<close>)
  show "elems h' = add_mset e (elems h)"
    using mset_concat_update [OF find_bucket_less [OF assms(1)], of e "e # buckets h ! find_bucket h e"]
    by (simp add: elems_def h'_def)
qed

lemma move_bucket_ok:
  "well_placed h \<Longrightarrow> \<exists>bs. move_bucket es h = Some (h\<lparr>buckets := bs\<rparr>)
     \<and> well_placed (h\<lparr>buckets := bs\<rparr>) \<and> elems (h\<lparr>buckets := bs\<rparr>) = mset es + elems h"
proof (induction es arbitrary: h)
  case Nil
  then show ?case by (intro exI [of _ "buckets h"]) simp
next
  case (Cons e es)
  let ?b = "(buckets h)[find_bucket h e := e # buckets h ! find_bucket h e]"
  from Cons.IH [OF push_elem(1) [OF Cons.prems, of e]] obtain bs where
    "move_bucket es (h\<lparr>buckets := ?b\<rparr>) = Some (h\<lparr>buckets := bs\<rparr>)" "well_placed (h\<lparr>buckets := bs\<rparr>)"
    "elems (h\<lparr>buckets := bs\<rparr>) = mset es + elems (h\<lparr>buckets := ?b\<rparr>)" by auto
  with push_elem(2) [OF Cons.prems, of e] find_bucket_less [OF Cons.prems, of e] show ?case
    by (intro exI [of _ bs]) simp
qed

lemma move_buckets_ok:
  "well_placed h \<Longrightarrow> \<exists>bs. move_buckets ess h = Some (h\<lparr>buckets := bs\<rparr>)
     \<and> well_placed (h\<lparr>buckets := bs\<rparr>) \<and> elems (h\<lparr>buckets := bs\<rparr>) = mset (concat ess) + elems h"
proof (induction ess arbitrary: h)
  case Nil
  then show ?case by (intro exI [of _ "buckets h"]) simp
next
  case (Cons es ess)
  obtain bs where bs: "move_bucket es h = Some (h\<lparr>buckets := bs\<rparr>)" "well_placed (h\<lparr>buckets := bs\<rparr>)"
      "elems (h\<lparr>buckets := bs\<rparr>) = mset es + elems h"
    using move_bucket_ok [OF Cons.prems, of es] by blast
  from Cons.IH [OF bs(2)] bs show ?case by (auto simp: ac_simps)
qed

text \<open>\<open>rehash\<close> may change the buckets, never what the table holds; and it always returns.\<close>

lemma rehash_ok:
  assumes "well_placed h" and "elem_count h < 2 ^ 32"
  shows "\<exists>bs n. rehash mok h = Some (h\<lparr>bucket_count := n, buckets := bs\<rparr>)
    \<and> well_placed (h\<lparr>bucket_count := n, buckets := bs\<rparr>) \<and> elems (h\<lparr>bucket_count := n, buckets := bs\<rparr>) = elems h"
proof -
  let ?n = "elem_count h div BEST_ELEMS_PER_BUCKET"
  let ?m = "if ?n < 4 then 4 else ?n"
  have "0 < ?m" "?m < 2 ^ 32" using assms(2) by (auto simp: BEST_ELEMS_PER_BUCKET_def)
  then obtain k where k: "ideal_bucket_loop ?m = Some (2 ^ k)" "(2::nat) ^ k < 2 ^ 32"
    using ideal_bucket_loop_eq [of ?m] by (auto simp del: power_strict_increasing_iff)
  let ?h = "h\<lparr>buckets := replicate (2 ^ k) [], bucket_count := 2 ^ k\<rparr>"
  have "well_placed ?h" using k(2) by (auto simp: well_placed_def)
  from move_buckets_ok [OF this, of "buckets h"] obtain bs where
    bs: "move_buckets (buckets h) ?h = Some (?h\<lparr>buckets := bs\<rparr>)" "well_placed (?h\<lparr>buckets := bs\<rparr>)"
      "elems (?h\<lparr>buckets := bs\<rparr>) = elems h" by (auto simp: elems_def)
  show ?thesis
  proof (cases "2 ^ k = bucket_count h \<or> \<not> mok")
    case True
    with k(1) have "rehash mok h = Some h" by (auto simp: rehash_def Let_def)
    with assms(1) show ?thesis by (intro exI [of _ "buckets h"] exI [of _ "bucket_count h"]) simp
  next
    case False
    with k(1) bs show ?thesis by (intro exI [of _ bs] exI [of _ "2 ^ k"]) (simp add: rehash_def Let_def)
  qed
qed

subsection \<open>Operations on a well-formed table\<close>

lemma eqv_trans: "good_funcs h \<Longrightarrow> eqv h a b \<Longrightarrow> eqv h b c \<Longrightarrow> eqv h a c"
  unfolding good_funcs_def strict_weak_def eqv_def by metis

lemma eqv_sym: "eqv h a b \<Longrightarrow> eqv h b a"
  by (simp add: eqv_def)

lemma eqv_refl: "good_funcs h \<Longrightarrow> eqv h a a"
  unfolding good_funcs_def strict_weak_def eqv_def by metis

lemma find_bucket_eqv: "good_funcs h \<Longrightarrow> eqv h a b \<Longrightarrow> find_bucket h a = find_bucket h b"
  by (simp add: good_funcs_def find_bucket_def)

lemma find_elem_eq:
  assumes "hash_wf h"
  shows "find_elem h (buckets h ! find_bucket h e) e = Some x \<longleftrightarrow> x \<in># elems h \<and> eqv h x e"
proof -
  have wp: "well_placed h" and g: "good_funcs h" using assms by (auto simp: hash_wf_def)
  let ?f = "find_elem h (buckets h ! find_bucket h e) e"
  have f: "y \<in># elems h \<and> eqv h y e" if "?f = Some y" for y
    using that bucket_in_elems [OF wp, of _ e]
    by (auto simp: find_elem_def find_Some_iff eqv_def)
  show ?thesis
  proof
    assume x: "x \<in># elems h \<and> eqv h x e"
    then have "x \<in> set (buckets h ! find_bucket h e)"
      using elem_in_bucket [OF wp, of x] find_bucket_eqv [OF g, of x e] by simp
    then have "?f \<noteq> None" using x by (auto simp: find_elem_def find_None_iff eqv_def)
    then obtain y where y: "?f = Some y" by blast
    then have "eqv h y x" using f x eqv_trans [OF g] eqv_sym by metis
    then have "y = x" using f [OF y] x assms by (auto simp: hash_wf_def)
    with y show "?f = Some x" by simp
  qed (rule f)
qed

lemma find_elem_None:
  "hash_wf h \<Longrightarrow> find_elem h (buckets h ! find_bucket h e) e = None \<longleftrightarrow> (\<forall>x \<in># elems h. \<not> eqv h x e)"
  using find_elem_eq [of h e] by (metis not_Some_eq)

lemma hash_find_eq:
  "hash_wf h \<Longrightarrow> hash_find h e = Some (find_elem h (buckets h ! find_bucket h e) e)"
  using find_bucket_less [of h e] by (simp add: hash_find_def hash_wf_def)

lemma rehash_wf:
  assumes "hash_wf h"
  shows "\<exists>h'. rehash mok h = Some h' \<and> hash_wf h' \<and> elems h' = elems h
    \<and> hash_func h' = hash_func h \<and> less_func h' = less_func h"
proof -
  have "well_placed h" "elem_count h < 2 ^ 32" using assms by (auto simp: hash_wf_def)
  from rehash_ok [OF this, of mok] obtain bs n where r:
    "rehash mok h = Some (h\<lparr>bucket_count := n, buckets := bs\<rparr>)"
    "well_placed (h\<lparr>bucket_count := n, buckets := bs\<rparr>)"
    "elems (h\<lparr>bucket_count := n, buckets := bs\<rparr>) = elems h" by blast
  let ?h = "h\<lparr>bucket_count := n, buckets := bs\<rparr>"
  have "eqv ?h = eqv h" by (intro ext) (simp add: eqv_def)
  then have "hash_wf ?h" using assms r(2,3) by (simp add: hash_wf_def good_funcs_def)
  with r show ?thesis by auto
qed

lemma insert_elem_wf:
  assumes wf: "hash_wf h" and new: "\<forall>x \<in># elems h. \<not> eqv h x e" and sz: "elem_count h < 2 ^ 32 - 1"
  shows "\<exists>h'. insert_elem h (find_bucket h e) e = Some h' \<and> hash_wf h' \<and> elems h' = add_mset e (elems h)
    \<and> hash_func h' = hash_func h \<and> less_func h' = less_func h"
proof -
  have wp: "well_placed h" and g: "good_funcs h" using wf by (auto simp: hash_wf_def)
  let ?b = "(buckets h)[find_bucket h e := e # buckets h ! find_bucket h e]"
  let ?h = "h\<lparr>elem_count := sz_add (elem_count h) 1, buckets := ?b\<rparr>"
  have "insert_elem h (find_bucket h e) e = Some ?h"
    using find_bucket_less [OF wp] by (simp add: insert_elem_def)
  moreover have el: "elems ?h = add_mset e (elems h)"
    using push_elem(2) [OF wp, of e] by (simp add: elems_def)
  moreover have "well_placed ?h"
    by (rule well_placed_cong [THEN iffD1, OF _ _ _ push_elem(1) [OF wp, of e]]) simp_all
  moreover have e: "eqv ?h = eqv h" by (intro ext) (simp add: eqv_def)
  then have "good_funcs ?h" using g by (simp add: good_funcs_def)
  moreover have "e \<notin># elems h" using new eqv_refl [OF g] by blast
  moreover have "sz_add (elem_count h) 1 = size (elems ?h)" "size (elems ?h) < 2 ^ 32"
    using el sz wf by (simp_all add: sz_add_id hash_wf_def)
  moreover have "\<forall>a \<in># elems ?h. \<forall>b \<in># elems ?h. eqv ?h a b \<longrightarrow> a = b"
    using new wf eqv_sym [of h] unfolding e el hash_wf_def by auto
  ultimately have "hash_wf ?h" using wf
    by (auto simp: hash_wf_def count_eq_zero_iff)
  with \<open>insert_elem h (find_bucket h e) e = Some ?h\<close> el show ?thesis by auto
qed

lemma remove_elem_frame:
  "find_bucket (remove_elem h x) = find_bucket h" "eqv (remove_elem h x) = eqv h"
  "less_func (remove_elem h x) = less_func h"
  by (auto simp: find_bucket_def eqv_def remove_elem_def fun_eq_iff)

lemma remove_elem_wf:
  assumes wf: "hash_wf h" and x: "x \<in># elems h"
  shows "hash_wf (remove_elem h x)" "elems (remove_elem h x) = elems h - {#x#}"
    "elem_count (remove_elem h x) = elem_count h - 1"
proof -
  have wp: "well_placed h" using wf by (simp add: hash_wf_def)
  let ?i = "find_bucket h x" and ?h = "remove_elem h x"
  have i: "?i < length (buckets h)" using find_bucket_less [OF wp] .
  have "remove1 x (buckets h ! j) = buckets h ! j" if "j < length (buckets h)" "j \<noteq> ?i" for j
    using wp that by (intro remove1_idem) (auto simp: well_placed_def)
  then have "map (remove1 x) (buckets h) = (buckets h)[?i := remove1 x (buckets h ! ?i)]"
    using i by (intro list_eq_iff_nth_eq [THEN iffD2]) (auto simp: nth_list_update)
  then have b: "buckets ?h = (buckets h)[?i := remove1 x (buckets h ! ?i)]" by (simp add: remove_elem_def)
  obtain M where M: "mset (buckets h ! ?i) = add_mset x M"
    using elem_in_bucket [OF wp x] by (metis mset_add set_mset_mset)
  then have "elems ?h + add_mset x M = elems h + M"
    using mset_concat_update [OF i, of "remove1 x (buckets h ! ?i)"] by (simp add: elems_def b)
  then have el: "elems ?h = elems h - {#x#}"
    by (metis add_mset_remove_trivial union_mset_add_mset_left union_mset_add_mset_right add_right_cancel)
  then show "elems ?h = elems h - {#x#}" .
  have pos: "0 < size (elems h)" using x by (metis nonempty_has_size empty_iff set_mset_empty)
  have sz: "elem_count ?h = size (elems ?h)"
    using x wf pos by (simp add: el size_Diff_singleton hash_wf_def) (simp add: remove_elem_def sz_sub_id)
  then show "elem_count ?h = elem_count h - 1"
    using x wf by (simp add: el size_Diff_singleton hash_wf_def)
  note fb = remove_elem_frame(1,2) [of h x]
  have "well_placed ?h"
    using wp unfolding well_placed_def fb
    by (auto simp: remove_elem_def dest: set_remove1_subset [THEN subsetD])
  moreover have "good_funcs ?h" using wf fb(2) by (simp add: hash_wf_def good_funcs_def remove_elem_def)
  ultimately show "hash_wf ?h"
    using wf sz x unfolding hash_wf_def fb el
    by (auto simp: size_Diff_singleton dest: in_diffD)
qed

text \<open>How a lookup changes when the contents change by one element.\<close>

lemma hash_find_elems:
  "hash_wf h \<Longrightarrow> hash_find h a = Some r \<longleftrightarrow>
     (case r of None \<Rightarrow> \<forall>x \<in># elems h. \<not> eqv h x a | Some x \<Rightarrow> x \<in># elems h \<and> eqv h x a)"
  by (cases r) (simp_all add: hash_find_eq find_elem_eq find_elem_None)

lemma hash_find_ex: "hash_wf h \<Longrightarrow> \<exists>r. hash_find h a = Some r"
  by (simp add: hash_find_eq)

lemma hash_insert_wf:
  assumes wf: "hash_wf h" and sz: "hash_size h < 2 ^ 32 - 1"
  shows "\<exists>old h'. hash_insert mok h e = Some (old, h') \<and> hash_find h e = Some old \<and> hash_wf h'
    \<and> elems h' = (if old = None then add_mset e (elems h) else elems h) \<and> less_func h' = less_func h"
proof -
  have i: "find_bucket h e < length (buckets h)" using find_bucket_less wf by (auto simp: hash_wf_def)
  let ?old = "find_elem h (buckets h ! find_bucket h e) e"
  show ?thesis
  proof (cases "?old = None")
    case True
    then obtain h1 where h1: "insert_elem h (find_bucket h e) e = Some h1" "hash_wf h1"
        "elems h1 = add_mset e (elems h)" "less_func h1 = less_func h"
      using insert_elem_wf [OF wf, of e] sz find_elem_None [OF wf] by (auto simp: hash_size_def)
    obtain h2 where "rehash mok h1 = Some h2" "hash_wf h2" "elems h2 = elems h1" "less_func h2 = less_func h1"
      using rehash_wf [OF h1(2), of mok] by blast
    with h1 True i show ?thesis by (simp add: hash_insert_def hash_find_eq [OF wf] Let_def)
  next
    case False
    obtain h2 where "rehash mok h = Some h2" "hash_wf h2" "elems h2 = elems h" "less_func h2 = less_func h"
      using rehash_wf [OF wf, of mok] by blast
    with False i show ?thesis by (auto simp: hash_insert_def hash_find_eq [OF wf] Let_def)
  qed
qed

lemma hash_delete_wf:
  assumes wf: "hash_wf h"
  shows "\<exists>found h'. hash_delete mok h e = Some (found, h') \<and> hash_find h e = Some found \<and> hash_wf h'
    \<and> elems h' = (case found of None \<Rightarrow> elems h | Some x \<Rightarrow> elems h - {#x#}) \<and> less_func h' = less_func h"
proof -
  have i: "find_bucket h e < length (buckets h)" using find_bucket_less wf by (auto simp: hash_wf_def)
  show ?thesis
  proof (cases "find_elem h (buckets h ! find_bucket h e) e")
    case None
    with i wf show ?thesis by (simp add: hash_delete_def hash_find_eq [OF wf] Let_def)
  next
    case (Some x)
    then have x: "x \<in># elems h" using find_elem_eq [OF wf] by blast
    obtain h2 where "rehash mok (remove_elem h x) = Some h2" "hash_wf h2"
        "elems h2 = elems (remove_elem h x)" "less_func h2 = less_func (remove_elem h x)"
      using rehash_wf [OF remove_elem_wf(1) [OF wf x], of mok] by blast
    with Some i show ?thesis
      by (simp add: hash_delete_def hash_find_eq [OF wf] Let_def remove_elem_wf(2) [OF wf x])
        (simp add: remove_elem_def)
  qed
qed

lemma hash_replace_wf:
  assumes wf: "hash_wf h" and sz: "hash_size h < 2 ^ 32 - 1"
  shows "\<exists>old h'. hash_replace mok h e = Some (old, h') \<and> hash_find h e = Some old \<and> hash_wf h'
    \<and> elems h' = add_mset e (case old of None \<Rightarrow> elems h | Some x \<Rightarrow> elems h - {#x#})
    \<and> less_func h' = less_func h"
proof -
  have i: "find_bucket h e < length (buckets h)" using find_bucket_less wf by (auto simp: hash_wf_def)
  have g: "good_funcs h" using wf by (simp add: hash_wf_def)
  let ?old = "find_elem h (buckets h ! find_bucket h e) e"
  let ?h = "case ?old of None \<Rightarrow> h | Some x \<Rightarrow> remove_elem h x"
  have "hash_wf ?h \<and> elems ?h = (case ?old of None \<Rightarrow> elems h | Some x \<Rightarrow> elems h - {#x#})
      \<and> elem_count ?h < 2 ^ 32 - 1"
  proof (cases ?old)
    case None
    with wf sz show ?thesis by (simp add: hash_size_def)
  next
    case (Some x)
    then have "x \<in># elems h" using find_elem_eq [OF wf] by blast
    from remove_elem_wf [OF wf this] sz show ?thesis
      unfolding Some option.case hash_size_def by (intro conjI) simp_all
  qed
  moreover have "find_bucket ?h e = find_bucket h e" "eqv ?h = eqv h" "less_func ?h = less_func h"
    by (cases ?old; simp only: option.case remove_elem_frame)+
  ultimately have h: "hash_wf ?h" "elems ?h = (case ?old of None \<Rightarrow> elems h | Some x \<Rightarrow> elems h - {#x#})"
      "elem_count ?h < 2 ^ 32 - 1" "find_bucket ?h e = find_bucket h e" "eqv ?h = eqv h"
      "less_func ?h = less_func h"
    by blast+
  have "\<forall>x \<in># elems ?h. \<not> eqv ?h x e"
  proof (cases ?old)
    case (Some y)
    then have y: "y \<in># elems h" "eqv h y e" using find_elem_eq [OF wf] by auto
    have "x = y" if "x \<in># elems h" "eqv h x e" for x
      using that y wf eqv_trans [OF g] eqv_sym unfolding hash_wf_def by metis
    moreover have "y \<notin># elems h - {#y#}" using wf by (auto simp: hash_wf_def not_in_iff le_Suc_eq)
    ultimately show ?thesis using Some h(2,5) by (auto dest: in_diffD)
  next
    case None
    then show ?thesis using find_elem_None [OF wf, of e] by (simp only: option.case) simp
  qed
  then obtain h1 where h1: "insert_elem ?h (find_bucket h e) e = Some h1" "hash_wf h1"
      "elems h1 = add_mset e (elems ?h)" "less_func h1 = less_func ?h"
    using insert_elem_wf [OF h(1), of e] h(3,4) by auto
  obtain h2 where "rehash mok h1 = Some h2" "hash_wf h2" "elems h2 = elems h1" "less_func h2 = less_func h1"
    using rehash_wf [OF h1(2), of mok] by blast
  with h1 h i show ?thesis by (simp add: hash_replace_def hash_find_eq [OF wf] Let_def)
qed

text \<open>C7: Inserting into a hash table. For a strict weak order and a hash that agrees on equivalent
  elements, \<open>hash_insert\<close> returns the equivalent element already there, if any, and otherwise adds the new one; in
  both cases the table stays well formed whether or not the allocation for the new buckets of
  \<open>rehash\<close> succeeds, and every later lookup answers as before, except that lookups equivalent to an
  element that was added now find it.\<close>

theorem hash_insert_correct:
  assumes "hash_wf h" and "hash_size h < 2 ^ 32 - 1"
  shows "\<exists>old h'. hash_insert malloc_ok h e = Some (old, h') \<and> hash_find h e = Some old \<and> hash_wf h'
    \<and> hash_size h' = (if old = None then Suc (hash_size h) else hash_size h)
    \<and> (\<forall>a. hash_find h' a = (if old = None \<and> eqv h e a then Some (Some e) else hash_find h a))"
proof -
  obtain old h' where r: "hash_insert malloc_ok h e = Some (old, h')" "hash_find h e = Some old" "hash_wf h'"
      "elems h' = (if old = None then add_mset e (elems h) else elems h)" "less_func h' = less_func h"
    using hash_insert_wf [OF assms] by blast
  then have e: "eqv h' = eqv h" by (simp add: eqv_def fun_eq_iff)
  have "hash_find h' a = (if old = None \<and> eqv h e a then Some (Some e) else hash_find h a)" for a
  proof (cases "old = None \<and> eqv h e a")
    case True
    then show ?thesis using r(4) by (simp add: hash_find_elems [OF r(3)] e)
  next
    case False
    obtain x where x: "hash_find h a = Some x" using hash_find_ex [OF assms(1)] by blast
    then have "hash_find h' a = Some x"
      using False r(4) by (auto simp: hash_find_elems [OF r(3)] hash_find_elems [OF assms(1)] e split: option.splits)
    with x False show ?thesis by auto
  qed
  moreover have "hash_size h' = (if old = None then Suc (hash_size h) else hash_size h)"
    using r(3,4) assms(1) by (simp add: hash_size_def hash_wf_def)
  ultimately show ?thesis using r by blast
qed

text \<open>C8: Deleting from a hash table returns the equivalent element, if any, takes exactly it out,
  keeps the table well formed, and lookups that are not equivalent to the deleted element answer
  as before.\<close>

theorem hash_delete_correct:
  assumes "hash_wf h"
  shows "\<exists>found h'. hash_delete malloc_ok h e = Some (found, h') \<and> hash_find h e = Some found \<and> hash_wf h'
    \<and> hash_size h' = (if found = None then hash_size h else hash_size h - 1)
    \<and> (\<forall>a. hash_find h' a = (if eqv h e a then Some None else hash_find h a))"
proof -
  obtain found h' where r: "hash_delete malloc_ok h e = Some (found, h')" "hash_find h e = Some found" "hash_wf h'"
      "elems h' = (case found of None \<Rightarrow> elems h | Some x \<Rightarrow> elems h - {#x#})" "less_func h' = less_func h"
    using hash_delete_wf [OF assms] by blast
  then have e: "eqv h' = eqv h" by (simp add: eqv_def fun_eq_iff)
  have g: "good_funcs h" using assms by (simp add: hash_wf_def)
  have f: "x \<in># elems h' \<longleftrightarrow> x \<in># elems h \<and> \<not> eqv h x e" for x
  proof (cases found)
    case None
    then have "\<forall>x \<in># elems h. \<not> eqv h x e" using r(2) hash_find_elems [OF assms] by simp
    with None r(4) show ?thesis by auto
  next
    case (Some y)
    then have y: "y \<in># elems h" "eqv h y e" using r(2) hash_find_elems [OF assms] by auto
    have "z = y" if "z \<in># elems h" "eqv h z e" for z
      using that y assms eqv_trans [OF g] eqv_sym unfolding hash_wf_def by metis
    moreover have "y \<notin># elems h - {#y#}" using assms by (auto simp: hash_wf_def not_in_iff le_Suc_eq)
    ultimately show ?thesis using Some y r(4) by (metis in_diffD insert_DiffM insert_noteq_member option.simps(5))
  qed
  have "hash_find h' a = (if eqv h e a then Some None else hash_find h a)" for a
  proof (cases "eqv h e a")
    case True
    then have "\<forall>x \<in># elems h'. \<not> eqv h x a" using f eqv_trans [OF g] eqv_sym by metis
    with True show ?thesis by (simp add: hash_find_elems [OF r(3)] e)
  next
    case False
    obtain x where x: "hash_find h a = Some x" using hash_find_ex [OF assms] by blast
    have "\<not> eqv h y e" if "eqv h y a" for y using that False eqv_trans [OF g] eqv_sym by metis
    with x have "hash_find h' a = Some x"
      by (auto simp: hash_find_elems [OF r(3)] hash_find_elems [OF assms] e f split: option.splits)
    with x False show ?thesis by simp
  qed
  moreover have "hash_size h' = (if found = None then hash_size h else hash_size h - 1)"
    using r(2-4) assms by (auto simp: hash_size_def hash_wf_def hash_find_elems [OF assms] size_Diff_singleton
        split: option.splits)
  ultimately show ?thesis using r by blast
qed

text \<open>A concrete table: numbers, hashed by their value modulo 10, equal when these are.\<close>

definition table3 :: "nat hash" where
  "table3 = \<lparr>elem_count = 3, bucket_count = 4, buckets = [[14, 18], [], [], [7]],
     hash_func = \<lambda>x. of_nat (x mod 10), less_func = \<lambda>a b. a mod 10 < b mod 10\<rparr>"

lemma table3_wf: "hash_wf table3"
proof -
  have "good_funcs table3" by (auto simp: good_funcs_def strict_weak_def eqv_def table3_def not_less)
  moreover have "well_placed table3"
  proof -
    have t: "bucket_count table3 = 4" "buckets table3 = [[14, 18], [], [], [7]]"
      by (simp_all add: table3_def)
    have fb: "find_bucket table3 14 = 0" "find_bucket table3 18 = 0" "find_bucket table3 7 = 3"
      by (simp_all add: table3_def find_bucket_def sz_sub_def)
    have "find_bucket table3 e = i" if "i < 4" "e \<in> set (buckets table3 ! i)" for i e
    proof -
      have "i = 0 \<or> i = 1 \<or> i = 2 \<or> i = 3" using that(1) by auto
      then show ?thesis using that(2) fb t(2) by auto
    qed
    moreover have "bucket_count table3 = 2 ^ 2" "length (buckets table3) = 4" using t by simp_all
    ultimately show ?thesis unfolding well_placed_def by (intro conjI exI [of _ 2]) (simp_all add: t(1))
  qed
  ultimately show ?thesis by (simp add: hash_wf_def eqv_def) (simp add: elems_def table3_def)
qed

theorem hash_insert_correct_witness:
  "\<exists>h'. hash_insert True table3 5 = Some (None, h') \<and> hash_wf h' \<and> hash_find h' 25 = Some (Some 5)
     \<and> hash_find h' 28 = Some (Some 18)"
proof -
  have sz: "hash_size table3 < 2 ^ 32 - 1" by (simp add: hash_size_def table3_def)
  have f: "hash_find table3 5 = Some None" "hash_find table3 28 = Some (Some 18)"
    by (simp_all add: hash_find_def find_bucket_def find_elem_def table3_def sz_sub_def)
  have "eqv table3 5 25" "\<not> eqv table3 5 28" by (simp_all add: eqv_def table3_def)
  with f hash_insert_correct [OF table3_wf sz, of True 5] show ?thesis by fastforce
qed

theorem hash_delete_correct_witness:
  "\<exists>h'. hash_delete True table3 28 = Some (Some 18, h') \<and> hash_wf h' \<and> hash_find h' 8 = Some None
     \<and> hash_size h' = 2"
proof -
  have f: "hash_find table3 28 = Some (Some 18)" "hash_size table3 = 3"
    by (simp_all add: hash_find_def find_bucket_def find_elem_def table3_def sz_sub_def hash_size_def)
  have "eqv table3 28 8" by (simp_all add: eqv_def table3_def)
  with f hash_delete_correct [OF table3_wf, of True 28] show ?thesis by fastforce
qed

end
