(* ===== verification/Block.thy ===== *)
theory Block
  imports Bytes
begin

text \<open>
  Block devices: \<open>devices/block.c\<close>. A device is a number, its place in the list \<open>all_blocks\<close> in
  probe order; \<open>blocks\<close> holds their descriptors. The driver operations are those of a disk
  (\<open>devices/ide.c\<close>, whose sectors are \<open>platter\<close>) or of a partition of another device
  (\<open>partition_read\<close> and \<open>partition_write\<close> of \<open>devices/partition.c\<close>). Memory for a descriptor
  that cannot be allocated is a kernel panic, so an allocation that returns succeeds.
\<close>

definition BLOCK_SECTOR_SIZE :: nat where
  "BLOCK_SECTOR_SIZE = 512"

type_synonym block_sector = u32

datatype block_type =
  BLOCK_KERNEL | BLOCK_FILESYS | BLOCK_SCRATCH | BLOCK_SWAP | BLOCK_RAW | BLOCK_FOREIGN

datatype block_ops = Ide | Partition (under: nat) (start: block_sector)

record block =
  bname :: string
  btype :: block_type
  bsize :: block_sector
  bops :: block_ops
  read_cnt :: u64
  write_cnt :: u64

record block_sys =
  blocks :: "block list"
  block_by_role :: "block_type \<Rightarrow> nat option"
  platter :: "nat \<Rightarrow> block_sector \<Rightarrow> bytes"

definition block_type_name :: "block_type \<Rightarrow> string" where
  "block_type_name t = (case t of
      BLOCK_KERNEL \<Rightarrow> ''kernel'' | BLOCK_FILESYS \<Rightarrow> ''filesys'' | BLOCK_SCRATCH \<Rightarrow> ''scratch''
    | BLOCK_SWAP \<Rightarrow> ''swap'' | BLOCK_RAW \<Rightarrow> ''raw'' | BLOCK_FOREIGN \<Rightarrow> ''foreign'')"

text \<open>The types up to \<open>BLOCK_ROLE_CNT\<close> are the roles.\<close>

definition is_role :: "block_type \<Rightarrow> bool" where
  "is_role t \<longleftrightarrow> t \<noteq> BLOCK_RAW \<and> t \<noteq> BLOCK_FOREIGN"

definition block_get_role :: "block_sys \<Rightarrow> block_type \<Rightarrow> nat option option" where
  "block_get_role sys role = do { guard (is_role role); Some (block_by_role sys role) }"

definition block_set_role :: "block_sys \<Rightarrow> block_type \<Rightarrow> nat option \<Rightarrow> block_sys option" where
  "block_set_role sys role b = do {
     guard (is_role role);
     Some (sys\<lparr>block_by_role := (block_by_role sys)(role := b)\<rparr>) }"

definition list_elem_to_block :: "block_sys \<Rightarrow> nat \<Rightarrow> nat option" where
  "list_elem_to_block sys i = (if i < length (blocks sys) then Some i else None)"

definition block_first :: "block_sys \<Rightarrow> nat option" where
  "block_first sys = list_elem_to_block sys 0"

definition block_next :: "block_sys \<Rightarrow> nat \<Rightarrow> nat option" where
  "block_next sys b = list_elem_to_block sys (Suc b)"

definition block_get_by_name :: "block_sys \<Rightarrow> string \<Rightarrow> nat option" where
  "block_get_by_name sys name = find (\<lambda>i. bname (blocks sys ! i) = name) [0..<length (blocks sys)]"

definition block_size :: "block_sys \<Rightarrow> nat \<Rightarrow> block_sector option" where
  "block_size sys b = map_option bsize (array_get (blocks sys) b)"

definition block_name :: "block_sys \<Rightarrow> nat \<Rightarrow> string option" where
  "block_name sys b = map_option bname (array_get (blocks sys) b)"

definition block_type :: "block_sys \<Rightarrow> nat \<Rightarrow> block_type option" where
  "block_type sys b = map_option btype (array_get (blocks sys) b)"

definition check_sector :: "block_sys \<Rightarrow> nat \<Rightarrow> block_sector \<Rightarrow> unit option" where
  "check_sector sys b sector = do {
     blk \<leftarrow> array_get (blocks sys) b;
     guard (\<not> bsize blk \<le> sector) }"

text \<open>\<open>block->ops->read\<close> is the disk driver or \<open>partition_read\<close>, which reads the device below.\<close>

partial_function (option) block_read ::
  "block_sys \<Rightarrow> nat \<Rightarrow> block_sector \<Rightarrow> (bytes \<times> block_sys) option" where
  "block_read sys b sector = do {
     check_sector sys b sector;
     blk \<leftarrow> array_get (blocks sys) b;
     (buffer, sys) \<leftarrow> (case bops blk of
         Ide \<Rightarrow> Some (platter sys b sector, sys)
       | Partition u st \<Rightarrow> block_read sys u (st + sector));
     blk \<leftarrow> array_get (blocks sys) b;
     bs \<leftarrow> array_set (blocks sys) b (blk\<lparr>read_cnt := read_cnt blk + 1\<rparr>);
     Some (buffer, sys\<lparr>blocks := bs\<rparr>) }"

partial_function (option) block_write ::
  "block_sys \<Rightarrow> nat \<Rightarrow> block_sector \<Rightarrow> bytes \<Rightarrow> block_sys option" where
  "block_write sys b sector buffer = do {
     check_sector sys b sector;
     blk \<leftarrow> array_get (blocks sys) b;
     guard (btype blk \<noteq> BLOCK_FOREIGN);
     guard (BLOCK_SECTOR_SIZE \<le> length buffer);
     sys \<leftarrow> (case bops blk of
         Ide \<Rightarrow> Some (sys\<lparr>platter := (platter sys)
                   (b := (platter sys b)(sector := take BLOCK_SECTOR_SIZE buffer))\<rparr>)
       | Partition u st \<Rightarrow> block_write sys u (st + sector) buffer);
     blk \<leftarrow> array_get (blocks sys) b;
     bs \<leftarrow> array_set (blocks sys) b (blk\<lparr>write_cnt := write_cnt blk + 1\<rparr>);
     Some (sys\<lparr>blocks := bs\<rparr>) }"

definition block_register ::
  "block_sys \<Rightarrow> string \<Rightarrow> block_type \<Rightarrow> block_sector \<Rightarrow> block_ops \<Rightarrow> nat \<times> block_sys" where
  "block_register sys name ty sz ops =
     (length (blocks sys),
      sys\<lparr>blocks := blocks sys @
        [\<lparr>bname = take 15 name, btype = ty, bsize = sz, bops = ops, read_cnt = 0, write_cnt = 0\<rparr>]\<rparr>)"

subsection \<open>What a device stores\<close>

text \<open>A disk, or a partition that lies within a disk.\<close>

definition dev_ok :: "block_sys \<Rightarrow> nat \<Rightarrow> bool" where
  "dev_ok sys b \<longleftrightarrow> b < length (blocks sys) \<and>
     (case bops (blocks sys ! b) of
        Ide \<Rightarrow> True
      | Partition u st \<Rightarrow> u < b \<and> bops (blocks sys ! u) = Ide \<and> btype (blocks sys ! u) \<noteq> BLOCK_FOREIGN \<and>
          unat st + unat (bsize (blocks sys ! b)) \<le> unat (bsize (blocks sys ! u)))"

definition place :: "block_sys \<Rightarrow> nat \<Rightarrow> block_sector \<Rightarrow> nat \<times> block_sector" where
  "place sys b s = (case bops (blocks sys ! b) of Ide \<Rightarrow> (b, s) | Partition u st \<Rightarrow> (u, st + s))"

definition content :: "block_sys \<Rightarrow> nat \<Rightarrow> block_sector \<Rightarrow> bytes" where
  "content sys b s = (case place sys b s of (d, t) \<Rightarrow> platter sys d t)"

text \<open>Two states that differ in statistics and sector contents only.\<close>

definition static :: "block \<Rightarrow> string \<times> block_type \<times> block_sector \<times> block_ops" where
  "static blk = (bname blk, btype blk, bsize blk, bops blk)"

definition same_devs :: "block_sys \<Rightarrow> block_sys \<Rightarrow> bool" where
  "same_devs sys sys' \<longleftrightarrow> map static (blocks sys') = map static (blocks sys)
     \<and> block_by_role sys' = block_by_role sys"

lemma same_devs_refl [simp]: "same_devs sys sys"
  by (simp add: same_devs_def)

lemma same_devs_trans: "same_devs a b \<Longrightarrow> same_devs b c \<Longrightarrow> same_devs a c"
  by (simp add: same_devs_def)

lemma same_devs_length: "same_devs sys sys' \<Longrightarrow> length (blocks sys') = length (blocks sys)"
  by (metis same_devs_def length_map)

lemma same_devs_nth:
  assumes "same_devs sys sys'" and "b < length (blocks sys)"
  shows "length (blocks sys') = length (blocks sys)" "bops (blocks sys' ! b) = bops (blocks sys ! b)"
    "bsize (blocks sys' ! b) = bsize (blocks sys ! b)" "btype (blocks sys' ! b) = btype (blocks sys ! b)"
proof -
  show l: "length (blocks sys') = length (blocks sys)"
    using assms(1) by (rule same_devs_length)
  have "map static (blocks sys') ! b = map static (blocks sys) ! b"
    using assms(1) by (simp add: same_devs_def)
  then have "static (blocks sys' ! b) = static (blocks sys ! b)" using assms(2) l by simp
  then show "bops (blocks sys' ! b) = bops (blocks sys ! b)"
    "bsize (blocks sys' ! b) = bsize (blocks sys ! b)" "btype (blocks sys' ! b) = btype (blocks sys ! b)"
    by (simp_all add: static_def)
qed

lemma same_devs_ok: "same_devs sys sys' \<Longrightarrow> dev_ok sys b \<Longrightarrow> dev_ok sys' b"
  unfolding dev_ok_def
  by (cases "bops (blocks sys ! b)") (simp_all add: same_devs_nth [of sys sys'] same_devs_length [of sys sys'])

lemma same_devs_place: "same_devs sys sys' \<Longrightarrow> b < length (blocks sys) \<Longrightarrow> place sys' b s = place sys b s"
  by (simp add: place_def same_devs_nth [of sys sys'])

lemma same_devs_update:
  "b < length (blocks sys) \<Longrightarrow> static blk = static (blocks sys ! b) \<Longrightarrow>
   same_devs sys (sys\<lparr>blocks := (blocks sys)[b := blk]\<rparr>)"
  by (simp add: same_devs_def map_update) (metis list_update_id nth_map)

lemma partition_sector:
  assumes "unat st + unat n \<le> unat (m :: u32)" and "s < n"
  shows "unat (st + s) = unat st + unat s" and "\<not> m \<le> st + s"
proof -
  have "unat s < unat n" using assms(2) by (simp add: word_less_nat_alt)
  moreover have "unat m < 2 ^ 32" using unsigned_less [of m] by simp
  ultimately have "unat st + unat s < 2 ^ LENGTH(32)" using assms(1) by simp
  then show "unat (st + s) = unat st + unat s" by (simp only: unat_add_lem)
  then show "\<not> m \<le> st + s" using \<open>unat s < unat n\<close> assms(1) by (simp add: word_le_nat_alt)
qed

lemma block_read_ide:
  assumes "b < length (blocks sys)" and "bops (blocks sys ! b) = Ide" and "\<not> bsize (blocks sys ! b) \<le> s"
  shows "block_read sys b s = Some (platter sys b s,
    sys\<lparr>blocks := (blocks sys)[b := (blocks sys ! b)\<lparr>read_cnt := read_cnt (blocks sys ! b) + 1\<rparr>]\<rparr>)"
  using assms by (subst block_read.simps) (simp add: check_sector_def)

lemma block_write_ide:
  assumes "b < length (blocks sys)" and "bops (blocks sys ! b) = Ide" and "\<not> bsize (blocks sys ! b) \<le> s"
    and "btype (blocks sys ! b) \<noteq> BLOCK_FOREIGN" and "length d = BLOCK_SECTOR_SIZE"
  shows "block_write sys b s d = Some
    (sys\<lparr>platter := (platter sys)(b := (platter sys b)(s := d)),
         blocks := (blocks sys)[b := (blocks sys ! b)\<lparr>write_cnt := write_cnt (blocks sys ! b) + 1\<rparr>]\<rparr>)"
  using assms by (subst block_write.simps) (simp add: check_sector_def)

text \<open>Reading a sector of a device returns its contents and only counts the access.\<close>

lemma block_read_content:
  assumes ok: "dev_ok sys b" and s: "s < bsize (blocks sys ! b)"
  shows "\<exists>sys'. block_read sys b s = Some (content sys b s, sys') \<and> same_devs sys sys' \<and> platter sys' = platter sys"
proof (cases "bops (blocks sys ! b)")
  case Ide
  with ok s show ?thesis
    by (simp add: block_read_ide dev_ok_def content_def place_def same_devs_update static_def)
next
  case (Partition u st)
  then have u: "u < b" "b < length (blocks sys)" "bops (blocks sys ! u) = Ide"
      "unat st + unat (bsize (blocks sys ! b)) \<le> unat (bsize (blocks sys ! u))"
    using ok by (auto simp: dev_ok_def)
  let ?s1 = "sys\<lparr>blocks := (blocks sys)[u := (blocks sys ! u)\<lparr>read_cnt := read_cnt (blocks sys ! u) + 1\<rparr>]\<rparr>"
  let ?s2 = "?s1\<lparr>blocks := (blocks ?s1)[b := (blocks ?s1 ! b)\<lparr>read_cnt := read_cnt (blocks ?s1 ! b) + 1\<rparr>]\<rparr>"
  have "block_read sys u (st + s) = Some (platter sys u (st + s), ?s1)"
    using u partition_sector [OF u(4) s] by (intro block_read_ide) auto
  then have "block_read sys b s = Some (platter sys u (st + s), ?s2)"
    using Partition u s by (subst block_read.simps) (simp add: check_sector_def)
  moreover have "same_devs sys ?s2"
    by (rule same_devs_trans [of _ ?s1]) (use u in \<open>intro same_devs_update; simp add: static_def\<close>)+
  moreover have "content sys b s = platter sys u (st + s)" using Partition by (simp add: content_def place_def)
  ultimately show ?thesis by (intro exI [of _ ?s2] conjI) simp_all
qed

lemma content_write:
  assumes "same_devs sys sys'" and "platter sys' = (platter sys)(d := (platter sys d)(t := v))"
    and "place sys b s = (d, t)" and "b' < length (blocks sys)"
  shows "content sys' b' s' = (if place sys b' s' = place sys b s then v else content sys b' s')"
  using assms(2,3) same_devs_place [OF assms(1,4), of s']
  by (cases "place sys b' s'") (auto simp: content_def)

text \<open>Writing a sector changes the contents at its place on the disk, and nothing else.\<close>

lemma block_write_content:
  assumes ok: "dev_ok sys b" and s: "s < bsize (blocks sys ! b)"
    and t: "btype (blocks sys ! b) \<noteq> BLOCK_FOREIGN" and d: "length d = BLOCK_SECTOR_SIZE"
  shows "\<exists>sys'. block_write sys b s d = Some sys' \<and> same_devs sys sys' \<and>
    (\<forall>b' s'. b' < length (blocks sys) \<longrightarrow>
       content sys' b' s' = (if place sys b' s' = place sys b s then d else content sys b' s'))"
proof (cases "bops (blocks sys ! b)")
  case Ide
  let ?s0 = "sys\<lparr>platter := (platter sys)(b := (platter sys b)(s := d))\<rparr>"
  let ?s1 = "?s0\<lparr>blocks := (blocks ?s0)[b := (blocks ?s0 ! b)\<lparr>write_cnt := write_cnt (blocks ?s0 ! b) + 1\<rparr>]\<rparr>"
  have "block_write sys b s d = Some ?s1"
    using Ide ok s t d by (simp add: block_write_ide dev_ok_def)
  moreover have dv: "same_devs sys ?s1"
    using ok same_devs_update [of b ?s0] by (simp add: dev_ok_def same_devs_def static_def)
  moreover have "content ?s1 b' s' = (if place sys b' s' = place sys b s then d else content sys b' s')"
    if "b' < length (blocks sys)" for b' s'
    by (rule content_write [OF dv _ _ that, of b s]) (simp_all add: place_def Ide)
  ultimately show ?thesis by (intro exI [of _ ?s1] conjI allI impI)
next
  case (Partition u st)
  then have u: "u < b" "b < length (blocks sys)" "bops (blocks sys ! u) = Ide" "btype (blocks sys ! u) \<noteq> BLOCK_FOREIGN"
      "unat st + unat (bsize (blocks sys ! b)) \<le> unat (bsize (blocks sys ! u))"
    using ok by (auto simp: dev_ok_def)
  let ?s1 = "sys\<lparr>platter := (platter sys)(u := (platter sys u)(st + s := d)),
         blocks := (blocks sys)[u := (blocks sys ! u)\<lparr>write_cnt := write_cnt (blocks sys ! u) + 1\<rparr>]\<rparr>"
  let ?s2 = "?s1\<lparr>blocks := (blocks ?s1)[b := (blocks ?s1 ! b)\<lparr>write_cnt := write_cnt (blocks ?s1 ! b) + 1\<rparr>]\<rparr>"
  have "block_write sys u (st + s) d = Some ?s1"
    using u d partition_sector [OF u(5) s] by (intro block_write_ide) auto
  then have "block_write sys b s d = Some ?s2"
    using Partition u s t d by (subst block_write.simps) (simp add: check_sector_def)
  moreover have "same_devs sys ?s1"
    using u same_devs_update [of u sys] by (simp add: same_devs_def static_def)
  moreover have "same_devs ?s1 ?s2" using u by (intro same_devs_update; simp add: static_def)
  ultimately have dv: "same_devs sys ?s2" and w: "block_write sys b s d = Some ?s2"
    using same_devs_trans by blast+
  moreover have "content ?s2 b' s' = (if place sys b' s' = place sys b s then d else content sys b' s')"
    if "b' < length (blocks sys)" for b' s'
    by (rule content_write [OF dv _ _ that, of u "st + s"]) (simp_all add: place_def Partition)
  ultimately show ?thesis by (intro exI [of _ ?s2] conjI allI impI)
qed

text \<open>C9: Reading back what was written. After a sector of a device has been written, reading the
  same place returns the new data, through the same device or through any other device that
  shares the disk; every other sector of every device reads as before.\<close>

theorem block_write_read:
  assumes "dev_ok sys b" "s < bsize (blocks sys ! b)" "btype (blocks sys ! b) \<noteq> BLOCK_FOREIGN"
    and "length d = BLOCK_SECTOR_SIZE" and "dev_ok sys b'" "s' < bsize (blocks sys ! b')"
  shows "\<exists>sys' sys''. block_write sys b s d = Some sys' \<and>
    block_read sys' b' s' = Some (if place sys b' s' = place sys b s then d else content sys b' s', sys'')"
proof -
  have b': "b' < length (blocks sys)" using assms(5) by (simp add: dev_ok_def)
  obtain sys' where w: "block_write sys b s d = Some sys'" and dv: "same_devs sys sys'"
      and c: "content sys' b' s' = (if place sys b' s' = place sys b s then d else content sys b' s')"
    using block_write_content [OF assms(1-4)] b' by blast
  have "s' < bsize (blocks sys' ! b')" using assms(6) same_devs_nth(3) [OF dv b'] by simp
  from block_read_content [OF same_devs_ok [OF dv assms(5)] this] w c show ?thesis by auto
qed

theorem block_write_read_witness:
  "\<exists>sys' sys''. block_write
      \<lparr>blocks = [\<lparr>bname = ''hda'', btype = BLOCK_RAW, bsize = 100, bops = Ide, read_cnt = 0, write_cnt = 0\<rparr>,
        \<lparr>bname = ''hda1'', btype = BLOCK_FILESYS, bsize = 50, bops = Partition 0 10, read_cnt = 0, write_cnt = 0\<rparr>],
       block_by_role = (\<lambda>_. None), platter = (\<lambda>_ _. [])\<rparr> 1 5 (replicate 512 7) = Some sys'
    \<and> block_read sys' 0 15 = Some (replicate 512 7, sys'')"
proof -
  let ?sys = "\<lparr>blocks = [\<lparr>bname = ''hda'', btype = BLOCK_RAW, bsize = 100, bops = Ide, read_cnt = 0, write_cnt = 0\<rparr>,
        \<lparr>bname = ''hda1'', btype = BLOCK_FILESYS, bsize = 50, bops = Partition 0 10, read_cnt = 0, write_cnt = 0\<rparr>],
       block_by_role = (\<lambda>_. None), platter = (\<lambda>_ _. [])\<rparr>"
  have "dev_ok ?sys 1" "dev_ok ?sys 0" "place ?sys 0 15 = place ?sys 1 5"
    "5 < bsize (blocks ?sys ! 1)" "15 < bsize (blocks ?sys ! 0)" "btype (blocks ?sys ! 1) \<noteq> BLOCK_FOREIGN"
    by (simp_all add: dev_ok_def place_def)
  then show ?thesis
    using block_write_read [of ?sys 1 5 "replicate 512 7" 0 15] by (simp add: BLOCK_SECTOR_SIZE_def)
qed

end
