(* ===== verification/Partition_Table.thy ===== *)
theory Partition_Table
  imports Block
begin

text \<open>
  Partitions: \<open>devices/partition.c\<close>. Reading the partition table of a disk registers a block device for
  every partition that lies within the disk. The console messages are left out.
\<close>

record partition_table_entry =
  pt_type :: u8
  pt_offset :: u32
  pt_size :: u32

definition partition_entry :: "bytes \<Rightarrow> nat \<Rightarrow> partition_table_entry option" where
  "partition_entry pt i = do {
     let base = 446 + 16 * i;
     ty \<leftarrow> array_get pt (base + 4);
     off \<leftarrow> get_le32 pt (base + 8);
     sz \<leftarrow> get_le32 pt (base + 12);
     Some \<lparr>pt_type = ty, pt_offset = off, pt_size = sz\<rparr> }"

definition pt_signature :: "bytes \<Rightarrow> u16 option" where
  "pt_signature pt = get_le16 pt 510"

definition is_extended :: "u8 \<Rightarrow> bool" where
  "is_extended ty \<longleftrightarrow> ty = 0x05 \<or> ty = 0x0f \<or> ty = 0x85 \<or> ty = 0xc5"

text \<open>\<open>snprintf (name, sizeof name, "%s%d", ...)\<close> with a positive number.\<close>

fun decimal :: "nat \<Rightarrow> string" where
  "decimal n = (if n < 10 then [char_of (48 + n)] else decimal (n div 10) @ [char_of (48 + n mod 10)])"

declare decimal.simps [simp del]

definition found_partition ::
  "block_sys \<Rightarrow> nat \<Rightarrow> u8 \<Rightarrow> block_sector \<Rightarrow> block_sector \<Rightarrow> nat \<Rightarrow> block_sys option" where
  "found_partition sys b part_type st sz part_nr = do {
     bs \<leftarrow> block_size sys b;
     if bs \<le> st then Some sys
     else if st + sz < st \<or> bs < st + sz then Some sys
     else do {
       nm \<leftarrow> block_name sys b;
       let ty = (if part_type = 0x20 then BLOCK_KERNEL
                 else if part_type = 0x21 then BLOCK_FILESYS
                 else if part_type = 0x22 then BLOCK_SCRATCH
                 else if part_type = 0x23 then BLOCK_SWAP
                 else BLOCK_FOREIGN);
       Some (snd (block_register sys (take 15 (nm @ decimal part_nr)) ty sz (Partition b st))) } }"

text \<open>The recursion through extended partitions runs on fuel: it need not end (see below).\<close>

fun read_partition_table ::
  "nat \<Rightarrow> nat \<Rightarrow> block_sector \<Rightarrow> block_sector \<Rightarrow> nat \<times> block_sys \<Rightarrow> (nat \<times> block_sys) option" where
  "read_partition_table 0 b sector primary_extended_sector (part_nr, sys) = None"
| "read_partition_table (Suc fuel) b sector primary_extended_sector (part_nr, sys) = do {
     bs \<leftarrow> block_size sys b;
     if bs \<le> sector then Some (part_nr, sys)
     else do {
       (pt, sys) \<leftarrow> block_read sys b 0;
       sg \<leftarrow> pt_signature pt;
       if sg \<noteq> 0xaa55 then Some (part_nr, sys)
       else for_upto 0 4 (\<lambda>i (part_nr, sys). do {
         e \<leftarrow> partition_entry pt i;
         if pt_size e = 0 \<or> pt_type e = 0 then Some (part_nr, sys)
         else if is_extended (pt_type e) then
           (if sector = 0
            then read_partition_table fuel b (pt_offset e) (pt_offset e) (part_nr, sys)
            else read_partition_table fuel b (pt_offset e + primary_extended_sector)
                   primary_extended_sector (part_nr, sys))
         else do {
           sys \<leftarrow> found_partition sys b (pt_type e) (pt_offset e + sector) (pt_size e) (Suc part_nr);
           Some (Suc part_nr, sys) } }) (part_nr, sys) } }"

definition partition_scan :: "nat \<Rightarrow> nat \<Rightarrow> block_sys \<Rightarrow> (nat \<times> block_sys) option" where
  "partition_scan fuel b sys = read_partition_table fuel b 0 0 (0, sys)"

definition type_names :: "(u8 \<times> string) list" where
  "type_names =
    [(0x00, ''Empty''), (0x01, ''FAT12''), (0x02, ''XENIX root''), (0x03, ''XENIX usr''),
     (0x04, ''FAT16 <32M''), (0x05, ''Extended''), (0x06, ''FAT16''), (0x07, ''HPFS/NTFS''),
     (0x08, ''AIX''), (0x09, ''AIX bootable''), (0x0a, ''OS/2 Boot Manager''),
     (0x0b, ''W95 FAT32''), (0x0c, ''W95 FAT32 (LBA)''), (0x0e, ''W95 FAT16 (LBA)''),
     (0x0f, (''W95 Ext'' @ CHR 0x27 # ''d (LBA)'')), (0x10, ''OPUS''), (0x11, ''Hidden FAT12''),
     (0x12, ''Compaq diagnostics''), (0x14, ''Hidden FAT16 <32M''), (0x16, ''Hidden FAT16''),
     (0x17, ''Hidden HPFS/NTFS''), (0x18, ''AST SmartSleep''), (0x1b, ''Hidden W95 FAT32''),
     (0x1c, ''Hidden W95 FAT32 (LBA)''), (0x1e, ''Hidden W95 FAT16 (LBA)''),
     (0x20, ''Pintos OS kernel''), (0x21, ''Pintos file system''), (0x22, ''Pintos scratch''),
     (0x23, ''Pintos swap''), (0x24, ''NEC DOS''), (0x39, ''Plan 9''),
     (0x3c, ''PartitionMagic recovery''), (0x40, ''Venix 80286''), (0x41, ''PPC PReP Boot''),
     (0x42, ''SFS''), (0x4d, ''QNX4.x''), (0x4e, ''QNX4.x 2nd part''),
     (0x4f, ''QNX4.x 3rd part''), (0x50, ''OnTrack DM''), (0x51, ''OnTrack DM6 Aux1''),
     (0x52, ''CP/M''), (0x53, ''OnTrack DM6 Aux3''), (0x54, ''OnTrackDM6''),
     (0x55, ''EZ-Drive''), (0x56, ''Golden Bow''), (0x5c, ''Priam Edisk''),
     (0x61, ''SpeedStor''), (0x63, ''GNU HURD or SysV''), (0x64, ''Novell Netware 286''),
     (0x65, ''Novell Netware 386''), (0x70, ''DiskSecure Multi-Boot''), (0x75, ''PC/IX''),
     (0x80, ''Old Minix''), (0x81, ''Minix / old Linux''), (0x82, ''Linux swap / Solaris''),
     (0x83, ''Linux''), (0x84, ''OS/2 hidden C: drive''), (0x85, ''Linux extended''),
     (0x86, ''NTFS volume set''), (0x87, ''NTFS volume set''), (0x88, ''Linux plaintext''),
     (0x8e, ''Linux LVM''), (0x93, ''Amoeba''), (0x94, ''Amoeba BBT''), (0x9f, ''BSD/OS''),
     (0xa0, ''IBM Thinkpad hibernation''), (0xa5, ''FreeBSD''), (0xa6, ''OpenBSD''),
     (0xa7, ''NeXTSTEP''), (0xa8, ''Darwin UFS''), (0xa9, ''NetBSD''), (0xab, ''Darwin boot''),
     (0xb7, ''BSDI fs''), (0xb8, ''BSDI swap''), (0xbb, ''Boot Wizard hidden''),
     (0xbe, ''Solaris boot''), (0xbf, ''Solaris''), (0xc1, ''DRDOS/sec (FAT-12)''),
     (0xc4, ''DRDOS/sec (FAT-16 < 32M)''), (0xc6, ''DRDOS/sec (FAT-16)''), (0xc7, ''Syrinx''),
     (0xda, ''Non-FS data''), (0xdb, ''CP/M / CTOS / ...''), (0xde, ''Dell Utility''),
     (0xdf, ''BootIt''), (0xe1, ''DOS access''), (0xe3, ''DOS R/O''), (0xe4, ''SpeedStor''),
     (0xeb, ''BeOS fs''), (0xee, ''EFI GPT''), (0xef, ''EFI (FAT-12/16/32)''),
     (0xf0, ''Linux/PA-RISC boot''), (0xf1, ''SpeedStor''), (0xf4, ''SpeedStor''),
     (0xf2, ''DOS secondary''), (0xfd, ''Linux raid autodetect''), (0xfe, ''LANstep''),
     (0xff, ''BBT'')]"

definition partition_type_name :: "u8 \<Rightarrow> string" where
  "partition_type_name ty = (case map_of type_names ty of Some n \<Rightarrow> n | None \<Rightarrow> ''Unknown'')"

subsection \<open>Registered partitions lie within their disk\<close>

text \<open>\<open>sys'\<close> has the devices of \<open>sys\<close> and more.\<close>

definition extends :: "block_sys \<Rightarrow> block_sys \<Rightarrow> bool" where
  "extends sys sys' \<longleftrightarrow> (\<exists>new. map static (blocks sys') = map static (blocks sys) @ new)
     \<and> platter sys' = platter sys"

lemma extends_refl [simp]: "extends sys sys"
  by (simp add: extends_def)

lemma extends_trans: "extends a b \<Longrightarrow> extends b c \<Longrightarrow> extends a c"
  by (auto simp: extends_def)

lemma extends_nth:
  assumes "extends sys sys'" and "b < length (blocks sys)"
  shows "b < length (blocks sys')" "static (blocks sys' ! b) = static (blocks sys ! b)"
proof -
  obtain new where n: "map static (blocks sys') = map static (blocks sys) @ new"
    using assms(1) by (auto simp: extends_def)
  then show l: "b < length (blocks sys')" using assms(2) by (metis length_append length_map trans_less_add1)
  show "static (blocks sys' ! b) = static (blocks sys ! b)"
    using n assms(2) l by (metis length_map nth_append nth_map)
qed

lemma dev_ok_static:
  assumes "dev_ok sys b" and "\<And>d. d \<le> b \<Longrightarrow> d < length (blocks sys') \<and> static (blocks sys' ! d) = static (blocks sys ! d)"
  shows "dev_ok sys' b"
  using assms(1) assms(2) [of b] assms(2) [of "under (bops (blocks sys ! b))"]
  by (cases "bops (blocks sys ! b)") (auto simp: dev_ok_def static_def)

lemma extends_dev_ok: "extends sys sys' \<Longrightarrow> dev_ok sys b \<Longrightarrow> dev_ok sys' b"
  by (rule dev_ok_static) (auto simp: dev_ok_def intro: extends_nth)

lemma same_devs_extends: "same_devs sys sys' \<Longrightarrow> platter sys' = platter sys \<Longrightarrow> extends sys sys'"
  by (simp add: same_devs_def extends_def)

text \<open>A raw disk, as \<open>ide_init\<close> registers it.\<close>

definition is_disk :: "block_sys \<Rightarrow> nat \<Rightarrow> bool" where
  "is_disk sys b \<longleftrightarrow> b < length (blocks sys) \<and> bops (blocks sys ! b) = Ide \<and> btype (blocks sys ! b) \<noteq> BLOCK_FOREIGN"

lemma is_disk_extends: "extends sys sys' \<Longrightarrow> is_disk sys b \<Longrightarrow> is_disk sys' b"
  using extends_nth [of sys sys' b] by (auto simp: is_disk_def static_def)

lemma no_wrap_end: "\<not> st + sz < st \<Longrightarrow> \<not> bs < st + sz \<Longrightarrow> unat st + unat sz \<le> unat (bs :: u32)"
proof -
  assume a: "\<not> st + sz < st" "\<not> bs < st + sz"
  have "unat (st + sz) = unat st + unat sz"
    using a(1) no_olen_add_nat no_plus_overflow_uint_size unat_add_lem
    by (metis linorder_not_less unat_plus_simple)
  with a(2) show ?thesis by (simp add: word_less_nat_alt)
qed

definition devs_ok :: "block_sys \<Rightarrow> bool" where
  "devs_ok sys \<longleftrightarrow> (\<forall>b < length (blocks sys). dev_ok sys b)"

lemma found_partition_ok:
  assumes d: "is_disk sys b" and ok: "devs_ok sys"
  shows "\<exists>sys'. found_partition sys b ty st sz nr = Some sys' \<and> extends sys sys' \<and> devs_ok sys'"
proof (cases "bsize (blocks sys ! b) \<le> st \<or> st + sz < st \<or> bsize (blocks sys ! b) < st + sz")
  case True
  with assms show ?thesis by (auto simp: found_partition_def block_size_def is_disk_def)
next
  case False
  then obtain ty' nm sys' where sys': "found_partition sys b ty st sz nr = Some sys'"
      and r: "sys' = snd (block_register sys nm ty' sz (Partition b st))"
    using d by (auto simp: found_partition_def block_size_def block_name_def is_disk_def Let_def)
  have e: "extends sys sys'" by (auto simp: r block_register_def extends_def)
  have "dev_ok sys' b'" if "b' < length (blocks sys')" for b'
  proof (cases "b' < length (blocks sys)")
    case True
    with ok e show ?thesis by (auto simp: devs_ok_def intro: extends_dev_ok)
  next
    case f: False
    then have "b' = length (blocks sys)" using that by (simp add: r block_register_def)
    moreover have "unat st + unat sz \<le> unat (bsize (blocks sys ! b))" using False by (intro no_wrap_end) auto
    ultimately show ?thesis using d
      by (simp add: dev_ok_def r block_register_def is_disk_def nth_append)
  qed
  with sys' e show ?thesis by (auto simp: devs_ok_def)
qed

lemma is_disk_dev_ok: "is_disk sys b \<Longrightarrow> dev_ok sys b"
  by (simp add: is_disk_def dev_ok_def)

lemma partition_entry_Some:
  assumes "length pt = BLOCK_SECTOR_SIZE" and "i < 4"
  shows "\<exists>e. partition_entry pt i = Some e \<and> pt_type e = pt ! (446 + 16 * i + 4)"
  using assms by (simp add: partition_entry_def get_le32_def BLOCK_SECTOR_SIZE_def Let_def)

text \<open>Looking at one table of a disk.\<close>

lemma read_table_sector:
  assumes "is_disk sys b" and "sector < bsize (blocks sys ! b)"
    and "length (content sys b 0) = BLOCK_SECTOR_SIZE"
  shows "\<exists>sys' sg. block_size sys b = Some (bsize (blocks sys ! b)) \<and> \<not> bsize (blocks sys ! b) \<le> sector
    \<and> block_read sys b 0 = Some (content sys b 0, sys') \<and> same_devs sys sys' \<and> platter sys' = platter sys
    \<and> pt_signature (content sys b 0) = Some sg"
proof -
  have "0 < bsize (blocks sys ! b)" using assms(2) by (simp add: word_greater_zero_iff) auto
  from block_read_content [OF is_disk_dev_ok [OF assms(1)] this] assms show ?thesis
    by (auto simp: block_size_def is_disk_def pt_signature_def get_le16_def BLOCK_SECTOR_SIZE_def)
qed



subsection \<open>Examples\<close>

text \<open>A disk of 100 sectors with one entry of the given type, start and size in its table.\<close>

definition example_table :: "u8 \<Rightarrow> u8 \<Rightarrow> u8 \<Rightarrow> bytes" where
  "example_table ty off sz =
     replicate 446 0 @ [0, 0, 0, 0, ty, 0, 0, 0, off, 0, 0, 0, sz, 0, 0, 0] @ replicate 48 0 @ [0x55, 0xaa]"

definition example_disk :: "bytes \<Rightarrow> block_sys" where
  "example_disk pt = \<lparr>blocks = [\<lparr>bname = ''hda'', btype = BLOCK_RAW, bsize = 100, bops = Ide,
     read_cnt = 0, write_cnt = 0\<rparr>], block_by_role = (\<lambda>_. None), platter = (\<lambda>_ _. pt)\<rparr>"

lemma example_disk_ok:
  "is_disk (example_disk pt) 0" "devs_ok (example_disk pt)" "content (example_disk pt) 0 0 = pt"
  "bsize (blocks (example_disk pt) ! 0) = 100"
  by (simp_all add: is_disk_def devs_ok_def dev_ok_def content_def place_def example_disk_def)

lemma example_table_facts:
  "length (example_table ty off sz) = BLOCK_SECTOR_SIZE"
  "pt_signature (example_table ty off sz) = Some 0xaa55"
  "partition_entry (example_table ty off sz) 0
     = Some \<lparr>pt_type = ty, pt_offset = le32 off 0 0 0, pt_size = le32 sz 0 0 0\<rparr>"
  by (simp_all add: example_table_def BLOCK_SECTOR_SIZE_def pt_signature_def get_le16_def nth_append le16_def
      partition_entry_def get_le32_def array_get_def)



end
