(* ===== verification/Bufcache.thy ===== *)
theory Bufcache
  imports Block
begin

text \<open>
  The buffer cache of \<open>filesys/bufcache.c\<close>. An entry is its index in \<open>entries\<close> and
  \<open>cached_data\<close>; \<open>lru_list\<close> is the sequence of entries, most recently used first. The operations
  that give up \<open>cache_lock\<close> in the middle (\<open>clean\<close>, \<open>replace\<close>) are split at that point into
  the part before, the device access, and the part after; here they run to completion in one thread, where waiting on a condition nobody can signal
  is \<open>None\<close>. The interleaving of many threads is the subject of the next theory.
\<close>

definition NUM_ENTRIES :: nat where
  "NUM_ENTRIES = 64"

record metadata =
  sector :: block_sector
  ready :: bool
  dirty :: bool

record bufcache =
  entries :: "metadata list"
  cached_data :: "bytes list"
  lru_list :: "nat list"
  cache_lock :: bool
  dev :: block_sys
  fs_device :: nat

definition lock_acquire_cache :: "bufcache \<Rightarrow> bufcache option" where
  "lock_acquire_cache c = do { guard (\<not> cache_lock c); Some (c\<lparr>cache_lock := True\<rparr>) }"

definition lock_release_cache :: "bufcache \<Rightarrow> bufcache option" where
  "lock_release_cache c = do { guard (cache_lock c); Some (c\<lparr>cache_lock := False\<rparr>) }"

definition upd_entry :: "nat \<Rightarrow> (metadata \<Rightarrow> metadata) \<Rightarrow> bufcache \<Rightarrow> bufcache option" where
  "upd_entry i f c = do {
     m \<leftarrow> array_get (entries c) i;
     es \<leftarrow> array_set (entries c) i (f m);
     Some (c\<lparr>entries := es\<rparr>) }"

text \<open>\<open>bufcache_init\<close>; the memory of \<open>cached_data\<close> holds zeros, as static data of the kernel does.\<close>

definition bufcache_init :: "block_sys \<Rightarrow> nat \<Rightarrow> bufcache" where
  "bufcache_init sys device =
     \<lparr>entries = replicate NUM_ENTRIES \<lparr>sector = - 1, ready = True, dirty = False\<rparr>,
      cached_data = replicate NUM_ENTRIES (replicate BLOCK_SECTOR_SIZE 0),
      lru_list = rev [0..<NUM_ENTRIES], cache_lock = False, dev = sys, fs_device = device\<rparr>"

definition get_eviction_candidate :: "bufcache \<Rightarrow> nat option option" where
  "get_eviction_candidate c = do {
     guard (cache_lock c);
     Some (List.find (\<lambda>i. ready (entries c ! i)) (rev (lru_list c))) }"

definition find_entry :: "bufcache \<Rightarrow> block_sector \<Rightarrow> nat option" where
  "find_entry c s = List.find (\<lambda>i. s = sector (entries c ! i)) [0..<NUM_ENTRIES]"

definition clean_begin :: "nat \<Rightarrow> bufcache \<Rightarrow> bufcache option" where
  "clean_begin i c = do {
     guard (cache_lock c);
     m \<leftarrow> array_get (entries c) i;
     guard (dirty m);
     c \<leftarrow> upd_entry i (\<lambda>m. m\<lparr>ready := False\<rparr>) c;
     lock_release_cache c }"

definition clean_write :: "nat \<Rightarrow> bufcache \<Rightarrow> bufcache option" where
  "clean_write i c = do {
     m \<leftarrow> array_get (entries c) i;
     d \<leftarrow> array_get (cached_data c) i;
     sys \<leftarrow> block_write (dev c) (fs_device c) (sector m) d;
     Some (c\<lparr>dev := sys\<rparr>) }"

definition clean_end :: "nat \<Rightarrow> bufcache \<Rightarrow> bufcache option" where
  "clean_end i c = do {
     c \<leftarrow> lock_acquire_cache c;
     upd_entry i (\<lambda>m. m\<lparr>ready := True, dirty := False\<rparr>) c }"

definition clean :: "nat \<Rightarrow> bufcache \<Rightarrow> bufcache option" where
  "clean i c = do { c \<leftarrow> clean_begin i c; c \<leftarrow> clean_write i c; clean_end i c }"

definition replace_begin :: "nat \<Rightarrow> block_sector \<Rightarrow> bufcache \<Rightarrow> bufcache option" where
  "replace_begin i s c = do {
     guard (cache_lock c);
     m \<leftarrow> array_get (entries c) i;
     guard (\<not> dirty m);
     c \<leftarrow> upd_entry i (\<lambda>m. m\<lparr>sector := s, ready := False\<rparr>) c;
     lock_release_cache c }"

definition replace_read :: "nat \<Rightarrow> block_sector \<Rightarrow> bufcache \<Rightarrow> bufcache option" where
  "replace_read i s c = do {
     (d, sys) \<leftarrow> block_read (dev c) (fs_device c) s;
     ds \<leftarrow> array_set (cached_data c) i d;
     Some (c\<lparr>dev := sys, cached_data := ds\<rparr>) }"

definition replace_end :: "nat \<Rightarrow> bufcache \<Rightarrow> bufcache option" where
  "replace_end i c = do {
     c \<leftarrow> lock_acquire_cache c;
     upd_entry i (\<lambda>m. m\<lparr>ready := True\<rparr>) c }"

definition replace :: "nat \<Rightarrow> block_sector \<Rightarrow> bufcache \<Rightarrow> bufcache option" where
  "replace i s c = do { c \<leftarrow> replace_begin i s c; c \<leftarrow> replace_read i s c; replace_end i c }"

definition touch :: "nat \<Rightarrow> bufcache \<Rightarrow> bufcache" where
  "touch i c = c\<lparr>lru_list := i # remove1 i (lru_list c)\<rparr>"

partial_function (option) bufcache_access :: "block_sector \<Rightarrow> bufcache \<Rightarrow> (nat \<times> bufcache) option" where
  "bufcache_access s c = do {
     guard (cache_lock c);
     case find_entry c s of
       Some i \<Rightarrow> do {
         m \<leftarrow> array_get (entries c) i;
         guard (ready m);
         Some (i, touch i c) }
     | None \<Rightarrow> do {
         e \<leftarrow> get_eviction_candidate c;
         i \<leftarrow> e;
         m \<leftarrow> array_get (entries c) i;
         if dirty m then do { c \<leftarrow> clean i c; bufcache_access s c }
         else do { c \<leftarrow> replace i s c; bufcache_access s c } } }"

definition copy_out :: "nat \<Rightarrow> nat \<Rightarrow> nat \<Rightarrow> bufcache \<Rightarrow> bytes option" where
  "copy_out i offset len c = do {
     d \<leftarrow> array_get (cached_data c) i;
     guard (offset + len \<le> length d);
     Some (slice offset len d) }"

definition copy_in :: "nat \<Rightarrow> bytes \<Rightarrow> nat \<Rightarrow> nat \<Rightarrow> bufcache \<Rightarrow> bufcache option" where
  "copy_in i buffer offset len c = do {
     d \<leftarrow> array_get (cached_data c) i;
     guard (offset + len \<le> length d \<and> len \<le> length buffer);
     ds \<leftarrow> array_set (cached_data c) i (splice offset (take len buffer) d);
     upd_entry i (\<lambda>m. m\<lparr>dirty := True\<rparr>) (c\<lparr>cached_data := ds\<rparr>) }"

definition bufcache_read :: "block_sector \<Rightarrow> nat \<Rightarrow> nat \<Rightarrow> bufcache \<Rightarrow> (bytes \<times> bufcache) option" where
  "bufcache_read s offset len c = do {
     guard (sz_add offset len \<le> BLOCK_SECTOR_SIZE);
     c \<leftarrow> lock_acquire_cache c;
     (i, c) \<leftarrow> bufcache_access s c;
     buffer \<leftarrow> copy_out i offset len c;
     c \<leftarrow> lock_release_cache c;
     Some (buffer, c) }"

definition bufcache_write :: "block_sector \<Rightarrow> bytes \<Rightarrow> nat \<Rightarrow> nat \<Rightarrow> bufcache \<Rightarrow> bufcache option" where
  "bufcache_write s buffer offset len c = do {
     guard (sz_add offset len \<le> BLOCK_SECTOR_SIZE);
     c \<leftarrow> lock_acquire_cache c;
     (i, c) \<leftarrow> bufcache_access s c;
     c \<leftarrow> copy_in i buffer offset len c;
     lock_release_cache c }"

definition bufcache_flush :: "bufcache \<Rightarrow> bufcache option" where
  "bufcache_flush c = do {
     c \<leftarrow> lock_acquire_cache c;
     for_upto 0 NUM_ENTRIES (\<lambda>i c. do {
         m \<leftarrow> array_get (entries c) i;
         if dirty m \<and> ready m then clean i c else Some c }) c }"

subsection \<open>The invariant and what the cache stores\<close>

text \<open>Sectors a file system may ask for.\<close>

definition valid_sector :: "bufcache \<Rightarrow> block_sector \<Rightarrow> bool" where
  "valid_sector c s \<longleftrightarrow> s < bsize (blocks (dev c) ! fs_device c)"

definition dev_wf :: "bufcache \<Rightarrow> bool" where
  "dev_wf c \<longleftrightarrow> dev_ok (dev c) (fs_device c) \<and> btype (blocks (dev c) ! fs_device c) \<noteq> BLOCK_FOREIGN \<and>
     (\<forall>s. valid_sector c s \<longrightarrow> length (content (dev c) (fs_device c) s) = BLOCK_SECTOR_SIZE)"

abbreviation on_disk :: "bufcache \<Rightarrow> block_sector \<Rightarrow> bytes" where
  "on_disk c s \<equiv> content (dev c) (fs_device c) s"

definition entry_ok :: "bufcache \<Rightarrow> nat \<Rightarrow> bool" where
  "entry_ok c i \<longleftrightarrow> ready (entries c ! i) \<and> length (cached_data c ! i) = BLOCK_SECTOR_SIZE \<and>
     (sector (entries c ! i) = - 1 \<and> \<not> dirty (entries c ! i) \<or>
      valid_sector c (sector (entries c ! i)) \<and>
      (dirty (entries c ! i) \<or> cached_data c ! i = on_disk c (sector (entries c ! i))))"

definition cache_inv :: "bufcache \<Rightarrow> bool" where
  "cache_inv c \<longleftrightarrow> length (entries c) = NUM_ENTRIES \<and> length (cached_data c) = NUM_ENTRIES \<and>
     distinct (lru_list c) \<and> set (lru_list c) = {..<NUM_ENTRIES} \<and> dev_wf c \<and>
     (\<forall>i < NUM_ENTRIES. entry_ok c i) \<and>
     (\<forall>i < NUM_ENTRIES. \<forall>j < NUM_ENTRIES. sector (entries c ! i) = sector (entries c ! j) \<longrightarrow>
        sector (entries c ! i) \<noteq> - 1 \<longrightarrow> i = j)"

text \<open>The contents of a sector as a client of the cache sees them.\<close>

definition view :: "bufcache \<Rightarrow> block_sector \<Rightarrow> bytes" where
  "view c s = (case find_entry c s of Some i \<Rightarrow> cached_data c ! i | None \<Rightarrow> on_disk c s)"

lemma valid_not_invalid: "valid_sector c s \<Longrightarrow> s \<noteq> - 1"
  by (auto simp: valid_sector_def)

lemma find_entry_Some:
  "find_entry c s = Some i \<Longrightarrow> i < NUM_ENTRIES \<and> sector (entries c ! i) = s"
  by (auto simp: find_entry_def find_Some_iff)

lemma find_entry_None: "find_entry c s = None \<longleftrightarrow> (\<forall>i < NUM_ENTRIES. sector (entries c ! i) \<noteq> s)"
  by (auto simp: find_entry_def find_None_iff)

lemma find_entry_eq:
  assumes "cache_inv c" and "i < NUM_ENTRIES" and "sector (entries c ! i) = s" and "s \<noteq> - 1"
  shows "find_entry c s = Some i"
proof -
  obtain j where "find_entry c s = Some j" using assms find_entry_None by (metis not_Some_eq)
  with find_entry_Some [of c s j] assms show ?thesis by (auto simp: cache_inv_def)
qed

lemma lru_members: "cache_inv c \<Longrightarrow> i \<in> set (lru_list c) \<longleftrightarrow> i < NUM_ENTRIES"
  by (simp add: cache_inv_def)

lemma candidate:
  assumes "cache_inv c" and "cache_lock c"
  shows "\<exists>i. get_eviction_candidate c = Some (Some i) \<and> i < NUM_ENTRIES \<and> i = last (lru_list c)"
proof -
  have ne: "lru_list c \<noteq> []" using lru_members [OF assms(1), of 0] by (auto simp: NUM_ENTRIES_def)
  then have l: "last (lru_list c) < NUM_ENTRIES" using lru_members [OF assms(1)] by (metis last_in_set)
  then have "ready (entries c ! last (lru_list c))" using assms(1) by (auto simp: cache_inv_def entry_ok_def)
  moreover have "rev (lru_list c) = last (lru_list c) # tl (rev (lru_list c))"
    using ne by (metis hd_rev list.collapse rev_is_Nil_conv)
  ultimately have "List.find (\<lambda>i. ready (entries c ! i)) (rev (lru_list c)) = Some (last (lru_list c))"
    by (metis find.simps(2))
  with assms(2) l show ?thesis by (simp add: get_eviction_candidate_def)
qed

subsection \<open>Cleaning and replacing one entry\<close>

text \<open>What a client can see, and what a client relies on, did not change.\<close>

definition same_view :: "bufcache \<Rightarrow> bufcache \<Rightarrow> bool" where
  "same_view c c' \<longleftrightarrow> valid_sector c' = valid_sector c \<and> (\<forall>s. valid_sector c s \<longrightarrow> view c' s = view c s)"

lemma same_view_refl [simp]: "same_view c c"
  by (simp add: same_view_def)

lemma same_view_trans: "same_view a b \<Longrightarrow> same_view b c \<Longrightarrow> same_view a c"
  by (simp add: same_view_def)

lemma find_entry_cong: "map sector (entries c') = map sector (entries c) \<Longrightarrow> length (entries c) = NUM_ENTRIES \<Longrightarrow>
   find_entry c' s = find_entry c s"
proof -
  assume a: "map sector (entries c') = map sector (entries c)" "length (entries c) = NUM_ENTRIES"
  then have l: "length (entries c') = NUM_ENTRIES" by (metis length_map)
  have "sector (entries c' ! i) = sector (entries c ! i)" if "i < NUM_ENTRIES" for i
    using a l that by (metis nth_map)
  then show ?thesis unfolding find_entry_def by (intro find_cong) auto
qed

lemma dev_wf_after:
  assumes "dev_wf c" and "same_devs (dev c) sys"
    and "\<And>s. valid_sector c s \<Longrightarrow> length (content sys (fs_device c) s) = BLOCK_SECTOR_SIZE"
    and "dev c' = sys" "fs_device c' = fs_device c"
  shows "dev_wf c'" "valid_sector c' = valid_sector c"
proof -
  have b: "fs_device c < length (blocks (dev c))" using assms(1) by (simp add: dev_wf_def dev_ok_def)
  show v: "valid_sector c' = valid_sector c"
    using same_devs_nth(3) [OF assms(2) b] assms(4,5) by (simp add: valid_sector_def fun_eq_iff)
  show "dev_wf c'" unfolding dev_wf_def v
    using assms same_devs_ok [OF assms(2)] same_devs_nth(4) [OF assms(2) b] by (simp add: dev_wf_def)
qed

lemma place_inj:
  "place sys b s = place sys b t \<longleftrightarrow> s = t"
  by (cases "bops (blocks sys ! b)") (auto simp: place_def)

lemma clean_ok:
  assumes inv: "cache_inv c" and lk: "cache_lock c" and i: "i < NUM_ENTRIES" and d: "dirty (entries c ! i)"
  shows "\<exists>c'. clean i c = Some c' \<and> cache_inv c' \<and> cache_lock c' \<and> same_view c c' \<and> fs_device c' = fs_device c
    \<and> entries c' = (entries c)[i := (entries c ! i)\<lparr>dirty := False\<rparr>] \<and> lru_list c' = lru_list c
    \<and> on_disk c' (sector (entries c ! i)) = cached_data c ! i
    \<and> (\<forall>s. s \<noteq> sector (entries c ! i) \<longrightarrow> on_disk c' s = on_disk c s)"
proof -
  let ?m = "entries c ! i" and ?b = "fs_device c"
  have ok: "entry_ok c i" "length (entries c) = NUM_ENTRIES" "length (cached_data c) = NUM_ENTRIES" "dev_wf c"
    using inv i by (auto simp: cache_inv_def)
  then have m: "ready ?m" "length (cached_data c ! i) = BLOCK_SECTOR_SIZE" "valid_sector c (sector ?m)"
    using d by (auto simp: entry_ok_def)
  obtain sys where sys: "block_write (dev c) ?b (sector ?m) (cached_data c ! i) = Some sys" "same_devs (dev c) sys"
      and cn: "\<And>s. content sys ?b s = (if s = sector ?m then cached_data c ! i else on_disk c s)"
    using block_write_content [of "dev c" ?b "sector ?m" "cached_data c ! i"] ok(4) m
    by (auto simp: dev_wf_def valid_sector_def place_inj dev_ok_def)
  have rm: "?m\<lparr>ready := True\<rparr> = ?m" using m(1) by (intro metadata.equality) simp_all
  define c' where "c' = c\<lparr>dev := sys, cache_lock := True, entries := (entries c)[i := ?m\<lparr>dirty := False\<rparr>]\<rparr>"
  have run: "clean i c = Some c'"
    using i ok(2,3) d m lk sys
    by (simp add: rm clean_def clean_begin_def clean_write_def clean_end_def upd_entry_def lock_release_cache_def
        lock_acquire_cache_def c'_def)
  have v: "dev_wf c'" "valid_sector c' = valid_sector c"
    by (rule dev_wf_after [OF ok(4) sys(2)]; use ok m cn in \<open>simp add: c'_def dev_wf_def\<close>)+
  have sec: "map sector (entries c') = map sector (entries c)"
    using i ok(2) by (simp add: c'_def map_update) (metis list_update_id nth_map)
  have fe: "find_entry c' s = find_entry c s" for s by (rule find_entry_cong [OF sec ok(2)])
  have nth: "sector (entries c' ! j) = sector (entries c ! j)" if "j < NUM_ENTRIES" for j
    using that i ok(2) by (cases "j = i") (simp_all add: c'_def)
  have dj: "sector (entries c ! j) \<noteq> sector ?m \<or> sector (entries c ! j) = - 1" if "j < NUM_ENTRIES" "j \<noteq> i" for j
    using inv i that unfolding cache_inv_def by metis
  have od: "on_disk c' s = (if s = sector ?m then cached_data c ! i else on_disk c s)" for s
    using cn by (simp add: c'_def)
  have eok: "entry_ok c' j" if j: "j < NUM_ENTRIES" for j
  proof (cases "j = i")
    case True
    then have "entries c' ! j = ?m\<lparr>dirty := False\<rparr>" "cached_data c' ! j = cached_data c ! i"
      using i ok(2) by (simp_all add: c'_def)
    then show ?thesis using m by (simp add: entry_ok_def od v(2))
  next
    case False
    then have "entries c' ! j = entries c ! j" "cached_data c' ! j = cached_data c ! j" by (simp_all add: c'_def)
    moreover have "entry_ok c j" using inv j by (simp add: cache_inv_def)
    ultimately show ?thesis
      using dj [OF j False] valid_not_invalid by (auto simp: entry_ok_def od v(2))
  qed
  have "cache_inv c'" unfolding cache_inv_def
    using inv nth eok v(1) by (simp add: cache_inv_def c'_def)
  moreover have "view c' s = view c s" for s
    unfolding view_def fe od using find_entry_None [of c s] i by (auto simp: c'_def split: option.splits)
  moreover have "cache_lock c'" "fs_device c' = fs_device c" "lru_list c' = lru_list c"
    "entries c' = (entries c)[i := ?m\<lparr>dirty := False\<rparr>]" by (simp_all add: c'_def)
  ultimately show ?thesis using run v(2) od by (intro exI [of _ c']) (simp add: same_view_def)
qed

lemma replace_ok:
  assumes inv: "cache_inv c" and lk: "cache_lock c" and i: "i < NUM_ENTRIES" and d: "\<not> dirty (entries c ! i)"
    and f: "find_entry c s = None" and s: "valid_sector c s"
  shows "\<exists>c'. replace i s c = Some c' \<and> cache_inv c' \<and> cache_lock c' \<and> same_view c c' \<and> find_entry c' s = Some i
    \<and> fs_device c' = fs_device c"
proof -
  let ?m = "entries c ! i" and ?b = "fs_device c"
  have ok: "length (entries c) = NUM_ENTRIES" "length (cached_data c) = NUM_ENTRIES" "dev_wf c"
    using inv i by (auto simp: cache_inv_def)
  obtain sys where sys: "block_read (dev c) ?b s = Some (on_disk c s, sys)" "same_devs (dev c) sys"
      "platter sys = platter (dev c)"
    using block_read_content [of "dev c" ?b s] ok(3) s by (auto simp: dev_wf_def valid_sector_def)
  have cn: "content sys ?b t = on_disk c t" for t
    using sys(2,3) same_devs_place [OF sys(2)] ok(3) by (simp add: content_def dev_wf_def dev_ok_def)
  define c' where "c' = c\<lparr>dev := sys, cached_data := (cached_data c)[i := on_disk c s], cache_lock := True,
      entries := (entries c)[i := ?m\<lparr>sector := s, ready := True\<rparr>]\<rparr>"
  have run: "replace i s c = Some c'"
    using i ok(1,2) d lk sys(1)
    by (simp add: replace_def replace_begin_def replace_read_def replace_end_def upd_entry_def
        lock_release_cache_def lock_acquire_cache_def c'_def)
  have v: "dev_wf c'" "valid_sector c' = valid_sector c"
    by (rule dev_wf_after [OF ok(3) sys(2)]; use ok cn in \<open>simp add: c'_def dev_wf_def\<close>)+
  have nth: "sector (entries c' ! j) = (if j = i then s else sector (entries c ! j))" if "j < NUM_ENTRIES" for j
    using that i ok(1) by (cases "j = i") (simp_all add: c'_def)
  have ns: "sector (entries c ! j) \<noteq> s" if "j < NUM_ENTRIES" for j using f that find_entry_None by blast
  have od: "on_disk c' t = on_disk c t" for t using cn by (simp add: c'_def)
  have eok: "entry_ok c' j" if j: "j < NUM_ENTRIES" for j
  proof (cases "j = i")
    case True
    then have "entries c' ! j = ?m\<lparr>sector := s, ready := True\<rparr>" "cached_data c' ! j = on_disk c s"
      using i ok(1,2) by (simp_all add: c'_def)
    then show ?thesis using s ok(3) by (simp add: entry_ok_def od v(2) dev_wf_def)
  next
    case False
    then have "entries c' ! j = entries c ! j" "cached_data c' ! j = cached_data c ! j" by (simp_all add: c'_def)
    moreover have "entry_ok c j" using inv j by (simp add: cache_inv_def)
    ultimately show ?thesis by (simp add: entry_ok_def od v(2))
  qed
  have inv': "cache_inv c'" unfolding cache_inv_def
  proof (intro conjI allI impI)
    fix j k assume jk: "j < NUM_ENTRIES" "k < NUM_ENTRIES" "sector (entries c' ! j) = sector (entries c' ! k)"
      "sector (entries c' ! j) \<noteq> - 1"
    then show "j = k" using inv nth ns unfolding cache_inv_def by (metis (full_types))
  qed (use inv eok v(1) in \<open>simp_all add: cache_inv_def c'_def\<close>)
  have fs: "find_entry c' s = Some i"
    using find_entry_eq [OF inv' i _ valid_not_invalid [OF s]] nth [OF i] by simp
  have "view c' t = view c t" if t: "valid_sector c t" for t
  proof (cases "t = s")
    case True
    then show ?thesis using fs f i ok(2) by (simp add: view_def c'_def)
  next
    case False
    show ?thesis
    proof (cases "\<exists>j < NUM_ENTRIES. sector (entries c' ! j) = t")
      case True
      then obtain j where j: "j < NUM_ENTRIES" "sector (entries c' ! j) = t" by blast
      then have "j \<noteq> i" "sector (entries c ! j) = t" using nth False by (auto split: if_splits)
      then show ?thesis
        using j find_entry_eq [OF inv' j valid_not_invalid [OF t]] find_entry_eq [OF inv j(1) _ valid_not_invalid [OF t]]
        by (simp add: view_def c'_def)
    next
      case no: False
      then have f': "find_entry c' t = None" using find_entry_None by blast
      show ?thesis
      proof (cases "find_entry c t")
        case None
        with f' show ?thesis by (simp add: view_def od)
      next
        case (Some j)
        then have j: "j < NUM_ENTRIES" "sector (entries c ! j) = t" using find_entry_Some by auto
        then have "j = i" using no nth by (metis (full_types))
        then have "cached_data c ! i = on_disk c t"
          using inv i j d valid_not_invalid [OF t] by (auto simp: cache_inv_def entry_ok_def)
        with f' Some \<open>j = i\<close> show ?thesis by (simp add: view_def od)
      qed
    qed
  qed
  with run inv' lk fs v(2) show ?thesis by (intro exI [of _ c']) (simp add: same_view_def c'_def)
qed

subsection \<open>Access to a sector\<close>

lemma touch_simps [simp]:
  "entries (touch i c) = entries c" "cached_data (touch i c) = cached_data c" "dev (touch i c) = dev c"
  "fs_device (touch i c) = fs_device c" "cache_lock (touch i c) = cache_lock c"
  by (simp_all add: touch_def)

lemma touch_ok:
  assumes "cache_inv c" and "i < NUM_ENTRIES"
  shows "cache_inv (touch i c)" "same_view c (touch i c)" "find_entry (touch i c) s = find_entry c s"
proof -
  have f: "find_entry (touch i c) t = find_entry c t" for t by (simp add: find_entry_def touch_def)
  then show "find_entry (touch i c) s = find_entry c s" .
  have v: "valid_sector (touch i c) = valid_sector c" by (simp add: valid_sector_def touch_def fun_eq_iff)
  then show "same_view c (touch i c)" unfolding same_view_def view_def f by (simp split: option.split)
  have "entry_ok (touch i c) j = entry_ok c j" for j unfolding entry_ok_def v by simp
  moreover have "dev_wf (touch i c) = dev_wf c" unfolding dev_wf_def v by simp
  moreover have "distinct (lru_list (touch i c))" "set (lru_list (touch i c)) = {..<NUM_ENTRIES}"
    using assms by (auto simp: touch_def cache_inv_def)
  ultimately show "cache_inv (touch i c)" using assms by (simp add: cache_inv_def)
qed

lemma bufcache_access_hit:
  assumes inv: "cache_inv c" and lk: "cache_lock c" and f: "find_entry c s = Some i"
  shows "bufcache_access s c = Some (i, touch i c)"
proof -
  have "i < NUM_ENTRIES" using find_entry_Some [OF f] by blast
  then have "i < length (entries c)" "ready (entries c ! i)" using inv by (auto simp: cache_inv_def entry_ok_def)
  with f lk show ?thesis by (subst bufcache_access.simps) simp
qed

lemma bufcache_access_replace:
  assumes inv: "cache_inv c" and lk: "cache_lock c" and s: "valid_sector c s" and f: "find_entry c s = None"
    and d: "\<not> dirty (entries c ! last (lru_list c))"
  shows "\<exists>i c'. bufcache_access s c = Some (i, c') \<and> cache_inv c' \<and> cache_lock c' \<and> same_view c c'
    \<and> find_entry c' s = Some i \<and> fs_device c' = fs_device c"
proof -
  obtain i where i: "get_eviction_candidate c = Some (Some i)" "i < NUM_ENTRIES" "i = last (lru_list c)"
    using candidate [OF inv lk] by blast
  obtain c1 where c1: "replace i s c = Some c1" "cache_inv c1" "cache_lock c1" "same_view c c1"
      "find_entry c1 s = Some i" "fs_device c1 = fs_device c"
    using replace_ok [OF inv lk i(2) _ f s] d i(3) by blast
  have "bufcache_access s c = bufcache_access s c1"
    using f lk i d c1(1) inv by (subst bufcache_access.simps) (simp add: cache_inv_def)
  also have "\<dots> = Some (i, touch i c1)" using bufcache_access_hit [OF c1(2,3,5)] .
  finally show ?thesis
    using touch_ok [OF c1(2) i(2)] c1 same_view_trans [OF c1(4)]
    by (intro exI [of _ i] exI [of _ "touch i c1"]) simp
qed

lemma bufcache_access_ok:
  assumes inv: "cache_inv c" and lk: "cache_lock c" and s: "valid_sector c s"
  shows "\<exists>i c'. bufcache_access s c = Some (i, c') \<and> cache_inv c' \<and> cache_lock c' \<and> same_view c c'
    \<and> find_entry c' s = Some i \<and> fs_device c' = fs_device c"
proof (cases "find_entry c s")
  case (Some i)
  then have "i < NUM_ENTRIES" using find_entry_Some by blast
  then show ?thesis
    using bufcache_access_hit [OF inv lk Some] touch_ok [OF inv, of i] Some lk
    by (intro exI [of _ i] exI [of _ "touch i c"]) simp
next
  case None
  show ?thesis
  proof (cases "dirty (entries c ! last (lru_list c))")
    case False
    then show ?thesis using bufcache_access_replace [OF inv lk s None] by blast
  next
    case True
    obtain i where i: "get_eviction_candidate c = Some (Some i)" "i < NUM_ENTRIES" "i = last (lru_list c)"
      using candidate [OF inv lk] by blast
    obtain c1 where c1: "clean i c = Some c1" "cache_inv c1" "cache_lock c1" "same_view c c1" "fs_device c1 = fs_device c"
        "entries c1 = (entries c)[i := (entries c ! i)\<lparr>dirty := False\<rparr>]" "lru_list c1 = lru_list c"
      using clean_ok [OF inv lk i(2)] True i(3) by auto
    have le: "length (entries c) = NUM_ENTRIES" using inv by (simp add: cache_inv_def)
    then have "map sector (entries c1) = map sector (entries c)"
      using i(2) by (simp add: c1(6) map_update) (metis list_update_id nth_map)
    then have "find_entry c1 s = None" using find_entry_cong [OF _ le] None by metis
    moreover have "\<not> dirty (entries c1 ! last (lru_list c1))" using c1(6,7) i(2,3) le by simp
    moreover have "valid_sector c1 s" using c1(4) s by (simp add: same_view_def)
    ultimately obtain j c2 where "bufcache_access s c1 = Some (j, c2)" "cache_inv c2" "cache_lock c2" "same_view c1 c2"
        "find_entry c2 s = Some j" "fs_device c2 = fs_device c1"
      using bufcache_access_replace [OF c1(2,3)] by blast
    moreover have "bufcache_access s c = bufcache_access s c1"
      using None lk i True c1(1) le by (subst bufcache_access.simps) simp
    ultimately show ?thesis using c1 same_view_trans by (metis (no_types, lifting))
  qed
qed

subsection \<open>Reading and writing: the cache is a store of sectors\<close>

definition quiet :: "bufcache \<Rightarrow> bool" where
  "quiet c \<longleftrightarrow> cache_inv c \<and> \<not> cache_lock c"

lemma lock_irrelevant [simp]:
  "valid_sector (c\<lparr>cache_lock := b\<rparr>) = valid_sector c" "find_entry (c\<lparr>cache_lock := b\<rparr>) s = find_entry c s"
  "view (c\<lparr>cache_lock := b\<rparr>) s = view c s" "cache_inv (c\<lparr>cache_lock := b\<rparr>) = cache_inv c"
proof -
  show v: "valid_sector (c\<lparr>cache_lock := b\<rparr>) = valid_sector c" by (simp add: valid_sector_def fun_eq_iff)
  show f: "find_entry (c\<lparr>cache_lock := b\<rparr>) s = find_entry c s" by (simp add: find_entry_def)
  then show "view (c\<lparr>cache_lock := b\<rparr>) s = view c s" by (simp add: view_def split: option.split)
  show "cache_inv (c\<lparr>cache_lock := b\<rparr>) = cache_inv c" by (simp add: cache_inv_def entry_ok_def dev_wf_def v)
qed

lemma acquire_ok:
  assumes "quiet c"
  shows "lock_acquire_cache c = Some (c\<lparr>cache_lock := True\<rparr>)" "cache_inv (c\<lparr>cache_lock := True\<rparr>)"
    "same_view c (c\<lparr>cache_lock := True\<rparr>)"
  using assms by (simp_all add: quiet_def lock_acquire_cache_def same_view_def)

lemma release_ok:
  assumes "cache_inv c" and "cache_lock c"
  shows "lock_release_cache c = Some (c\<lparr>cache_lock := False\<rparr>)" "quiet (c\<lparr>cache_lock := False\<rparr>)"
    "same_view c (c\<lparr>cache_lock := False\<rparr>)"
  using assms by (simp_all add: quiet_def lock_release_cache_def same_view_def)

lemma view_length:
  assumes "cache_inv c" and "valid_sector c s"
  shows "length (view c s) = BLOCK_SECTOR_SIZE"
  using assms find_entry_Some [of c s]
  by (cases "find_entry c s") (auto simp: view_def cache_inv_def entry_ok_def dev_wf_def)

lemma size_guard: "offset + len \<le> BLOCK_SECTOR_SIZE \<Longrightarrow> sz_add offset len \<le> BLOCK_SECTOR_SIZE"
  by (simp add: sz_add_id BLOCK_SECTOR_SIZE_def)

lemma bufcache_read_ok:
  assumes q: "quiet c" and s: "valid_sector c s" and l: "offset + len \<le> BLOCK_SECTOR_SIZE"
  shows "\<exists>c'. bufcache_read s offset len c = Some (slice offset len (view c s), c') \<and> quiet c' \<and> same_view c c'
    \<and> fs_device c' = fs_device c"
proof -
  let ?c = "c\<lparr>cache_lock := True\<rparr>"
  note a = acquire_ok [OF q]
  have "valid_sector ?c s" using a(3) s by (simp add: same_view_def)
  then obtain i c1 where c1: "bufcache_access s ?c = Some (i, c1)" "cache_inv c1" "cache_lock c1" "same_view ?c c1"
      "find_entry c1 s = Some i" "fs_device c1 = fs_device c"
    using bufcache_access_ok [OF a(2)] by fastforce
  have v: "same_view c c1" using a(3) c1(4) same_view_trans by blast
  have i: "i < length (cached_data c1)" "length (cached_data c1 ! i) = BLOCK_SECTOR_SIZE"
    using find_entry_Some [OF c1(5)] c1(2) by (auto simp: cache_inv_def entry_ok_def)
  have "view c1 s = cached_data c1 ! i" using c1(5) by (simp add: view_def)
  then have "cached_data c1 ! i = view c s" using v s by (simp add: same_view_def)
  then have "bufcache_read s offset len c = Some (slice offset len (view c s), c1\<lparr>cache_lock := False\<rparr>)"
    using a(1) c1 i l size_guard [OF l] release_ok(1) [OF c1(2,3)] by (simp add: bufcache_read_def copy_out_def)
  then show ?thesis
    using release_ok [OF c1(2,3)] v same_view_trans c1(6) by (intro exI [of _ "c1\<lparr>cache_lock := False\<rparr>"]) auto
qed

text \<open>A write to the entry that holds a sector.\<close>

lemma copy_in_ok:
  assumes inv: "cache_inv c" and f: "find_entry c s = Some i" and s: "valid_sector c s"
    and l: "offset + len \<le> BLOCK_SECTOR_SIZE" and b: "len \<le> length buffer"
  shows "\<exists>c'. copy_in i buffer offset len c = Some c' \<and> cache_inv c' \<and> cache_lock c' = cache_lock c
    \<and> valid_sector c' = valid_sector c \<and> fs_device c' = fs_device c
    \<and> (\<forall>t. view c' t = (if t = s then splice offset (take len buffer) (view c s) else view c t))"
proof -
  have i: "i < NUM_ENTRIES" "sector (entries c ! i) = s" using find_entry_Some [OF f] by auto
  have le: "length (entries c) = NUM_ENTRIES" "length (cached_data c) = NUM_ENTRIES"
    "length (cached_data c ! i) = BLOCK_SECTOR_SIZE" "ready (entries c ! i)"
    using inv i(1) by (auto simp: cache_inv_def entry_ok_def)
  let ?d = "splice offset (take len buffer) (cached_data c ! i)" and ?m = "entries c ! i"
  define c' where "c' = c\<lparr>cached_data := (cached_data c)[i := ?d], entries := (entries c)[i := ?m\<lparr>dirty := True\<rparr>]\<rparr>"
  have run: "copy_in i buffer offset len c = Some c'"
    using i le l b by (simp add: copy_in_def upd_entry_def c'_def)
  have ld: "length ?d = BLOCK_SECTOR_SIZE" using le(3) l b by simp
  have v: "valid_sector c' = valid_sector c" by (simp add: valid_sector_def c'_def fun_eq_iff)
  have sec: "sector (entries c' ! j) = sector (entries c ! j)" if "j < NUM_ENTRIES" for j
    using that le(1) by (cases "j = i") (simp_all add: c'_def)
  have fe: "find_entry c' t = find_entry c t" for t
    unfolding find_entry_def using sec by (intro find_cong) auto
  have eok: "entry_ok c' j" if j: "j < NUM_ENTRIES" for j
  proof (cases "j = i")
    case True
    then have "entries c' ! j = ?m\<lparr>dirty := True\<rparr>" "cached_data c' ! j = ?d" using i le by (simp_all add: c'_def)
    then show ?thesis using ld le(4) s i(2) by (simp add: entry_ok_def v)
  next
    case False
    then have "entries c' ! j = entries c ! j" "cached_data c' ! j = cached_data c ! j" by (simp_all add: c'_def)
    moreover have "entry_ok c j" using inv j by (simp add: cache_inv_def)
    ultimately show ?thesis by (simp add: entry_ok_def v) (simp add: c'_def)
  qed
  have "dev_wf c'" using inv by (simp add: cache_inv_def dev_wf_def v) (simp add: c'_def)
  then have "cache_inv c'" using inv eok sec by (simp add: cache_inv_def) (simp add: c'_def)
  moreover have "view c' t = (if t = s then splice offset (take len buffer) (view c s) else view c t)" for t
  proof (cases "find_entry c t")
    case None
    with f show ?thesis by (auto simp: view_def fe) (auto simp: c'_def)
  next
    case (Some j)
    then have "j < NUM_ENTRIES" "sector (entries c ! j) = t" using find_entry_Some by auto
    moreover have "view c' t = cached_data c' ! j" "view c t = cached_data c ! j" "view c s = cached_data c ! i"
      using Some f by (simp_all add: view_def fe)
    moreover have "cached_data c' = (cached_data c)[i := ?d]" by (simp add: c'_def)
    ultimately show ?thesis using Some f i le by (auto simp: nth_list_update)
  qed
  ultimately show ?thesis using run v by (intro exI [of _ c']) (simp add: c'_def)
qed

lemma bufcache_write_ok:
  assumes q: "quiet c" and s: "valid_sector c s" and l: "offset + len \<le> BLOCK_SECTOR_SIZE" and b: "len \<le> length buffer"
  shows "\<exists>c'. bufcache_write s buffer offset len c = Some c' \<and> quiet c' \<and> valid_sector c' = valid_sector c
    \<and> fs_device c' = fs_device c
    \<and> (\<forall>t. valid_sector c t \<longrightarrow> view c' t = (if t = s then splice offset (take len buffer) (view c s) else view c t))"
proof -
  let ?c = "c\<lparr>cache_lock := True\<rparr>"
  note a = acquire_ok [OF q]
  have "valid_sector ?c s" using a(3) s by (simp add: same_view_def)
  then obtain i c1 where c1: "bufcache_access s ?c = Some (i, c1)" "cache_inv c1" "cache_lock c1" "same_view ?c c1"
      "find_entry c1 s = Some i" "fs_device c1 = fs_device c"
    using bufcache_access_ok [OF a(2)] by fastforce
  have v: "valid_sector c1 = valid_sector c" "\<And>t. valid_sector c t \<Longrightarrow> view c1 t = view c t"
    using same_view_trans [OF a(3) c1(4)] by (simp_all add: same_view_def)
  obtain c2 where c2: "copy_in i buffer offset len c1 = Some c2" "cache_inv c2" "cache_lock c2"
      "valid_sector c2 = valid_sector c" "fs_device c2 = fs_device c"
      "\<And>t. view c2 t = (if t = s then splice offset (take len buffer) (view c1 s) else view c1 t)"
    using copy_in_ok [OF c1(2,5) _ l b] v s c1(3,6) by auto
  note r = release_ok [OF c2(2,3)]
  have "bufcache_write s buffer offset len c = Some (c2\<lparr>cache_lock := False\<rparr>)"
    using a(1) c1(1) c2(1) size_guard [OF l] r(1) by (simp add: bufcache_write_def)
  moreover have "view (c2\<lparr>cache_lock := False\<rparr>) t = view c2 t" if "valid_sector c t" for t
    using r(3) that c2(4) by (simp add: same_view_def)
  ultimately show ?thesis
    using r c2 v s by (intro exI [of _ "c2\<lparr>cache_lock := False\<rparr>"]) (auto simp: same_view_def)
qed

text \<open>The contract of the cache towards its clients: a store of sectors, addressed by bytes within a sector.\<close>

locale sector_store =
  fixes inv :: "'c \<Rightarrow> bool"
    and valid :: "'c \<Rightarrow> block_sector \<Rightarrow> bool"
    and get :: "'c \<Rightarrow> block_sector \<Rightarrow> bytes"
    and rd :: "block_sector \<Rightarrow> nat \<Rightarrow> nat \<Rightarrow> 'c \<Rightarrow> (bytes \<times> 'c) option"
    and wr :: "block_sector \<Rightarrow> bytes \<Rightarrow> nat \<Rightarrow> nat \<Rightarrow> 'c \<Rightarrow> 'c option"
  assumes get_length: "inv c \<Longrightarrow> valid c s \<Longrightarrow> length (get c s) = BLOCK_SECTOR_SIZE"
    and rd_ok: "inv c \<Longrightarrow> valid c s \<Longrightarrow> ofs + len \<le> BLOCK_SECTOR_SIZE \<Longrightarrow>
      \<exists>c'. rd s ofs len c = Some (slice ofs len (get c s), c') \<and> inv c' \<and> valid c' = valid c
        \<and> (\<forall>t. valid c t \<longrightarrow> get c' t = get c t)"
    and wr_ok: "inv c \<Longrightarrow> valid c s \<Longrightarrow> ofs + len \<le> BLOCK_SECTOR_SIZE \<Longrightarrow> len \<le> length b \<Longrightarrow>
      \<exists>c'. wr s b ofs len c = Some c' \<and> inv c' \<and> valid c' = valid c
        \<and> (\<forall>t. valid c t \<longrightarrow> get c' t = (if t = s then splice ofs (take len b) (get c s) else get c t))"
begin

text \<open>Whole sectors.\<close>

lemma rd_sector:
  assumes "inv c" and "valid c s"
  shows "\<exists>c'. rd s 0 BLOCK_SECTOR_SIZE c = Some (get c s, c') \<and> inv c' \<and> valid c' = valid c
    \<and> (\<forall>t. valid c t \<longrightarrow> get c' t = get c t)"
  using rd_ok [OF assms, of 0 BLOCK_SECTOR_SIZE] get_length [OF assms] by (metis add_0 order_refl slice_all)

lemma wr_sector:
  assumes "inv c" and "valid c s" and "length b = BLOCK_SECTOR_SIZE"
  shows "\<exists>c'. wr s b 0 BLOCK_SECTOR_SIZE c = Some c' \<and> inv c' \<and> valid c' = valid c
    \<and> (\<forall>t. valid c t \<longrightarrow> get c' t = (if t = s then b else get c t))"
proof -
  have "splice 0 (take BLOCK_SECTOR_SIZE b) (get c s) = b"
    using get_length [OF assms(1,2)] assms(3) by (simp add: splice_all)
  moreover have "0 + BLOCK_SECTOR_SIZE \<le> BLOCK_SECTOR_SIZE" "BLOCK_SECTOR_SIZE \<le> length b" using assms(3) by simp_all
  ultimately show ?thesis using wr_ok [OF assms(1,2), of 0 BLOCK_SECTOR_SIZE b] by (simp only:)
qed

text \<open>What a read returns after a write.\<close>

lemma wr_rd:
  assumes "inv c" and "valid c s" "ofs + len \<le> BLOCK_SECTOR_SIZE" "len \<le> length b"
    and "valid c t" "ofs' + len' \<le> BLOCK_SECTOR_SIZE"
  shows "\<exists>c' c''. wr s b ofs len c = Some c' \<and> rd t ofs' len' c' =
    Some (slice ofs' len' (if t = s then splice ofs (take len b) (get c s) else get c t), c'') \<and> inv c''"
proof -
  obtain c' where c': "wr s b ofs len c = Some c'" "inv c'" "valid c' = valid c"
      "get c' t = (if t = s then splice ofs (take len b) (get c s) else get c t)"
    using wr_ok [OF assms(1-4)] assms(5) by blast
  have "valid c' t" using c'(3) assms(5) by simp
  then obtain c'' where "rd t ofs' len' c' = Some (slice ofs' len' (get c' t), c'')" "inv c''"
    using rd_ok [OF c'(2) _ assms(6)] by blast
  then show ?thesis using c'(1) unfolding c'(4) by blast
qed

end

interpretation bc: sector_store quiet valid_sector view bufcache_read bufcache_write
proof (unfold_locales, goal_cases)
  case (1 c s)
  then show ?case by (simp add: view_length quiet_def)
next
  case (2 c s ofs len)
  then show ?case using bufcache_read_ok [of c s ofs len] by (auto simp: same_view_def)
next
  case (3 c s ofs len b)
  then show ?case using bufcache_write_ok [of c s ofs len b] by auto
qed

subsection \<open>Properties\<close>

text \<open>C14: The buffer cache refines a store of sectors. Whatever is cached, dirty or evicted along
  the way, a read of any valid sector after a write of any valid sector never fails or blocks in
  a single thread, and returns the bytes of the contents before with the written range replaced; the cache's invariant
  holds again afterwards.\<close>

theorem bufcache_write_read:
  assumes "quiet c" and "valid_sector c s" "offset + len \<le> BLOCK_SECTOR_SIZE" "len \<le> length buffer"
    and "valid_sector c t" "offset' + len' \<le> BLOCK_SECTOR_SIZE"
  shows "\<exists>c' c''. bufcache_write s buffer offset len c = Some c' \<and> bufcache_read t offset' len' c' =
    Some (slice offset' len' (if t = s then splice offset (take len buffer) (view c s) else view c t), c'') \<and> quiet c''"
  using assms by (rule bc.wr_rd)

text \<open>A disk of 100 sectors of zeros and an empty cache for it.\<close>

definition zero_disk :: block_sys where
  "zero_disk = \<lparr>blocks = [\<lparr>bname = ''hda1'', btype = BLOCK_FILESYS, bsize = 100, bops = Ide,
     read_cnt = 0, write_cnt = 0\<rparr>], block_by_role = (\<lambda>_. None), platter = (\<lambda>_ _. replicate 512 0)\<rparr>"

lemma bufcache_init_quiet:
  assumes "dev_ok sys b" and "btype (blocks sys ! b) \<noteq> BLOCK_FOREIGN"
    and "\<And>s. s < bsize (blocks sys ! b) \<Longrightarrow> length (content sys b s) = BLOCK_SECTOR_SIZE"
  shows "quiet (bufcache_init sys b)" "valid_sector (bufcache_init sys b) s \<longleftrightarrow> s < bsize (blocks sys ! b)"
    "valid_sector (bufcache_init sys b) s \<Longrightarrow> view (bufcache_init sys b) s = content sys b s"
proof -
  show v: "valid_sector (bufcache_init sys b) s \<longleftrightarrow> s < bsize (blocks sys ! b)" for s
    by (simp add: valid_sector_def bufcache_init_def)
  show "quiet (bufcache_init sys b)"
    using assms unfolding quiet_def cache_inv_def entry_ok_def dev_wf_def v
    by (auto simp: bufcache_init_def)
  assume "valid_sector (bufcache_init sys b) s"
  then have "s \<noteq> - 1" by (rule valid_not_invalid)
  then have "find_entry (bufcache_init sys b) s = None" by (auto simp: find_entry_None bufcache_init_def)
  then show "view (bufcache_init sys b) s = content sys b s" by (simp add: view_def) (simp add: bufcache_init_def)
qed

lemma zero_disk_quiet:
  "quiet (bufcache_init zero_disk 0)" "valid_sector (bufcache_init zero_disk 0) s \<longleftrightarrow> s < 100"
  "s < 100 \<Longrightarrow> view (bufcache_init zero_disk 0) s = replicate 512 0"
  using bufcache_init_quiet [of zero_disk 0]
  by (simp_all add: zero_disk_def dev_ok_def content_def place_def BLOCK_SECTOR_SIZE_def)

theorem bufcache_write_read_witness:
  "\<exists>c' c''. bufcache_write 7 [1, 2, 3] 10 3 (bufcache_init zero_disk 0) = Some c'
     \<and> bufcache_read 7 11 3 c' = Some ([2, 3, 0], c'')"
proof -
  have "slice 11 3 (splice 10 [1, 2, 3] (replicate 512 0)) = [2, 3, 0 :: u8]"
    by (simp add: slice_def splice_def numeral_2_eq_2)
  then show ?thesis
    using bufcache_write_read [of "bufcache_init zero_disk 0" 7 10 3 "[1, 2, 3]" 7 11 3]
    by (auto simp: zero_disk_quiet BLOCK_SECTOR_SIZE_def)
qed

lemma clean_view_on_disk:
  assumes "cache_inv c" and "\<And>j. j < NUM_ENTRIES \<Longrightarrow> \<not> dirty (entries c ! j)" and "valid_sector c s"
  shows "on_disk c s = view c s"
proof (cases "find_entry c s")
  case (Some j)
  then have "j < NUM_ENTRIES" "sector (entries c ! j) = s" using find_entry_Some by auto
  with Some assms valid_not_invalid [OF assms(3)] show ?thesis by (auto simp: view_def cache_inv_def entry_ok_def)
qed (simp add: view_def)

lemma flush_loop:
  assumes "cache_inv c" and "cache_lock c"
  shows "\<exists>c'. for_upto 0 NUM_ENTRIES (\<lambda>i c. do {
         m \<leftarrow> array_get (entries c) i;
         if dirty m \<and> ready m then clean i c else Some c }) c = Some c'
    \<and> cache_inv c' \<and> cache_lock c' \<and> same_view c c' \<and> (\<forall>j < NUM_ENTRIES. \<not> dirty (entries c' ! j))"
proof -
  let ?P = "\<lambda>i c'. cache_inv c' \<and> cache_lock c' \<and> same_view c c' \<and> (\<forall>j < i. \<not> dirty (entries c' ! j))"
  let ?body = "\<lambda>i c. do { m \<leftarrow> array_get (entries c) i; if dirty m \<and> ready m then clean i c else Some c }"
  have "\<exists>c'. for_upto 0 NUM_ENTRIES ?body c = Some c' \<and> ?P NUM_ENTRIES c'"
  proof (rule for_upto_rule)
    fix i c' assume i: "i < NUM_ENTRIES" and P: "?P i c'"
    have e: "length (entries c') = NUM_ENTRIES" "ready (entries c' ! i)"
      using P i by (auto simp: cache_inv_def entry_ok_def)
    show "\<exists>c''. ?body i c' = Some c'' \<and> ?P (Suc i) c''"
    proof (cases "dirty (entries c' ! i)")
      case False
      with e i P show ?thesis by (auto simp: less_Suc_eq)
    next
      case True
      obtain c'' where "clean i c' = Some c''" "cache_inv c''" "cache_lock c''" "same_view c' c''"
          "entries c'' = (entries c')[i := (entries c' ! i)\<lparr>dirty := False\<rparr>]"
        using clean_ok [OF _ _ i True] P by blast
      moreover have "same_view c c''" using P \<open>same_view c' c''\<close> same_view_trans by blast
      ultimately show ?thesis using P e i True by (auto simp: less_Suc_eq nth_list_update)
    qed
  qed (use assms in simp_all)
  then show ?thesis by blast
qed

text \<open>C15: \<open>bufcache_flush\<close> writes every dirty entry back, so that the device holds what clients
  see, but it returns with \<open>cache_lock\<close> still held: every later read, write or flush by the same
  thread fails at the acquisition of the lock.\<close>

theorem bufcache_flush_keeps_lock:
  assumes "quiet c"
  shows "\<exists>c'. bufcache_flush c = Some c' \<and> (\<forall>s. valid_sector c s \<longrightarrow> on_disk c' s = view c s)
    \<and> cache_lock c' \<and> bufcache_read s offset len c' = None \<and> bufcache_write s buffer offset len c' = None
    \<and> bufcache_flush c' = None"
proof -
  note a = acquire_ok [OF assms]
  obtain c' where c': "bufcache_flush c = Some c'" "cache_inv c'" "cache_lock c'" "same_view (c\<lparr>cache_lock := True\<rparr>) c'"
      "\<forall>j < NUM_ENTRIES. \<not> dirty (entries c' ! j)"
    using flush_loop [OF a(2)] a(1) by (auto simp: bufcache_flush_def)
  have "on_disk c' s = view c s" if "valid_sector c s" for s
    using clean_view_on_disk [of c' s] c' that by (simp add: same_view_def)
  moreover have "lock_acquire_cache c' = None" using c'(3) by (simp add: lock_acquire_cache_def)
  ultimately show ?thesis using c'
    by (auto simp: bufcache_read_def bufcache_write_def bufcache_flush_def bind_eq_None_conv)
qed

theorem bufcache_flush_keeps_lock_witness:
  "\<exists>c'. bufcache_flush (bufcache_init zero_disk 0) = Some c' \<and> cache_lock c' \<and> bufcache_read 3 0 16 c' = None"
  using bufcache_flush_keeps_lock [OF zero_disk_quiet(1), of 3 0 16 "[]"] by blast

end
