(* ===== verification/Bufcache_Conc.thy ===== *)
theory Bufcache_Conc
  imports Bufcache
begin

text \<open>
  The buffer cache under concurrency. Any number of threads call \<open>bufcache_read\<close> and
  \<open>bufcache_write\<close>; a thread runs without interference while it holds \<open>cache_lock\<close>, and others
  may run where it gives the lock up: while it waits on a condition, and during the device access of
  \<open>clean\<close> and \<open>replace\<close>. The steps of a thread are the code between two such points, composed of the
  operations of the previous theory. A thread that waits re-examines the cache
  whenever it is scheduled again, as the loop of \<open>bufcache_access\<close> does after \<open>cond_wait\<close>.

  The machine is shown to refine an atomic store of sectors: every completed call takes effect at
  one point between its call and its return.
\<close>

subsection \<open>Threads and their steps\<close>

datatype request = Rd (rsector: block_sector) (roff: nat) (rlen: nat)
  | Wr (rsector: block_sector) (rbuf: bytes) (roff: nat) (rlen: nat)

datatype event = Silent | Read block_sector nat nat bytes | Written block_sector nat bytes

datatype pc = Idle
  | Access request
  | Cleaning request nat | Cleaned request nat
  | Loading request nat | Loaded request nat

text \<open>The end of \<open>bufcache_read\<close> and \<open>bufcache_write\<close>, once the entry is found.\<close>

fun finish :: "request \<Rightarrow> nat \<Rightarrow> bufcache \<Rightarrow> (event \<times> bufcache) option" where
  "finish (Rd s offset len) i c = do {
     buffer \<leftarrow> copy_out i offset len c;
     c \<leftarrow> lock_release_cache c;
     Some (Read s offset len buffer, c) }"
| "finish (Wr s buffer offset len) i c = do {
     c \<leftarrow> copy_in i buffer offset len c;
     c \<leftarrow> lock_release_cache c;
     Some (Written s offset (take len buffer), c) }"

text \<open>One iteration of the loop of \<open>bufcache_access\<close>, from holding the lock to giving it up.\<close>

definition access_iter :: "request \<Rightarrow> bufcache \<Rightarrow> (event \<times> pc \<times> bufcache) option" where
  "access_iter r c = do {
     guard (cache_lock c);
     case find_entry c (rsector r) of
       Some i \<Rightarrow> do {
         m \<leftarrow> array_get (entries c) i;
         if ready m then do { (ev, c) \<leftarrow> finish r i (touch i c); Some (ev, Idle, c) }
         else do { c \<leftarrow> lock_release_cache c; Some (Silent, Access r, c) } }
     | None \<Rightarrow> do {
         e \<leftarrow> get_eviction_candidate c;
         case e of
           None \<Rightarrow> do { c \<leftarrow> lock_release_cache c; Some (Silent, Access r, c) }
         | Some i \<Rightarrow> do {
             m \<leftarrow> array_get (entries c) i;
             if dirty m then do { c \<leftarrow> clean_begin i c; Some (Silent, Cleaning r i, c) }
             else do { c \<leftarrow> replace_begin i (rsector r) c; Some (Silent, Loading r i, c) } } } }"

text \<open>What a thread does next; \<open>None\<close> would be a failed assertion or an access outside an object.\<close>

fun next_step :: "pc \<Rightarrow> bufcache \<Rightarrow> (event \<times> pc \<times> bufcache) option" where
  "next_step Idle c = Some (Silent, Idle, c)"
| "next_step (Access r) c = do { c \<leftarrow> lock_acquire_cache c; access_iter r c }"
| "next_step (Cleaning r i) c = do { c \<leftarrow> clean_write i c; Some (Silent, Cleaned r i, c) }"
| "next_step (Cleaned r i) c = do { c \<leftarrow> clean_end i c; access_iter r c }"
| "next_step (Loading r i) c = do { c \<leftarrow> replace_read i (rsector r) c; Some (Silent, Loaded r i, c) }"
| "next_step (Loaded r i) c = do { c \<leftarrow> replace_end i c; access_iter r c }"

definition request_ok :: "bufcache \<Rightarrow> request \<Rightarrow> bool" where
  "request_ok c r \<longleftrightarrow> valid_sector c (rsector r) \<and> roff r + rlen r \<le> BLOCK_SECTOR_SIZE \<and>
     (case r of Rd s ofs len \<Rightarrow> True | Wr s b ofs len \<Rightarrow> len \<le> length b)"

type_synonym cstate = "bufcache \<times> (nat \<Rightarrow> pc)"

inductive cstep :: "cstate \<Rightarrow> event \<Rightarrow> cstate \<Rightarrow> bool" where
  call: "pcs t = Idle \<Longrightarrow> request_ok c r \<Longrightarrow> cstep (c, pcs) Silent (c, pcs(t := Access r))"
| run: "next_step (pcs t) c = Some (ev, p, c') \<Longrightarrow> cstep (c, pcs) ev (c', pcs(t := p))"

inductive cruns :: "cstate \<Rightarrow> event list \<Rightarrow> cstate \<Rightarrow> bool" where
  cruns_nil: "cruns st [] st"
| cruns_snoc: "cruns st evs st' \<Longrightarrow> cstep st' ev st'' \<Longrightarrow> cruns st (evs @ [ev]) st''"

inductive_cases cstepE: "cstep (c, pcs) ev st'"

subsection \<open>The specification: an atomic store\<close>

fun atomic :: "(block_sector \<Rightarrow> bytes) \<Rightarrow> event \<Rightarrow> (block_sector \<Rightarrow> bytes) option" where
  "atomic A Silent = Some A"
| "atomic A (Read s ofs len b) = (if b = slice ofs len (A s) then Some A else None)"
| "atomic A (Written s ofs b) = Some (A(s := splice ofs b (A s)))"

fun atomics :: "(block_sector \<Rightarrow> bytes) \<Rightarrow> event list \<Rightarrow> (block_sector \<Rightarrow> bytes) option" where
  "atomics A [] = Some A"
| "atomics A (ev # evs) = do { A' \<leftarrow> atomic A ev; atomics A' evs }"

lemma atomics_snoc: "atomics A (evs @ [ev]) = do { A' \<leftarrow> atomics A evs; atomic A' ev }"
  by (induction evs arbitrary: A) (simp_all split: bind_split)

subsection \<open>The invariant\<close>

fun busy :: "pc \<Rightarrow> nat option" where
  "busy (Cleaning r i) = Some i"
| "busy (Cleaned r i) = Some i"
| "busy (Loading r i) = Some i"
| "busy (Loaded r i) = Some i"
| "busy p = None"

definition ready_ok :: "(block_sector \<Rightarrow> bytes) \<Rightarrow> bufcache \<Rightarrow> nat \<Rightarrow> bool" where
  "ready_ok A c i \<longleftrightarrow> length (cached_data c ! i) = BLOCK_SECTOR_SIZE \<and>
     (sector (entries c ! i) = - 1 \<and> \<not> dirty (entries c ! i) \<or>
      valid_sector c (sector (entries c ! i)) \<and> cached_data c ! i = A (sector (entries c ! i)) \<and>
      (dirty (entries c ! i) \<or> cached_data c ! i = on_disk c (sector (entries c ! i))))"

definition owned :: "bufcache \<Rightarrow> request \<Rightarrow> nat \<Rightarrow> bool" where
  "owned c r i \<longleftrightarrow> request_ok c r \<and> i < NUM_ENTRIES \<and> \<not> ready (entries c ! i) \<and> valid_sector c (sector (entries c ! i))"

fun pc_ok :: "(block_sector \<Rightarrow> bytes) \<Rightarrow> bufcache \<Rightarrow> pc \<Rightarrow> bool" where
  "pc_ok A c Idle \<longleftrightarrow> True"
| "pc_ok A c (Access r) \<longleftrightarrow> request_ok c r"
| "pc_ok A c (Cleaning r i) \<longleftrightarrow> owned c r i \<and> dirty (entries c ! i) \<and> cached_data c ! i = A (sector (entries c ! i))"
| "pc_ok A c (Cleaned r i) \<longleftrightarrow> owned c r i \<and> dirty (entries c ! i) \<and> cached_data c ! i = A (sector (entries c ! i))
     \<and> on_disk c (sector (entries c ! i)) = A (sector (entries c ! i))"
| "pc_ok A c (Loading r i) \<longleftrightarrow> owned c r i \<and> \<not> dirty (entries c ! i) \<and> sector (entries c ! i) = rsector r
     \<and> on_disk c (sector (entries c ! i)) = A (sector (entries c ! i))"
| "pc_ok A c (Loaded r i) \<longleftrightarrow> owned c r i \<and> \<not> dirty (entries c ! i) \<and> sector (entries c ! i) = rsector r
     \<and> on_disk c (sector (entries c ! i)) = A (sector (entries c ! i)) \<and> cached_data c ! i = A (sector (entries c ! i))"

definition shape :: "bufcache \<Rightarrow> bool" where
  "shape c \<longleftrightarrow> length (entries c) = NUM_ENTRIES \<and> length (cached_data c) = NUM_ENTRIES \<and>
     distinct (lru_list c) \<and> set (lru_list c) = {..<NUM_ENTRIES} \<and> dev_wf c"

definition cinv :: "(block_sector \<Rightarrow> bytes) \<Rightarrow> bufcache \<Rightarrow> (nat \<Rightarrow> pc) \<Rightarrow> bool" where
  "cinv A c pcs \<longleftrightarrow> shape c \<and>
     (\<forall>i < NUM_ENTRIES. \<forall>j < NUM_ENTRIES. i \<noteq> j \<longrightarrow> sector (entries c ! i) \<noteq> - 1 \<longrightarrow>
        sector (entries c ! i) \<noteq> sector (entries c ! j)) \<and>
     (\<forall>s. valid_sector c s \<longrightarrow> length (A s) = BLOCK_SECTOR_SIZE) \<and>
     (\<forall>i < NUM_ENTRIES. if ready (entries c ! i) then ready_ok A c i else \<exists>t. busy (pcs t) = Some i) \<and>
     (\<forall>t. pc_ok A c (pcs t)) \<and>
     (\<forall>t u i. busy (pcs t) = Some i \<longrightarrow> busy (pcs u) = Some i \<longrightarrow> t = u) \<and>
     (\<forall>s. valid_sector c s \<longrightarrow> (\<forall>i < NUM_ENTRIES. sector (entries c ! i) \<noteq> s) \<longrightarrow> on_disk c s = A s)"

lemma request_ok_cong: "valid_sector c' = valid_sector c \<Longrightarrow> request_ok c' r = request_ok c r"
  by (simp add: request_ok_def)

lemma pc_ok_busy: "pc_ok A c p \<Longrightarrow> busy p = Some i \<Longrightarrow> i < NUM_ENTRIES \<and> \<not> ready (entries c ! i) \<and>
   valid_sector c (sector (entries c ! i))"
  by (cases p) (auto simp: owned_def)

lemma pc_ok_frame:
  assumes "pc_ok A c p" and "valid_sector c' = valid_sector c"
    and "\<And>j. busy p = Some j \<Longrightarrow> entries c' ! j = entries c ! j \<and> cached_data c' ! j = cached_data c ! j
      \<and> A' (sector (entries c ! j)) = A (sector (entries c ! j))
      \<and> on_disk c' (sector (entries c ! j)) = on_disk c (sector (entries c ! j))"
  shows "pc_ok A' c' p"
  using assms by (cases p) (auto simp: owned_def request_ok_cong [of c' c])

lemma ready_ok_frame:
  assumes "ready_ok A c j" and "valid_sector c' = valid_sector c"
    and "entries c' ! j = entries c ! j" "cached_data c' ! j = cached_data c ! j"
    and "sector (entries c ! j) \<noteq> - 1 \<Longrightarrow> A' (sector (entries c ! j)) = A (sector (entries c ! j))
      \<and> on_disk c' (sector (entries c ! j)) = on_disk c (sector (entries c ! j))"
  shows "ready_ok A' c' j"
  using assms valid_not_invalid [of c "sector (entries c ! j)"] by (auto simp: ready_ok_def)

text \<open>One thread changes one entry, and with it the sector that entry holds afterwards.\<close>

lemma cinv_change:
  assumes I: "cinv A c pcs" and i: "i < NUM_ENTRIES"
    and ent: "\<And>j. j \<noteq> i \<Longrightarrow> entries c' ! j = entries c ! j" "\<And>j. j \<noteq> i \<Longrightarrow> cached_data c' ! j = cached_data c ! j"
    and sh: "shape c'" "valid_sector c' = valid_sector c" and len: "\<And>s. valid_sector c s \<Longrightarrow> length (A' s) = BLOCK_SECTOR_SIZE"
    and oth: "\<And>s. s \<noteq> sector (entries c' ! i) \<Longrightarrow> A' s = A s \<and> on_disk c' s = on_disk c s"
    and dis: "\<And>j. j < NUM_ENTRIES \<Longrightarrow> j \<noteq> i \<Longrightarrow> sector (entries c ! j) \<noteq> - 1 \<Longrightarrow> sector (entries c ! j) \<noteq> sector (entries c' ! i)"
    and old: "sector (entries c ! i) \<noteq> sector (entries c' ! i) \<Longrightarrow> valid_sector c (sector (entries c ! i)) \<Longrightarrow>
      on_disk c (sector (entries c ! i)) = A (sector (entries c ! i))"
    and ex: "\<And>u. u \<noteq> t \<Longrightarrow> busy (pcs u) \<noteq> Some i"
    and bs: "busy p' = None \<or> busy p' = Some i" "busy (pcs t) = None \<or> busy (pcs t) = Some i"
    and rdy: "if ready (entries c' ! i) then ready_ok A' c' i else busy p' = Some i"
    and pc: "pc_ok A' c' p'"
  shows "cinv A' c' (pcs(t := p'))"
  unfolding cinv_def
proof (intro conjI allI impI)
  note D = I [unfolded cinv_def]
  have dj: "sector (entries c ! j) \<noteq> sector (entries c' ! i)" if "j < NUM_ENTRIES" "j \<noteq> i" "sector (entries c ! j) \<noteq> - 1" for j
    using dis that by blast
  show "shape c'" by (rule sh)
  show "length (A' s) = BLOCK_SECTOR_SIZE" if "valid_sector c' s" for s using len that sh(2) by simp
  show "sector (entries c' ! j) \<noteq> sector (entries c' ! k)"
    if "j < NUM_ENTRIES" "k < NUM_ENTRIES" "j \<noteq> k" "sector (entries c' ! j) \<noteq> - 1" for j k
    using D that dj [of j] dj [of k] ent(1) by (cases "j = i"; cases "k = i") auto
  show "if ready (entries c' ! j) then ready_ok A' c' j else \<exists>u. busy ((pcs(t := p')) u) = Some j" if j: "j < NUM_ENTRIES" for j
  proof (cases "j = i")
    case True
    then show ?thesis using rdy by auto
  next
    case False
    have "ready_ok A c j \<Longrightarrow> ready_ok A' c' j"
      using ready_ok_frame [of A c j c' A'] sh(2) ent [OF False] oth dj [OF j False] by blast
    moreover have "busy (pcs t) \<noteq> Some j" using bs(2) False by auto
    ultimately show ?thesis using D j ent(1) [OF False] by (metis fun_upd_apply)
  qed
  show "pc_ok A' c' ((pcs(t := p')) u)" for u
  proof (cases "u = t")
    case False
    have "pc_ok A' c' (pcs u)"
    proof (rule pc_ok_frame [OF _ sh(2)])
      show ok: "pc_ok A c (pcs u)" using D by blast
      fix j assume b: "busy (pcs u) = Some j"
      then have j: "j \<noteq> i" using ex [OF False] by auto
      have "j < NUM_ENTRIES" "sector (entries c ! j) \<noteq> - 1"
        using pc_ok_busy [OF ok b] valid_not_invalid by auto
      then show "entries c' ! j = entries c ! j \<and> cached_data c' ! j = cached_data c ! j
          \<and> A' (sector (entries c ! j)) = A (sector (entries c ! j))
          \<and> on_disk c' (sector (entries c ! j)) = on_disk c (sector (entries c ! j))"
        using ent [OF j] oth dj j by blast
    qed
    then show ?thesis using False by simp
  qed (simp add: pc)
  show "u = v" if "busy ((pcs(t := p')) u) = Some j" "busy ((pcs(t := p')) v) = Some j" for u v j
    using that D bs(1) ex by (cases "u = t"; cases "v = t") auto
  show "on_disk c' s = A' s" if v: "valid_sector c' s" and n: "\<forall>j < NUM_ENTRIES. sector (entries c' ! j) \<noteq> s" for s
  proof -
    have s: "s \<noteq> sector (entries c' ! i)" using n i by auto
    have "on_disk c s = A s"
    proof (cases "s = sector (entries c ! i)")
      case True
      then show ?thesis using old s v sh(2) by simp
    next
      case False
      then have "\<forall>j < NUM_ENTRIES. sector (entries c ! j) \<noteq> s" using n ent(1) by metis
      then show ?thesis using D v sh(2) by simp
    qed
    with oth [OF s] show ?thesis by simp
  qed
qed

lemma cinvD:
  assumes "cinv A c pcs"
  shows "shape c" "length (entries c) = NUM_ENTRIES" "length (cached_data c) = NUM_ENTRIES" "dev_wf c"
    "pc_ok A c (pcs t)" "\<And>s. valid_sector c s \<Longrightarrow> length (A s) = BLOCK_SECTOR_SIZE"
    "\<And>i. i < NUM_ENTRIES \<Longrightarrow> ready (entries c ! i) \<Longrightarrow> ready_ok A c i"
    "\<And>i j. i < NUM_ENTRIES \<Longrightarrow> j < NUM_ENTRIES \<Longrightarrow> i \<noteq> j \<Longrightarrow> sector (entries c ! i) \<noteq> - 1 \<Longrightarrow>
       sector (entries c ! i) \<noteq> sector (entries c ! j)"
    "\<And>s. valid_sector c s \<Longrightarrow> \<forall>i < NUM_ENTRIES. sector (entries c ! i) \<noteq> s \<Longrightarrow> on_disk c s = A s"
    "\<And>t u i. busy (pcs t) = Some i \<Longrightarrow> busy (pcs u) = Some i \<Longrightarrow> t = u"
  using assms unfolding cinv_def shape_def by auto

lemma ready_not_busy: "cinv A c pcs \<Longrightarrow> ready (entries c ! i) \<Longrightarrow> busy (pcs u) \<noteq> Some i"
  using pc_ok_busy [of A c "pcs u"] cinvD(5) by blast

lemma cinv_lock [simp]: "cinv A (c\<lparr>cache_lock := b\<rparr>) pcs = cinv A c pcs"
proof -
  have r: "request_ok (c\<lparr>cache_lock := b\<rparr>) = request_ok c" by (simp add: request_ok_def fun_eq_iff)
  have "pc_ok A (c\<lparr>cache_lock := b\<rparr>) p = pc_ok A c p" for p
    by (cases p) (simp_all add: owned_def r)
  moreover have "ready_ok A (c\<lparr>cache_lock := b\<rparr>) i = ready_ok A c i" for i by (simp add: ready_ok_def)
  moreover have "shape (c\<lparr>cache_lock := b\<rparr>) = shape c" by (simp add: shape_def dev_wf_def)
  ultimately show ?thesis by (simp add: cinv_def)
qed

text \<open>A thread that is not busy may be at any point that is not busy.\<close>

lemma cinv_pc:
  assumes I: "cinv A c pcs" and b: "busy (pcs t) = None" "busy p = None" and p: "pc_ok A c p"
  shows "cinv A c (pcs(t := p))"
proof -
  have ex: "(\<exists>u. busy ((pcs(t := p)) u) = Some i) \<longleftrightarrow> (\<exists>u. busy (pcs u) = Some i)" for i
    using b by (metis fun_upd_apply option.distinct(1))
  have un: "\<forall>u v i. busy ((pcs(t := p)) u) = Some i \<longrightarrow> busy ((pcs(t := p)) v) = Some i \<longrightarrow> u = v"
    using b cinvD(10) [OF I] by (metis fun_upd_apply option.distinct(1))
  have pc: "\<forall>u. pc_ok A c ((pcs(t := p)) u)" using p cinvD(5) [OF I] by simp
  show ?thesis using I pc un unfolding cinv_def ex by blast
qed

subsection \<open>The steps keep the invariant\<close>

lemma cinv_touch:
  assumes I: "cinv A c pcs" and i: "i < NUM_ENTRIES"
  shows "cinv A (touch i c) pcs"
proof -
  have v: "valid_sector (touch i c) = valid_sector c" by (simp add: valid_sector_def fun_eq_iff)
  have "distinct (lru_list (touch i c))" "set (lru_list (touch i c)) = {..<NUM_ENTRIES}"
    using cinvD(1) [OF I] i by (auto simp: touch_def shape_def)
  then have "shape (touch i c)" using cinvD(1) [OF I] by (simp add: shape_def dev_wf_def v)
  moreover have "pc_ok A (touch i c) p = pc_ok A c p" for p
    by (cases p) (simp_all add: owned_def request_ok_cong [OF v] v)
  moreover have "ready_ok A (touch i c) j = ready_ok A c j" for j by (simp add: ready_ok_def v)
  ultimately show ?thesis using I by (simp add: cinv_def v)
qed

lemma clean_begin_step:
  assumes I: "cinv A c pcs" and lk: "cache_lock c" and t: "pcs t = Access r" and i: "i < NUM_ENTRIES"
    and m: "ready (entries c ! i)" "dirty (entries c ! i)"
  shows "\<exists>c'. clean_begin i c = Some c' \<and> \<not> cache_lock c' \<and> cinv A c' (pcs(t := Cleaning r i)) \<and> valid_sector c' = valid_sector c"
proof -
  define c' where "c' = c\<lparr>entries := (entries c)[i := (entries c ! i)\<lparr>ready := False\<rparr>], cache_lock := False\<rparr>"
  have run: "clean_begin i c = Some c'"
    using lk m(2) i cinvD(2) [OF I] by (simp add: clean_begin_def upd_entry_def lock_release_cache_def c'_def)
  have v: "valid_sector c' = valid_sector c" by (simp add: c'_def valid_sector_def fun_eq_iff)
  have e: "entries c' ! i = (entries c ! i)\<lparr>ready := False\<rparr>" "cached_data c' = cached_data c" "on_disk c' s = on_disk c s" for s
    using i cinvD(2) [OF I] by (simp_all add: c'_def)
  have ro: "ready_ok A c i" using cinvD(7) [OF I i m(1)] .
  have "cinv A c' (pcs(t := Cleaning r i))"
  proof (rule cinv_change [OF I i])
    show "shape c'" using cinvD(1) [OF I] by (simp add: shape_def dev_wf_def v) (simp add: c'_def)
    show "pc_ok A c' (Cleaning r i)"
      using ro m(2) i cinvD(5) [OF I, of t] t by (simp add: owned_def e v request_ok_cong [OF v] ready_ok_def)
  qed (use i t e v cinvD [OF I] ready_not_busy [OF I m(1)] in \<open>auto simp: c'_def\<close>)
  with run v show ?thesis by (auto simp: c'_def)
qed

lemma clean_write_step:
  assumes I: "cinv A c pcs" and t: "pcs t = Cleaning r i"
  shows "\<exists>c'. clean_write i c = Some c' \<and> cache_lock c' = cache_lock c \<and> cinv A c' (pcs(t := Cleaned r i))"
proof -
  let ?m = "entries c ! i" and ?b = "fs_device c"
  have p: "owned c r i" "dirty ?m" "cached_data c ! i = A (sector ?m)" using cinvD(5) [OF I, of t] t by simp_all
  then have i: "i < NUM_ENTRIES" and vs: "valid_sector c (sector ?m)" by (simp_all add: owned_def)
  have ld: "length (cached_data c ! i) = BLOCK_SECTOR_SIZE" using cinvD(6) [OF I vs] p(3) by simp
  obtain sys where sys: "block_write (dev c) ?b (sector ?m) (cached_data c ! i) = Some sys" "same_devs (dev c) sys"
      and cn: "\<And>s. content sys ?b s = (if s = sector ?m then cached_data c ! i else on_disk c s)"
    using block_write_content [of "dev c" ?b "sector ?m" "cached_data c ! i"] cinvD(4) [OF I] vs ld
    by (auto simp: dev_wf_def valid_sector_def place_inj dev_ok_def)
  define c' where "c' = c\<lparr>dev := sys\<rparr>"
  have run: "clean_write i c = Some c'"
    using sys(1) i cinvD(2,3) [OF I] by (simp add: clean_write_def c'_def)
  have v: "dev_wf c'" "valid_sector c' = valid_sector c"
    by (rule dev_wf_after [OF cinvD(4) [OF I] sys(2)]; use cn ld cinvD(4) [OF I] in \<open>simp add: c'_def dev_wf_def\<close>)+
  have od: "on_disk c' s = (if s = sector ?m then A (sector ?m) else on_disk c s)" for s
    using cn p(3) by (simp add: c'_def)
  have e: "entries c' = entries c" "cached_data c' = cached_data c" by (simp_all add: c'_def)
  have "cinv A c' (pcs(t := Cleaned r i))"
  proof (rule cinv_change [OF I i])
    show "shape c'" using cinvD(1) [OF I] v(1) by (simp add: shape_def c'_def)
    show "pc_ok A c' (Cleaned r i)" using p by (simp add: owned_def e v(2) request_ok_cong [OF v(2)] od)
    show "if ready (entries c' ! i) then ready_ok A c' i else busy (Cleaned r i) = Some i"
      using p(1) by (simp add: e owned_def)
  qed (use t e v od cinvD [OF I] valid_not_invalid [OF vs] i in auto)
  with run show ?thesis by (auto simp: c'_def)
qed

lemma clean_end_step:
  assumes I: "cinv A c pcs" and t: "pcs t = Cleaned r i" and lk: "\<not> cache_lock c"
  shows "\<exists>c'. clean_end i c = Some c' \<and> cache_lock c' \<and> cinv A c' (pcs(t := Access r))"
proof -
  let ?m = "entries c ! i"
  have p: "owned c r i" "cached_data c ! i = A (sector ?m)" "on_disk c (sector ?m) = A (sector ?m)"
    using cinvD(5) [OF I, of t] t by simp_all
  then have i: "i < NUM_ENTRIES" and vs: "valid_sector c (sector ?m)" by (simp_all add: owned_def)
  define c' where "c' = c\<lparr>cache_lock := True, entries := (entries c)[i := ?m\<lparr>ready := True, dirty := False\<rparr>]\<rparr>"
  have run: "clean_end i c = Some c'"
    using lk i cinvD(2) [OF I] by (simp add: clean_end_def lock_acquire_cache_def upd_entry_def c'_def)
  have v: "valid_sector c' = valid_sector c" by (simp add: c'_def valid_sector_def fun_eq_iff)
  have e: "entries c' ! i = ?m\<lparr>ready := True, dirty := False\<rparr>" "cached_data c' = cached_data c"
    "on_disk c' s = on_disk c s" for s
    using i cinvD(2) [OF I] by (simp_all add: c'_def)
  have "cinv A c' (pcs(t := Access r))"
  proof (rule cinv_change [OF I i])
    show "shape c'" using cinvD(1) [OF I] by (simp add: shape_def dev_wf_def v) (simp add: c'_def)
    show "pc_ok A c' (Access r)" using p(1) by (simp add: owned_def request_ok_cong [OF v])
    show "if ready (entries c' ! i) then ready_ok A c' i else busy (Access r) = Some i"
      using p cinvD(6) [OF I vs] by (simp add: ready_ok_def e v owned_def)
    show "busy (pcs u) \<noteq> Some i" if "u \<noteq> t" for u using cinvD(10) [OF I] t that by fastforce
  qed (use t e v cinvD [OF I] i in \<open>auto simp: c'_def\<close>)
  with run show ?thesis by (auto simp: c'_def)
qed

lemma replace_begin_step:
  assumes I: "cinv A c pcs" and lk: "cache_lock c" and t: "pcs t = Access r" and i: "i < NUM_ENTRIES"
    and m: "ready (entries c ! i)" "\<not> dirty (entries c ! i)" and f: "find_entry c (rsector r) = None"
  shows "\<exists>c'. replace_begin i (rsector r) c = Some c' \<and> \<not> cache_lock c' \<and> cinv A c' (pcs(t := Loading r i))"
proof -
  let ?m = "entries c ! i" and ?s = "rsector r"
  define c' where "c' = c\<lparr>entries := (entries c)[i := ?m\<lparr>sector := ?s, ready := False\<rparr>], cache_lock := False\<rparr>"
  have run: "replace_begin i ?s c = Some c'"
    using lk m(2) i cinvD(2) [OF I] by (simp add: replace_begin_def upd_entry_def lock_release_cache_def c'_def)
  have v: "valid_sector c' = valid_sector c" by (simp add: c'_def valid_sector_def fun_eq_iff)
  have e: "entries c' ! i = ?m\<lparr>sector := ?s, ready := False\<rparr>" "cached_data c' = cached_data c" "on_disk c' s = on_disk c s" for s
    using i cinvD(2) [OF I] by (simp_all add: c'_def)
  have r: "request_ok c r" and vs: "valid_sector c ?s" using cinvD(5) [OF I, of t] t by (simp_all add: request_ok_def)
  have ns: "\<forall>j < NUM_ENTRIES. sector (entries c ! j) \<noteq> ?s" using f find_entry_None by blast
  have ro: "ready_ok A c i" using cinvD(7) [OF I i m(1)] .
  have "cinv A c' (pcs(t := Loading r i))"
  proof (rule cinv_change [OF I i])
    show "shape c'" using cinvD(1) [OF I] by (simp add: shape_def dev_wf_def v) (simp add: c'_def)
    show "pc_ok A c' (Loading r i)"
      using i m(2) r vs cinvD(9) [OF I vs ns] by (simp add: owned_def e v request_ok_cong [OF v])
    show "on_disk c (sector ?m) = A (sector ?m)" if "valid_sector c (sector ?m)"
      using ro m(2) valid_not_invalid [OF that] by (auto simp: ready_ok_def)
    show "sector (entries c ! j) \<noteq> sector (entries c' ! i)" if "j < NUM_ENTRIES" for j using ns that by (simp add: e)
  qed (use i t e v cinvD(6) [OF I] ready_not_busy [OF I m(1)] in \<open>auto simp: c'_def\<close>)
  with run show ?thesis by (auto simp: c'_def)
qed

lemma replace_read_step:
  assumes I: "cinv A c pcs" and t: "pcs t = Loading r i"
  shows "\<exists>c'. replace_read i (rsector r) c = Some c' \<and> cache_lock c' = cache_lock c \<and> cinv A c' (pcs(t := Loaded r i))"
proof -
  let ?m = "entries c ! i" and ?b = "fs_device c" and ?s = "rsector r"
  have p: "owned c r i" "\<not> dirty ?m" "sector ?m = ?s" "on_disk c ?s = A ?s" using cinvD(5) [OF I, of t] t by auto
  then have i: "i < NUM_ENTRIES" and vs: "valid_sector c ?s" by (simp_all add: owned_def)
  obtain sys where sys: "block_read (dev c) ?b ?s = Some (on_disk c ?s, sys)" "same_devs (dev c) sys"
      "platter sys = platter (dev c)"
    using block_read_content [of "dev c" ?b ?s] cinvD(4) [OF I] vs by (auto simp: dev_wf_def valid_sector_def)
  have cn: "content sys ?b s = on_disk c s" for s
    using sys(2,3) same_devs_place [OF sys(2)] cinvD(4) [OF I] by (simp add: content_def dev_wf_def dev_ok_def)
  define c' where "c' = c\<lparr>dev := sys, cached_data := (cached_data c)[i := on_disk c ?s]\<rparr>"
  have run: "replace_read i ?s c = Some c'"
    using sys(1) i cinvD(2,3) [OF I] by (simp add: replace_read_def c'_def)
  have v: "dev_wf c'" "valid_sector c' = valid_sector c"
    by (rule dev_wf_after [OF cinvD(4) [OF I] sys(2)]; use cn cinvD(4) [OF I] in \<open>simp add: c'_def dev_wf_def\<close>)+
  have od: "on_disk c' s = on_disk c s" for s using cn by (simp add: c'_def)
  have e: "entries c' = entries c" "cached_data c' ! i = A ?s" using i cinvD(3) [OF I] p(4) by (simp_all add: c'_def)
  have "cinv A c' (pcs(t := Loaded r i))"
  proof (rule cinv_change [OF I i])
    show "shape c'" using cinvD(1) [OF I] v(1) by (simp add: shape_def c'_def)
    show "pc_ok A c' (Loaded r i)" using p by (simp add: owned_def e v(2) request_ok_cong [OF v(2)] od)
    show "if ready (entries c' ! i) then ready_ok A c' i else busy (Loaded r i) = Some i"
      using p(1) by (simp add: e owned_def)
    show "cached_data c' ! j = cached_data c ! j" if "j \<noteq> i" for j using that by (simp add: c'_def)
    show "busy (pcs u) \<noteq> Some i" if "u \<noteq> t" for u using cinvD(10) [OF I] t that by fastforce
    show "sector (entries c ! j) \<noteq> sector (entries c' ! i)"
      if "j < NUM_ENTRIES" "j \<noteq> i" "sector (entries c ! j) \<noteq> - 1" for j
      using cinvD(8) [OF I that(1) i that(2,3)] by (simp add: e)
  qed (use t e v od cinvD(6) [OF I] in auto)
  with run show ?thesis by (auto simp: c'_def)
qed

lemma replace_end_step:
  assumes I: "cinv A c pcs" and t: "pcs t = Loaded r i" and lk: "\<not> cache_lock c"
  shows "\<exists>c'. replace_end i c = Some c' \<and> cache_lock c' \<and> cinv A c' (pcs(t := Access r))"
proof -
  let ?m = "entries c ! i"
  have p: "owned c r i" "cached_data c ! i = A (sector ?m)" "on_disk c (sector ?m) = A (sector ?m)" "\<not> dirty ?m"
    using cinvD(5) [OF I, of t] t by auto
  then have i: "i < NUM_ENTRIES" and vs: "valid_sector c (sector ?m)" by (simp_all add: owned_def)
  define c' where "c' = c\<lparr>cache_lock := True, entries := (entries c)[i := ?m\<lparr>ready := True\<rparr>]\<rparr>"
  have run: "replace_end i c = Some c'"
    using lk i cinvD(2) [OF I] by (simp add: replace_end_def lock_acquire_cache_def upd_entry_def c'_def)
  have v: "valid_sector c' = valid_sector c" by (simp add: c'_def valid_sector_def fun_eq_iff)
  have e: "entries c' ! i = ?m\<lparr>ready := True\<rparr>" "cached_data c' = cached_data c" "on_disk c' s = on_disk c s" for s
    using i cinvD(2) [OF I] by (simp_all add: c'_def)
  have "cinv A c' (pcs(t := Access r))"
  proof (rule cinv_change [OF I i])
    show "shape c'" using cinvD(1) [OF I] by (simp add: shape_def dev_wf_def v) (simp add: c'_def)
    show "pc_ok A c' (Access r)" using p(1) by (simp add: owned_def request_ok_cong [OF v])
    show "if ready (entries c' ! i) then ready_ok A c' i else busy (Access r) = Some i"
      using p cinvD(6) [OF I vs] by (simp add: ready_ok_def e v owned_def)
    show "busy (pcs u) \<noteq> Some i" if "u \<noteq> t" for u using cinvD(10) [OF I] t that by fastforce
  qed (use t e v cinvD [OF I] i in \<open>auto simp: c'_def\<close>)
  with run show ?thesis by (auto simp: c'_def)
qed

lemma copy_in_step:
  assumes I: "cinv A c pcs" and t: "pcs t = Access (Wr s b ofs len)" and i: "i < NUM_ENTRIES"
    and m: "ready (entries c ! i)" "sector (entries c ! i) = s"
  shows "\<exists>c'. copy_in i b ofs len c = Some c' \<and> cache_lock c' = cache_lock c
    \<and> cinv (A(s := splice ofs (take len b) (A s))) c' (pcs(t := Idle))"
proof -
  let ?m = "entries c ! i" and ?d = "splice ofs (take len b) (cached_data c ! i)"
  have r: "valid_sector c s" "ofs + len \<le> BLOCK_SECTOR_SIZE" "len \<le> length b"
    using cinvD(5) [OF I, of t] t by (simp_all add: request_ok_def)
  have ro: "length (cached_data c ! i) = BLOCK_SECTOR_SIZE" "cached_data c ! i = A s"
    using cinvD(7) [OF I i m(1)] valid_not_invalid [OF r(1)] m(2) by (auto simp: ready_ok_def)
  define c' where "c' = c\<lparr>cached_data := (cached_data c)[i := ?d], entries := (entries c)[i := ?m\<lparr>dirty := True\<rparr>]\<rparr>"
  have run: "copy_in i b ofs len c = Some c'"
    using i r ro cinvD(2,3) [OF I] by (simp add: copy_in_def upd_entry_def c'_def)
  have v: "valid_sector c' = valid_sector c" by (simp add: c'_def valid_sector_def fun_eq_iff)
  have e: "entries c' ! i = ?m\<lparr>dirty := True\<rparr>" "cached_data c' ! i = ?d" "on_disk c' s' = on_disk c s'" for s'
    using i cinvD(2,3) [OF I] by (simp_all add: c'_def)
  have "cinv (A(s := splice ofs (take len b) (A s))) c' (pcs(t := Idle))"
  proof (rule cinv_change [OF I i])
    show "shape c'" using cinvD(1) [OF I] by (simp add: shape_def dev_wf_def v) (simp add: c'_def)
    show "if ready (entries c' ! i) then ready_ok (A(s := splice ofs (take len b) (A s))) c' i else busy Idle = Some i"
      using m r ro by (simp add: ready_ok_def e v)
    show "sector (entries c ! j) \<noteq> sector (entries c' ! i)"
      if "j < NUM_ENTRIES" "j \<noteq> i" "sector (entries c ! j) \<noteq> - 1" for j
      using cinvD(8) [OF I that(1) i that(2,3)] by (simp add: e)
  qed (use t r ro m e v cinvD(6) [OF I] ready_not_busy [OF I m(1)] in \<open>auto simp: c'_def\<close>)
  with run show ?thesis by (auto simp: c'_def)
qed

lemma finish_step:
  assumes I: "cinv A c pcs" and lk: "cache_lock c" and t: "pcs t = Access r" and i: "i < NUM_ENTRIES"
    and m: "ready (entries c ! i)" "sector (entries c ! i) = rsector r"
  shows "\<exists>ev c' A'. finish r i c = Some (ev, c') \<and> \<not> cache_lock c' \<and> atomic A ev = Some A' \<and> cinv A' c' (pcs(t := Idle))"
proof (cases r)
  case (Rd s ofs len)
  have r: "valid_sector c s" "ofs + len \<le> BLOCK_SECTOR_SIZE" using cinvD(5) [OF I, of t] t Rd by (simp_all add: request_ok_def)
  have "length (cached_data c ! i) = BLOCK_SECTOR_SIZE" "cached_data c ! i = A s"
    using cinvD(7) [OF I i m(1)] valid_not_invalid [OF r(1)] m(2) Rd by (auto simp: ready_ok_def)
  then have "finish r i c = Some (Read s ofs len (slice ofs len (A s)), c\<lparr>cache_lock := False\<rparr>)"
    using Rd r i lk cinvD(3) [OF I] by (simp add: copy_out_def lock_release_cache_def)
  with cinv_pc [OF I, of t Idle] t show ?thesis by simp
next
  case (Wr s b ofs len)
  obtain c' where "copy_in i b ofs len c = Some c'" "cache_lock c' = cache_lock c"
      "cinv (A(s := splice ofs (take len b) (A s))) c' (pcs(t := Idle))"
    using copy_in_step [OF I, of t s b ofs len i] i m t Wr by auto
  with Wr lk show ?thesis by (simp add: lock_release_cache_def)
qed

text \<open>One loop iteration: it never fails, it is one atomic action, and it waits only when some
  other thread is at work on an entry.\<close>

lemma access_iter_step:
  assumes I: "cinv A c pcs" and lk: "cache_lock c" and t: "pcs t = Access r"
  shows "\<exists>ev p c' A'. access_iter r c = Some (ev, p, c') \<and> \<not> cache_lock c' \<and> atomic A ev = Some A'
    \<and> cinv A' c' (pcs(t := p)) \<and> (p = Access r \<longrightarrow> (\<exists>u i. busy (pcs u) = Some i)) \<and> (busy p = None \<longrightarrow> p = Idle \<or> p = Access r)
    \<and> (\<forall>r i. p \<noteq> Cleaned r i \<and> p \<noteq> Loaded r i)"
proof -
  have rel: "lock_release_cache c = Some (c\<lparr>cache_lock := False\<rparr>)" using lk by (simp add: lock_release_cache_def)
  have wait: ?thesis if "access_iter r c = Some (Silent, Access r, c\<lparr>cache_lock := False\<rparr>)" "\<exists>u i. busy (pcs u) = Some i"
  proof -
    have "pcs(t := Access r) = pcs" using t by auto
    then show ?thesis using that I by (intro exI [of _ Silent] exI [of _ "Access r"] exI [of _ "c\<lparr>cache_lock := False\<rparr>"] exI [of _ A]) simp
  qed
  have nr: "\<exists>u. busy (pcs u) = Some i" if "i < NUM_ENTRIES" "\<not> ready (entries c ! i)" for i
    using I that unfolding cinv_def by meson
  show ?thesis
  proof (cases "find_entry c (rsector r)")
    case (Some i)
    then have i: "i < NUM_ENTRIES" "sector (entries c ! i) = rsector r" using find_entry_Some by auto
    show ?thesis
    proof (cases "ready (entries c ! i)")
      case False
      then have "access_iter r c = Some (Silent, Access r, c\<lparr>cache_lock := False\<rparr>)"
        using Some i(1) lk rel cinvD(2) [OF I] by (simp add: access_iter_def)
      then show ?thesis using wait nr [OF i(1) False] by blast
    next
      case True
      obtain ev c' A' where "finish r i (touch i c) = Some (ev, c')" "\<not> cache_lock c'" "atomic A ev = Some A'"
          "cinv A' c' (pcs(t := Idle))"
        using finish_step [OF cinv_touch [OF I i(1)] _ t i(1)] lk True i(2) by auto
      moreover have "access_iter r c = Some (ev, Idle, c')" if "finish r i (touch i c) = Some (ev, c')"
        using that Some i(1) lk True cinvD(2) [OF I] by (simp add: access_iter_def)
      ultimately show ?thesis by (intro exI [of _ ev] exI [of _ Idle] exI [of _ c'] exI [of _ A']) simp
    qed
  next
    case None
    show ?thesis
    proof (cases "List.find (\<lambda>i. ready (entries c ! i)) (rev (lru_list c))")
      case no: None
      then have "access_iter r c = Some (Silent, Access r, c\<lparr>cache_lock := False\<rparr>)"
        using None lk rel by (simp add: access_iter_def get_eviction_candidate_def)
      moreover have "0 \<in> set (lru_list c)" using cinvD(1) [OF I] by (simp add: shape_def NUM_ENTRIES_def)
      then have "\<not> ready (entries c ! 0)" using no by (auto simp: find_None_iff)
      ultimately show ?thesis using wait nr [of 0] by (auto simp: NUM_ENTRIES_def)
    next
      case (Some i)
      then have "ready (entries c ! i)" "i \<in> set (rev (lru_list c))"
        unfolding find_Some_iff by (auto simp del: set_rev)
      then have i: "i < NUM_ENTRIES" "ready (entries c ! i)" using cinvD(1) [OF I] by (auto simp: shape_def)
      show ?thesis
      proof (cases "dirty (entries c ! i)")
        case True
        obtain c' where "clean_begin i c = Some c'" "\<not> cache_lock c'" "cinv A c' (pcs(t := Cleaning r i))"
          using clean_begin_step [OF I lk t i True] by blast
        with None Some lk i True cinvD(2) [OF I] show ?thesis
          by (intro exI [of _ Silent] exI [of _ "Cleaning r i"] exI [of _ c'] exI [of _ A])
            (simp add: access_iter_def get_eviction_candidate_def)
      next
        case False
        obtain c' where "replace_begin i (rsector r) c = Some c'" "\<not> cache_lock c'" "cinv A c' (pcs(t := Loading r i))"
          using replace_begin_step [OF I lk t i False None] by blast
        with None Some lk i False cinvD(2) [OF I] show ?thesis
          by (intro exI [of _ Silent] exI [of _ "Loading r i"] exI [of _ c'] exI [of _ A])
            (simp add: access_iter_def get_eviction_candidate_def)
      qed
    qed
  qed
qed

lemma access_iter_pc: "access_iter r c = Some (ev, p, c') \<Longrightarrow> p \<noteq> Cleaned r' i \<and> p \<noteq> Loaded r' i"
  by (auto simp: access_iter_def bind_eq_Some_conv split: option.splits if_splits)

text \<open>Every step of every thread.\<close>

lemma next_step_ok:
  assumes I: "cinv A c pcs" and lk: "\<not> cache_lock c"
  shows "\<exists>ev p c' A'. next_step (pcs t) c = Some (ev, p, c') \<and> \<not> cache_lock c' \<and> atomic A ev = Some A'
    \<and> cinv A' c' (pcs(t := p))
    \<and> (p = pcs t \<longrightarrow> pcs t = Idle \<or> (\<exists>u i. busy (pcs u) = Some i \<and> u \<noteq> t))"
proof (cases "pcs t")
  case Idle
  then have "pcs(t := Idle) = pcs" by auto
  with Idle I lk show ?thesis by (intro exI [of _ Silent] exI [of _ Idle] exI [of _ c] exI [of _ A]) simp
next
  case (Access r)
  let ?c = "c\<lparr>cache_lock := True\<rparr>"
  have I': "cinv A ?c pcs" "cache_lock ?c" using I by simp_all
  from access_iter_step [OF I' Access] obtain ev p c' A' where
    r: "access_iter r ?c = Some (ev, p, c')" "\<not> cache_lock c'" "atomic A ev = Some A'"
      "cinv A' c' (pcs(t := p))" "p = Access r \<longrightarrow> (\<exists>u i. busy (pcs u) = Some i)" by blast
  have "next_step (pcs t) c = Some (ev, p, c')" using Access lk r(1) by (simp add: lock_acquire_cache_def)
  moreover have "u \<noteq> t" if "busy (pcs u) = Some i" for u i using that Access by auto
  ultimately show ?thesis using r Access by blast
next
  case (Cleaning r i)
  from clean_write_step [OF I Cleaning] obtain c' where
    "clean_write i c = Some c'" "cache_lock c' = cache_lock c" "cinv A c' (pcs(t := Cleaned r i))" by blast
  with Cleaning lk show ?thesis
    by (intro exI [of _ Silent] exI [of _ "Cleaned r i"] exI [of _ c'] exI [of _ A]) simp
next
  case (Cleaned r i)
  from clean_end_step [OF I Cleaned lk] obtain c1 where
    c1: "clean_end i c = Some c1" "cache_lock c1" "cinv A c1 (pcs(t := Access r))" by blast
  have a: "(pcs(t := Access r)) t = Access r" by simp
  from access_iter_step [OF c1(3,2) a] obtain ev p c' A' where
    "access_iter r c1 = Some (ev, p, c')" "\<not> cache_lock c'" "atomic A ev = Some A'" "cinv A' c' (pcs(t := p))"
    "\<forall>r i. p \<noteq> Cleaned r i \<and> p \<noteq> Loaded r i" unfolding fun_upd_upd by blast
  with Cleaned c1(1) show ?thesis by auto
next
  case (Loading r i)
  from replace_read_step [OF I Loading] obtain c' where
    "replace_read i (rsector r) c = Some c'" "cache_lock c' = cache_lock c" "cinv A c' (pcs(t := Loaded r i))" by blast
  with Loading lk show ?thesis
    by (intro exI [of _ Silent] exI [of _ "Loaded r i"] exI [of _ c'] exI [of _ A]) simp
next
  case (Loaded r i)
  from replace_end_step [OF I Loaded lk] obtain c1 where
    c1: "replace_end i c = Some c1" "cache_lock c1" "cinv A c1 (pcs(t := Access r))" by blast
  have a: "(pcs(t := Access r)) t = Access r" by simp
  from access_iter_step [OF c1(3,2) a] obtain ev p c' A' where
    "access_iter r c1 = Some (ev, p, c')" "\<not> cache_lock c'" "atomic A ev = Some A'" "cinv A' c' (pcs(t := p))"
    "\<forall>r i. p \<noteq> Cleaned r i \<and> p \<noteq> Loaded r i" unfolding fun_upd_upd by blast
  with Loaded c1(1) show ?thesis by auto
qed

lemma cinv_initial: "quiet c \<Longrightarrow> cinv (view c) c (\<lambda>_. Idle)"
proof -
  assume q: "quiet c"
  then have inv: "cache_inv c" by (simp add: quiet_def)
  have "ready (entries c ! i) \<and> ready_ok (view c) c i" if i: "i < NUM_ENTRIES" for i
  proof -
    have ok: "entry_ok c i" using inv i by (simp add: cache_inv_def)
    have "view c (sector (entries c ! i)) = cached_data c ! i" if "sector (entries c ! i) \<noteq> - 1"
      using find_entry_eq [OF inv i refl that] by (simp add: view_def)
    with ok show ?thesis using valid_not_invalid by (auto simp: entry_ok_def ready_ok_def)
  qed
  moreover have "on_disk c s = view c s" if "\<forall>i < NUM_ENTRIES. sector (entries c ! i) \<noteq> s" for s
  proof -
    have "find_entry c s = None" using that find_entry_None by blast
    then show ?thesis by (simp add: view_def)
  qed
  moreover have "shape c" using inv by (simp add: shape_def cache_inv_def)
  moreover have "\<forall>i < NUM_ENTRIES. \<forall>j < NUM_ENTRIES. i \<noteq> j \<longrightarrow> sector (entries c ! i) \<noteq> - 1 \<longrightarrow>
        sector (entries c ! i) \<noteq> sector (entries c ! j)" using inv by (auto simp: cache_inv_def)
  ultimately show ?thesis using view_length [OF inv] by (simp add: cinv_def)
qed

lemma cruns_cinv:
  assumes "cruns st evs st'" and "st = (c, \<lambda>_. Idle)" and "quiet c"
  shows "\<exists>A. atomics (view c) evs = Some A \<and> cinv A (fst st') (snd st') \<and> \<not> cache_lock (fst st')"
  using assms
proof (induction rule: cruns.induct)
  case (cruns_nil st)
  then show ?case using cinv_initial by (auto simp: quiet_def)
next
  case (cruns_snoc st evs st' ev st'')
  then obtain A where A: "atomics (view c) evs = Some A" "cinv A (fst st') (snd st')" "\<not> cache_lock (fst st')" by blast
  from cruns_snoc.hyps(2) show ?case
  proof cases
    case (call pcs t c1 r)
    have "cinv A c1 (pcs(t := Access r))"
      using cinv_pc [of A c1 pcs t "Access r"] A call by auto
    with A call show ?thesis by (simp add: atomics_snoc fun_upd_def)
  next
    case (run pcs t c1 p c')
    with A next_step_ok [of A c1 pcs t] show ?thesis by (auto simp: atomics_snoc fun_upd_def)
  qed
qed

subsection \<open>Properties\<close>

text \<open>C12: The concurrent buffer cache is linearizable. In every run of any number of threads from an idle
  cache, the completed reads and writes, in the order in which they complete, are a run of an
  atomic store of sectors that starts with the contents the cache shows: each read returns exactly
  the bytes that the writes completed before it have left, although entries are written back,
  evicted and loaded with the lock released.\<close>

theorem bufcache_linearizable:
  assumes "quiet c" and "cruns (c, \<lambda>_. Idle) evs (c', pcs)"
  shows "\<exists>A. atomics (view c) evs = Some A \<and> cinv A c' pcs"
  using cruns_cinv [OF assms(2) refl assms(1)] by auto


text \<open>A run in which thread 1 has called \<open>bufcache_read\<close> on an empty cache.\<close>

definition called :: "nat \<Rightarrow> pc" where
  "called = (\<lambda>_. Idle)(1 := Access (Rd 7 0 4))"

lemma called_run: "cruns (bufcache_init zero_disk 0, \<lambda>_. Idle) [Silent] (bufcache_init zero_disk 0, called)"
proof -
  have "request_ok (bufcache_init zero_disk 0) (Rd 7 0 4)"
    by (simp add: request_ok_def zero_disk_quiet BLOCK_SECTOR_SIZE_def)
  then have "cstep (bufcache_init zero_disk 0, \<lambda>_. Idle) Silent (bufcache_init zero_disk 0, called)"
    unfolding called_def by (intro cstep.call) simp_all
  then show ?thesis using cruns_snoc [OF cruns_nil] by fastforce
qed

theorem bufcache_linearizable_witness:
  "\<exists>A. atomics (view (bufcache_init zero_disk 0)) [Silent] = Some A \<and> cinv A (bufcache_init zero_disk 0) called"
  by (rule bufcache_linearizable [OF zero_disk_quiet(1) called_run])


end
