(* ===== verification/Inode.thy ===== *)
theory Inode
  imports Bufcache Bitmap "HOL-Library.Signed_Division"
begin

text \<open>
  Inodes and the free map: \<open>filesys/inode.c\<close>, \<open>filesys/free-map.c\<close>, and the parts of
  \<open>filesys/file.c\<close> and \<open>lib/kernel/bitmap.c\<close> between them. The two modules call each other:
  extending a file allocates sectors, which writes the free map to its own file. The recursion
  runs on fuel; a fuel of 2 is enough for every file but the free map's own.

  \<open>off_t\<close> is a signed 32-bit integer, here \<open>int\<close>; a sum that leaves its range is undefined in C
  and has no result here. Conditions that one thread waits for and no other can establish have no
  result either. An inode in memory is its address in a heap; what \<open>malloc\<close> returns is a list of future
  results in the state.
\<close>

subsection \<open>On-disk inodes\<close>

definition INODE_MAGIC :: u32 where
  "INODE_MAGIC = 0x494e4f44"

definition NUM_DIRECT :: nat where
  "NUM_DIRECT = 123"

definition NUM_BLOCKS_IN_INDIRECT :: nat where
  "NUM_BLOCKS_IN_INDIRECT = 128"

record inode_disk =
  dlength :: int
  isdir :: u32
  direct_ptrs :: "block_sector list"
  singly_indirect_ptr :: block_sector
  doubly_indirect_ptr :: block_sector
  magic :: u32

text \<open>The structure as the sector it fills, and back.\<close>

definition encode_inode :: "inode_disk \<Rightarrow> bytes" where
  "encode_inode d = bytes_of ([word_of_int (dlength d), isdir d] @ direct_ptrs d
     @ [singly_indirect_ptr d, doubly_indirect_ptr d, magic d])"

definition decode_inode :: "bytes \<Rightarrow> inode_disk" where
  "decode_inode b = (let ws = words_of b in
     \<lparr>dlength = sint (ws ! 0), isdir = ws ! 1, direct_ptrs = take NUM_DIRECT (drop 2 ws),
      singly_indirect_ptr = ws ! 125, doubly_indirect_ptr = ws ! 126, magic = ws ! 127\<rparr>)"

definition off_ok :: "int \<Rightarrow> bool" where
  "off_ok x \<longleftrightarrow> - (2 ^ 31) \<le> x \<and> x < 2 ^ 31"

definition bytes_to_sectors :: "int \<Rightarrow> nat" where
  "bytes_to_sectors sz = nat ((sz + int BLOCK_SECTOR_SIZE - 1) div int BLOCK_SECTOR_SIZE)"

definition NO_SECTOR :: block_sector where
  "NO_SECTOR = - 1"

text \<open>A block of 128 sector numbers, read through the cache.\<close>

definition read_indirect :: "block_sector \<Rightarrow> bufcache \<Rightarrow> (block_sector list \<times> bufcache) option" where
  "read_indirect s c = do {
     (b, c) \<leftarrow> bufcache_read s 0 BLOCK_SECTOR_SIZE c;
     Some (words_of b, c) }"

definition write_indirect :: "block_sector \<Rightarrow> block_sector list \<Rightarrow> bufcache \<Rightarrow> bufcache option" where
  "write_indirect s ws c = bufcache_write s (bytes_of ws) 0 BLOCK_SECTOR_SIZE c"

definition byte_to_sector :: "inode_disk \<Rightarrow> int \<Rightarrow> bufcache \<Rightarrow> (block_sector \<times> bufcache) option" where
  "byte_to_sector d pos c =
     (if pos < dlength d then do {
        let block_num = pos sdiv int BLOCK_SECTOR_SIZE;
        guard (0 \<le> block_num);
        let block_num = nat block_num;
        if block_num < NUM_DIRECT then do {
          s \<leftarrow> array_get (direct_ptrs d) block_num;
          Some (s, c) }
        else if block_num < NUM_DIRECT + NUM_BLOCKS_IN_INDIRECT then do {
          (indirect, c) \<leftarrow> read_indirect (singly_indirect_ptr d) c;
          s \<leftarrow> array_get indirect (block_num - NUM_DIRECT);
          Some (s, c) }
        else do {
          (doubly_indirect, c) \<leftarrow> read_indirect (doubly_indirect_ptr d) c;
          let block_num = block_num - (NUM_DIRECT + NUM_BLOCKS_IN_INDIRECT);
          i \<leftarrow> array_get doubly_indirect (block_num div NUM_BLOCKS_IN_INDIRECT);
          (indirect, c) \<leftarrow> read_indirect i c;
          s \<leftarrow> array_get indirect (block_num mod BLOCK_SECTOR_SIZE);
          Some (s, c) } }
      else Some (NO_SECTOR, c))"

subsection \<open>State of the file system\<close>

record inode =
  isector :: block_sector
  open_cnt :: int
  removed :: bool
  extending :: bool
  deny_write_cnt :: int
  inode_lock :: bool
  idata :: inode_disk

record file_struct =
  finode :: nat
  fpos :: int
  fdeny_write :: bool

record fs =
  cache :: bufcache
  inodes :: "nat \<Rightarrow> inode option"
  open_inodes :: "nat list"
  open_inodes_lock :: bool
  free_map :: bitmap
  free_map_file :: "file_struct option"
  free_map_lock :: bool
  mallocs :: "nat option list"

definition malloc :: "fs \<Rightarrow> nat option \<times> fs" where
  "malloc st = (case mallocs st of [] \<Rightarrow> (None, st) | r # rs \<Rightarrow> (r, st\<lparr>mallocs := rs\<rparr>))"

definition upd_inode :: "nat \<Rightarrow> (inode \<Rightarrow> inode) \<Rightarrow> fs \<Rightarrow> fs option" where
  "upd_inode a f st = do {
     i \<leftarrow> inodes st a;
     Some (st\<lparr>inodes := (inodes st)(a \<mapsto> f i)\<rparr>) }"

definition lock_inode :: "nat \<Rightarrow> fs \<Rightarrow> fs option" where
  "lock_inode a st = do {
     i \<leftarrow> inodes st a;
     guard (\<not> inode_lock i);
     upd_inode a (\<lambda>i. i\<lparr>inode_lock := True\<rparr>) st }"

definition unlock_inode :: "nat \<Rightarrow> fs \<Rightarrow> fs option" where
  "unlock_inode a st = do {
     i \<leftarrow> inodes st a;
     guard (inode_lock i);
     upd_inode a (\<lambda>i. i\<lparr>inode_lock := False\<rparr>) st }"

definition with_cache :: "(bufcache \<Rightarrow> ('a \<times> bufcache) option) \<Rightarrow> fs \<Rightarrow> ('a \<times> fs) option" where
  "with_cache f st = do { (x, c) \<leftarrow> f (cache st); Some (x, st\<lparr>cache := c\<rparr>) }"

definition on_cache :: "(bufcache \<Rightarrow> bufcache option) \<Rightarrow> fs \<Rightarrow> fs option" where
  "on_cache f st = do { c \<leftarrow> f (cache st); Some (st\<lparr>cache := c\<rparr>) }"

subsection \<open>The free map\<close>

text \<open>The write to the free map's file is a parameter \<open>wr\<close>: \<open>inode_write_at\<close> with less fuel.\<close>

type_synonym writer = "nat \<Rightarrow> bytes \<Rightarrow> int \<Rightarrow> int \<Rightarrow> fs \<Rightarrow> (int \<times> fs) option"

definition file_write_at :: "writer \<Rightarrow> file_struct \<Rightarrow> bytes \<Rightarrow> int \<Rightarrow> int \<Rightarrow> fs \<Rightarrow> (int \<times> fs) option" where
  "file_write_at wr f buffer sz file_ofs st = wr (finode f) buffer sz file_ofs st"

definition bitmap_write :: "writer \<Rightarrow> bitmap \<Rightarrow> file_struct \<Rightarrow> fs \<Rightarrow> (bool \<times> fs) option" where
  "bitmap_write wr b f st = do {
     let sz = int (byte_cnt (bit_cnt b));
     (n, st) \<leftarrow> file_write_at wr f (bytes_of (bits b)) sz 0 st;
     Some (n = sz, st) }"

definition free_map_allocate :: "writer \<Rightarrow> nat \<Rightarrow> fs \<Rightarrow> (block_sector option \<times> fs) option" where
  "free_map_allocate wr cnt st = do {
     guard (\<not> free_map_lock st);
     let st = st\<lparr>free_map_lock := True\<rparr>;
     (sector, fm) \<leftarrow> bitmap_scan_and_flip (free_map st) 0 cnt False;
     let st = st\<lparr>free_map := fm\<rparr>;
     (sector, st) \<leftarrow>
       (if sector \<noteq> BITMAP_ERROR \<and> free_map_file st \<noteq> None then do {
          (ok, st) \<leftarrow> bitmap_write wr (free_map st) (the (free_map_file st)) st;
          if \<not> ok then do {
            fm \<leftarrow> bitmap_set_multiple (free_map st) sector cnt False;
            Some (BITMAP_ERROR, st\<lparr>free_map := fm\<rparr>) }
          else Some (sector, st) }
        else Some (sector, st));
     let st = st\<lparr>free_map_lock := False\<rparr>;
     Some (if sector \<noteq> BITMAP_ERROR then Some (of_nat sector) else None, st) }"

definition free_map_release :: "writer \<Rightarrow> block_sector \<Rightarrow> nat \<Rightarrow> fs \<Rightarrow> fs option" where
  "free_map_release wr s cnt st = do {
     all_set \<leftarrow> bitmap_all (free_map st) (unat s) cnt;
     guard all_set;
     guard (\<not> free_map_lock st);
     let st = st\<lparr>free_map_lock := True\<rparr>;
     fm \<leftarrow> bitmap_set_multiple (free_map st) (unat s) cnt False;
     let st = st\<lparr>free_map := fm\<rparr>;
     f \<leftarrow> free_map_file st;
     (_, st) \<leftarrow> bitmap_write wr (free_map st) f st;
     Some (st\<lparr>free_map_lock := False\<rparr>) }"

subsection \<open>Allocation of the blocks of a file\<close>

text \<open>
  \<open>if (byte_to_sector (inode_disk, block_num * BLOCK_SECTOR_SIZE) == -1) { ... }\<close>: the result is
  \<open>None\<close> when the allocation failed, \<open>Some None\<close> when the block was there.
\<close>

definition alloc_missing ::
  "writer \<Rightarrow> inode_disk \<Rightarrow> nat \<Rightarrow> fs \<Rightarrow> (block_sector option option \<times> fs) option" where
  "alloc_missing wr d block_num st = do {
     (s, st) \<leftarrow> with_cache (byte_to_sector d (int (block_num * BLOCK_SECTOR_SIZE))) st;
     if s = NO_SECTOR then do {
       (r, st) \<leftarrow> free_map_allocate wr 1 st;
       Some (map_option Some r, st) }
     else Some (Some None, st) }"

text \<open>A loop over \<open>count\<close> that fills an array of sector numbers; \<open>False\<close> once an allocation has failed.\<close>

definition alloc_loop ::
  "writer \<Rightarrow> inode_disk \<Rightarrow> nat \<Rightarrow> nat \<Rightarrow> block_sector list \<Rightarrow> fs \<Rightarrow> (bool \<times> block_sector list \<times> fs) option" where
  "alloc_loop wr d first_block cnt ptrs st =
     for_upto 0 cnt (\<lambda>count (ok, ptrs, st).
       if \<not> ok then Some (False, ptrs, st)
       else do {
         (r, st) \<leftarrow> alloc_missing wr d (first_block + count) st;
         case r of
           None \<Rightarrow> Some (False, ptrs, st)
         | Some None \<Rightarrow> Some (True, ptrs, st)
         | Some (Some s) \<Rightarrow> do { ptrs \<leftarrow> array_set ptrs count s; Some (True, ptrs, st) } })
     (True, ptrs, st)"

text \<open>
  The direct blocks. The loop updates \<open>inode_disk->direct_ptrs\<close> in place and \<open>byte_to_sector\<close> reads
  it back, but only below the old length, where nothing is updated.
\<close>

definition alloc_direct ::
  "writer \<Rightarrow> inode_disk \<Rightarrow> nat \<Rightarrow> fs \<Rightarrow> (bool \<times> inode_disk \<times> fs) option" where
  "alloc_direct wr d num_sectors st = do {
     (ok, ptrs, st) \<leftarrow> alloc_loop wr d 0 (min NUM_DIRECT num_sectors) (direct_ptrs d) st;
     Some (ok, d\<lparr>direct_ptrs := ptrs\<rparr>, st) }"

text \<open>The code fills an indirect block in two places: read it, run the loop, write it back.\<close>

definition fill_indirect ::
  "writer \<Rightarrow> inode_disk \<Rightarrow> block_sector \<Rightarrow> nat \<Rightarrow> nat \<Rightarrow> fs \<Rightarrow> (bool \<times> fs) option" where
  "fill_indirect wr d s first_block cnt st = do {
     (indirect, st) \<leftarrow> with_cache (read_indirect s) st;
     (ok, indirect, st) \<leftarrow> alloc_loop wr d first_block cnt indirect st;
     if \<not> ok then Some (False, st)
     else do {
       st \<leftarrow> on_cache (write_indirect s indirect) st;
       Some (True, st) } }"

definition alloc_singly ::
  "writer \<Rightarrow> inode_disk \<Rightarrow> nat \<Rightarrow> fs \<Rightarrow> (bool \<times> inode_disk \<times> fs) option" where
  "alloc_singly wr d num_sectors st = do {
     (r, st) \<leftarrow> alloc_missing wr d NUM_DIRECT st;
     case r of None \<Rightarrow> Some (False, d, st)
     | Some p \<Rightarrow> do {
         let d = (case p of None \<Rightarrow> d | Some s \<Rightarrow> d\<lparr>singly_indirect_ptr := s\<rparr>);
         (ok, st) \<leftarrow> fill_indirect wr d (singly_indirect_ptr d) NUM_DIRECT
                      (min NUM_BLOCKS_IN_INDIRECT num_sectors) st;
         Some (ok, d, st) } }"

text \<open>One iteration of the loop over the indirect blocks of the doubly indirect block; the state is
  whether all went well, the next block, the sectors left and the block of pointers.\<close>

definition alloc_doubly_step ::
  "writer \<Rightarrow> inode_disk \<Rightarrow> nat \<Rightarrow> bool \<times> nat \<times> nat \<times> block_sector list \<times> fs \<Rightarrow>
   (bool \<times> nat \<times> nat \<times> block_sector list \<times> fs) option" where
  "alloc_doubly_step wr d i = (\<lambda>(ok, block_num, num_sectors, doubly_indirect, st).
     if \<not> ok then Some (False, block_num, num_sectors, doubly_indirect, st)
     else do {
       (r, st) \<leftarrow> alloc_missing wr d block_num st;
       case r of None \<Rightarrow> Some (False, block_num, num_sectors, doubly_indirect, st)
       | Some p \<Rightarrow> do {
           doubly_indirect \<leftarrow>
             (case p of None \<Rightarrow> Some doubly_indirect | Some s \<Rightarrow> array_set doubly_indirect i s);
           s \<leftarrow> array_get doubly_indirect i;
           let cnt = min NUM_BLOCKS_IN_INDIRECT num_sectors;
           (ok, st) \<leftarrow> fill_indirect wr d s block_num cnt st;
           Some (ok, block_num + cnt, num_sectors - cnt, doubly_indirect, st) } })"

definition alloc_doubly ::
  "writer \<Rightarrow> inode_disk \<Rightarrow> nat \<Rightarrow> nat \<Rightarrow> fs \<Rightarrow> (bool \<times> inode_disk \<times> fs) option" where
  "alloc_doubly wr d block_num num_sectors st = do {
     (r, st) \<leftarrow> alloc_missing wr d block_num st;
     case r of None \<Rightarrow> Some (False, d, st)
     | Some p \<Rightarrow> do {
         let d = (case p of None \<Rightarrow> d | Some s \<Rightarrow> d\<lparr>doubly_indirect_ptr := s\<rparr>);
         (doubly_indirect, st) \<leftarrow> with_cache (read_indirect (doubly_indirect_ptr d)) st;
         let num_indirect_blocks = DIV_ROUND_UP num_sectors BLOCK_SECTOR_SIZE;
         (ok, _, _, doubly_indirect, st) \<leftarrow>
           for_upto 0 num_indirect_blocks (alloc_doubly_step wr d)
             (True, block_num, num_sectors, doubly_indirect, st);
         if \<not> ok then Some (False, d, st)
         else do {
           st \<leftarrow> on_cache (write_indirect (doubly_indirect_ptr d) doubly_indirect) st;
           Some (True, d, st) } } }"

definition allocate_blocks ::
  "writer \<Rightarrow> inode_disk \<Rightarrow> int \<Rightarrow> fs \<Rightarrow> (bool \<times> inode_disk \<times> fs) option" where
  "allocate_blocks wr d len st = do {
     let num_sectors = bytes_to_sectors len;
     (ok, d, st) \<leftarrow> alloc_direct wr d num_sectors st;
     if \<not> ok then Some (False, d, st)
     else do {
       let num_sectors = num_sectors - min NUM_DIRECT num_sectors;
       (ok, d, st) \<leftarrow> (if 0 < num_sectors then alloc_singly wr d num_sectors st else Some (True, d, st));
       if \<not> ok then Some (False, d, st)
       else do {
         let num_sectors = num_sectors - min NUM_BLOCKS_IN_INDIRECT num_sectors;
         if 0 < num_sectors
         then alloc_doubly wr d (NUM_DIRECT + NUM_BLOCKS_IN_INDIRECT) num_sectors st
         else Some (True, d, st) } } }"

definition allocate_file ::
  "writer \<Rightarrow> nat option \<Rightarrow> inode_disk \<Rightarrow> int \<Rightarrow> fs \<Rightarrow> (bool \<times> inode_disk \<times> fs) option" where
  "allocate_file wr ino d len st = do {
     st \<leftarrow> (case ino of None \<Rightarrow> Some st
            | Some a \<Rightarrow> do { st \<leftarrow> upd_inode a (\<lambda>i. i\<lparr>extending := True\<rparr>) st; unlock_inode a st });
     (ok, d, st) \<leftarrow> allocate_blocks wr d len st;
     if \<not> ok then Some (False, d, st)
     else (case ino of None \<Rightarrow> Some (True, d, st)
       | Some a \<Rightarrow> do {
           st \<leftarrow> lock_inode a st;
           let d = d\<lparr>dlength := len\<rparr>;
           st \<leftarrow> upd_inode a (\<lambda>i. i\<lparr>extending := False\<rparr>) st;
           st \<leftarrow> unlock_inode a st;
           Some (True, d, st) }) }"


subsection \<open>Reading and writing\<close>

text \<open>The loop \<open>while (size > 0)\<close> of \<open>inode_read_at\<close>; \<open>acc\<close> is what has been copied to the buffer.\<close>

definition chunk_size :: "int \<Rightarrow> int \<Rightarrow> inode \<Rightarrow> int" where
  "chunk_size sz ofs i = (let
     inode_left = dlength (idata i) - ofs;
     sector_left = int BLOCK_SECTOR_SIZE - ofs smod int BLOCK_SECTOR_SIZE;
     min_left = (if inode_left < sector_left then inode_left else sector_left)
     in if sz < min_left then sz else min_left)"

partial_function (option) read_loop :: "nat \<Rightarrow> int \<Rightarrow> int \<Rightarrow> bytes \<Rightarrow> fs \<Rightarrow> (bytes \<times> fs) option" where
  "read_loop a sz ofs acc st =
     (if 0 < sz then do {
        i \<leftarrow> inodes st a;
        (sector_idx, st) \<leftarrow> with_cache (byte_to_sector (idata i) ofs) st;
        let sector_ofs = ofs smod int BLOCK_SECTOR_SIZE;
        let chunk = chunk_size sz ofs i;
        if chunk \<le> 0 then Some (acc, st)
        else do {
          guard (0 \<le> sector_ofs);
          (b, st) \<leftarrow> with_cache (bufcache_read sector_idx (nat sector_ofs) (nat chunk)) st;
          read_loop a (sz - chunk) (ofs + chunk) (acc @ b) st } }
      else Some (acc, st))"

partial_function (option) write_loop :: "nat \<Rightarrow> bytes \<Rightarrow> int \<Rightarrow> int \<Rightarrow> int \<Rightarrow> fs \<Rightarrow> (int \<times> fs) option" where
  "write_loop a buffer sz ofs bytes_written st =
     (if 0 < sz then do {
        i \<leftarrow> inodes st a;
        (sector_idx, st) \<leftarrow> with_cache (byte_to_sector (idata i) ofs) st;
        let sector_ofs = ofs smod int BLOCK_SECTOR_SIZE;
        let chunk = chunk_size sz ofs i;
        if chunk \<le> 0 then Some (bytes_written, st)
        else do {
          guard (0 \<le> sector_ofs);
          st \<leftarrow> on_cache (bufcache_write sector_idx (drop (nat bytes_written) buffer)
                    (nat sector_ofs) (nat chunk)) st;
          write_loop a buffer (sz - chunk) (ofs + chunk) (bytes_written + chunk) st } }
      else Some (bytes_written, st))"

text \<open>
  The result is the returned count and the bytes stored in the caller's buffer. Waiting on
  \<open>until_not_extending\<close> or \<open>until_no_writers\<close> needs another thread.
\<close>

definition inode_read_at :: "nat \<Rightarrow> int \<Rightarrow> int \<Rightarrow> fs \<Rightarrow> (int \<times> bytes \<times> fs) option" where
  "inode_read_at a sz ofs st = do {
     st \<leftarrow> lock_inode a st;
     i \<leftarrow> inodes st a;
     guard (\<not> (extending i \<or> deny_write_cnt i < 0));
     guard (off_ok (ofs + sz));
     if dlength (idata i) < ofs + sz then do {
       st \<leftarrow> unlock_inode a st;
       Some (- 1, [], st) }
     else do {
       st \<leftarrow> unlock_inode a st;
       (b, st) \<leftarrow> read_loop a sz ofs [] st;
       Some (int (length b), b, st) } }"

primrec inode_write_fuel :: "nat \<Rightarrow> writer" where
  "inode_write_fuel 0 a buffer sz ofs st = None"
| "inode_write_fuel (Suc n) a buffer sz ofs st = do {
     st \<leftarrow> lock_inode a st;
     i \<leftarrow> inodes st a;
     if 0 < deny_write_cnt i then do {
       st \<leftarrow> unlock_inode a st;
       Some (0, st) }
     else do {
       st \<leftarrow> upd_inode a (\<lambda>i. i\<lparr>deny_write_cnt := deny_write_cnt i - 1\<rparr>) st;
       st \<leftarrow> unlock_inode a st;
       st \<leftarrow> lock_inode a st;
       i \<leftarrow> inodes st a;
       guard (\<not> extending i);
       guard (off_ok (sz + ofs));
       st \<leftarrow> (if dlength (idata i) < sz + ofs then do {
                (_, d, st) \<leftarrow> allocate_file (inode_write_fuel n) (Some a) (idata i) (sz + ofs) st;
                upd_inode a (\<lambda>i. i\<lparr>idata := d\<rparr>) st }
              else unlock_inode a st);
       (bytes_written, st) \<leftarrow> write_loop a buffer sz ofs 0 st;
       st \<leftarrow> lock_inode a st;
       st \<leftarrow> upd_inode a (\<lambda>i. i\<lparr>deny_write_cnt := deny_write_cnt i + 1\<rparr>) st;
       st \<leftarrow> unlock_inode a st;
       Some (bytes_written, st) } }"

definition inode_write_at :: writer where
  "inode_write_at = inode_write_fuel 2"

subsection \<open>Life cycle of an inode\<close>

definition release_loop :: "nat \<Rightarrow> block_sector list \<Rightarrow> fs \<Rightarrow> fs option" where
  "release_loop cnt ptrs st =
     for_upto 0 cnt (\<lambda>count st. do {
       s \<leftarrow> array_get ptrs count;
       free_map_release inode_write_at s 1 st }) st"

definition dealloc_doubly_step ::
  "block_sector list \<Rightarrow> nat \<Rightarrow> nat \<times> fs \<Rightarrow> (nat \<times> fs) option" where
  "dealloc_doubly_step doubly_indirect i = (\<lambda>(num_sectors, st). do {
     s \<leftarrow> array_get doubly_indirect i;
     (indirect, st) \<leftarrow> with_cache (read_indirect s) st;
     let cnt = min NUM_BLOCKS_IN_INDIRECT num_sectors;
     st \<leftarrow> release_loop cnt indirect st;
     st \<leftarrow> free_map_release inode_write_at s 1 st;
     Some (num_sectors - cnt, st) })"

definition deallocate_file :: "inode \<Rightarrow> fs \<Rightarrow> fs option" where
  "deallocate_file i st = do {
     let d = idata i;
     let num_sectors = bytes_to_sectors (dlength d);
     let cnt = min NUM_DIRECT num_sectors;
     st \<leftarrow> release_loop cnt (direct_ptrs d) st;
     let num_sectors = num_sectors - cnt;
     (num_sectors, st) \<leftarrow>
       (if 0 < num_sectors then do {
          (indirect, st) \<leftarrow> with_cache (read_indirect (singly_indirect_ptr d)) st;
          let cnt = min NUM_BLOCKS_IN_INDIRECT num_sectors;
          st \<leftarrow> release_loop cnt indirect st;
          st \<leftarrow> free_map_release inode_write_at (singly_indirect_ptr d) 1 st;
          Some (num_sectors - cnt, st) }
        else Some (num_sectors, st));
     st \<leftarrow>
       (if 0 < num_sectors then do {
          (doubly_indirect, st) \<leftarrow> with_cache (read_indirect (doubly_indirect_ptr d)) st;
          let num_indirect_blocks = DIV_ROUND_UP num_sectors BLOCK_SECTOR_SIZE;
          (_, st) \<leftarrow> for_upto 0 num_indirect_blocks (dealloc_doubly_step doubly_indirect)
                      (num_sectors, st);
          free_map_release inode_write_at (doubly_indirect_ptr d) 1 st }
        else Some st);
     free_map_release inode_write_at (isector i) 1 st }"

definition inode_init :: "fs \<Rightarrow> fs" where
  "inode_init st = st\<lparr>open_inodes := [], open_inodes_lock := False\<rparr>"

definition zero_inode_disk :: inode_disk where
  "zero_inode_disk = \<lparr>dlength = 0, isdir = 0, direct_ptrs = replicate NUM_DIRECT 0,
     singly_indirect_ptr = 0, doubly_indirect_ptr = 0, magic = 0\<rparr>"

definition inode_create :: "block_sector \<Rightarrow> int \<Rightarrow> fs \<Rightarrow> (bool \<times> fs) option" where
  "inode_create s len st = do {
     guard (0 \<le> len);
     let (p, st) = malloc st;
     if p \<noteq> None then do {
       let disk_inode = zero_inode_disk\<lparr>magic := INODE_MAGIC\<rparr>;
       (ok, disk_inode, st) \<leftarrow> allocate_file inode_write_at None disk_inode len st;
       if ok then do {
         let disk_inode = disk_inode\<lparr>dlength := len\<rparr>;
         st \<leftarrow> on_cache (bufcache_write s (encode_inode disk_inode) 0 BLOCK_SECTOR_SIZE) st;
         Some (True, st) }
       else Some (False, st) }
     else Some (False, st) }"

definition inode_reopen :: "nat \<Rightarrow> fs \<Rightarrow> fs option" where
  "inode_reopen a st = upd_inode a (\<lambda>i. i\<lparr>open_cnt := open_cnt i + 1\<rparr>) st"

definition find_open :: "block_sector \<Rightarrow> fs \<Rightarrow> nat option" where
  "find_open s st = find (\<lambda>a. case inodes st a of None \<Rightarrow> False | Some i \<Rightarrow> isector i = s) (open_inodes st)"

definition inode_open :: "block_sector \<Rightarrow> fs \<Rightarrow> (nat option \<times> fs) option" where
  "inode_open s st = do {
     guard (\<not> open_inodes_lock st);
     case find_open s st of
       Some a \<Rightarrow> do {
         st \<leftarrow> inode_reopen a st;
         Some (Some a, st) }
     | None \<Rightarrow> (case malloc st of
         (None, st) \<Rightarrow> Some (None, st)
       | (Some a, st) \<Rightarrow> do {
           let st = st\<lparr>open_inodes := a # open_inodes st\<rparr>;
           (b, st) \<leftarrow> with_cache (bufcache_read s 0 BLOCK_SECTOR_SIZE) st;
           Some (Some a, st\<lparr>inodes := (inodes st)(a \<mapsto>
             \<lparr>isector = s, open_cnt = 1, removed = False, extending = False, deny_write_cnt = 0,
              inode_lock = False, idata = decode_inode b\<rparr>)\<rparr>) }) }"

definition inode_get_inumber :: "nat \<Rightarrow> fs \<Rightarrow> block_sector option" where
  "inode_get_inumber a st = map_option isector (inodes st a)"

definition inode_close :: "nat \<Rightarrow> fs \<Rightarrow> fs option" where
  "inode_close a st = do {
     st \<leftarrow> upd_inode a (\<lambda>i. i\<lparr>open_cnt := open_cnt i - 1\<rparr>) st;
     i \<leftarrow> inodes st a;
     if open_cnt i = 0 then do {
       let st = st\<lparr>open_inodes := remove1 a (open_inodes st)\<rparr>;
       st \<leftarrow> on_cache (bufcache_write (isector i) (encode_inode (idata i)) 0 BLOCK_SECTOR_SIZE) st;
       st \<leftarrow> (if removed i then deallocate_file i st else Some st);
       Some (st\<lparr>inodes := (inodes st)(a := None)\<rparr>) }
     else Some st }"

definition inode_remove :: "nat \<Rightarrow> fs \<Rightarrow> fs option" where
  "inode_remove a st = upd_inode a (\<lambda>i. i\<lparr>removed := True\<rparr>) st"

definition inode_deny_write :: "nat \<Rightarrow> fs \<Rightarrow> fs option" where
  "inode_deny_write a st = do {
     st \<leftarrow> lock_inode a st;
     i \<leftarrow> inodes st a;
     guard (\<not> deny_write_cnt i < 0);
     st \<leftarrow> upd_inode a (\<lambda>i. i\<lparr>deny_write_cnt := deny_write_cnt i + 1\<rparr>) st;
     st \<leftarrow> unlock_inode a st;
     i \<leftarrow> inodes st a;
     guard (deny_write_cnt i \<le> open_cnt i);
     Some st }"

definition inode_allow_write :: "nat \<Rightarrow> fs \<Rightarrow> fs option" where
  "inode_allow_write a st = do {
     i \<leftarrow> inodes st a;
     guard (0 < deny_write_cnt i);
     guard (deny_write_cnt i \<le> open_cnt i);
     upd_inode a (\<lambda>i. i\<lparr>deny_write_cnt := deny_write_cnt i - 1\<rparr>) st }"

definition inode_length :: "nat \<Rightarrow> fs \<Rightarrow> int option" where
  "inode_length a st = map_option (\<lambda>i. dlength (idata i)) (inodes st a)"

end
