(* ===== verification/Inode_Store.thy ===== *)
theory Inode_Store
  imports Inode
begin

text \<open>
  Reading and writing within a file: the contents of a file as one list of bytes, and
  \<open>inode_read_at\<close> and \<open>inode_write_at\<close> as operations on that list.
\<close>

subsection \<open>The blocks of a file\<close>

lemma sdiv_nonneg: "0 \<le> p \<Longrightarrow> 0 < k \<Longrightarrow> p sdiv k = p div (k :: int)"
  by (cases "p = 0") (simp_all add: signed_divide_int_def)

lemma smod_nonneg: "0 \<le> p \<Longrightarrow> 0 < k \<Longrightarrow> p smod k = p mod (k :: int)"
  by (cases "p = 0") (simp_all add: signed_modulo_int_def)

text \<open>The largest number of blocks that \<open>byte_to_sector\<close> maps: direct, indirect, and the first
  indirect block of the doubly indirect one.\<close>

definition MAX_BLOCKS :: nat where
  "MAX_BLOCKS = 379"

definition block_at :: "(block_sector \<Rightarrow> bytes) \<Rightarrow> inode_disk \<Rightarrow> nat \<Rightarrow> block_sector" where
  "block_at v d k =
     (if k < NUM_DIRECT then direct_ptrs d ! k
      else if k < NUM_DIRECT + NUM_BLOCKS_IN_INDIRECT
      then words_of (v (singly_indirect_ptr d)) ! (k - NUM_DIRECT)
      else words_of (v (words_of (v (doubly_indirect_ptr d)) ! 0)) ! (k - (NUM_DIRECT + NUM_BLOCKS_IN_INDIRECT)))"

definition meta_list :: "(block_sector \<Rightarrow> bytes) \<Rightarrow> inode_disk \<Rightarrow> nat \<Rightarrow> block_sector list" where
  "meta_list v d n =
     (if NUM_DIRECT < n then [singly_indirect_ptr d] else []) @
     (if NUM_DIRECT + NUM_BLOCKS_IN_INDIRECT < n
      then [doubly_indirect_ptr d, words_of (v (doubly_indirect_ptr d)) ! 0] else [])"

abbreviation meta_sectors :: "(block_sector \<Rightarrow> bytes) \<Rightarrow> inode_disk \<Rightarrow> nat \<Rightarrow> block_sector set" where
  "meta_sectors v d n \<equiv> set (meta_list v d n)"

definition num_blocks :: "inode_disk \<Rightarrow> nat" where
  "num_blocks d = bytes_to_sectors (dlength d)"

definition blocks_of :: "bufcache \<Rightarrow> inode_disk \<Rightarrow> block_sector set" where
  "blocks_of c d = block_at (view c) d ` {..<num_blocks d}"

definition ino_wf :: "bufcache \<Rightarrow> inode_disk \<Rightarrow> bool" where
  "ino_wf c d \<longleftrightarrow> 0 \<le> dlength d \<and> length (direct_ptrs d) = NUM_DIRECT \<and> num_blocks d \<le> MAX_BLOCKS \<and>
     inj_on (block_at (view c) d) {..<num_blocks d} \<and> distinct (meta_list (view c) d (num_blocks d)) \<and>
     (\<forall>s \<in> blocks_of c d \<union> meta_sectors (view c) d (num_blocks d). valid_sector c s) \<and>
     blocks_of c d \<inter> meta_sectors (view c) d (num_blocks d) = {}"

definition file_byte :: "bufcache \<Rightarrow> inode_disk \<Rightarrow> nat \<Rightarrow> u8" where
  "file_byte c d p = view c (block_at (view c) d (p div BLOCK_SECTOR_SIZE)) ! (p mod BLOCK_SECTOR_SIZE)"

definition file_content :: "bufcache \<Rightarrow> inode_disk \<Rightarrow> bytes" where
  "file_content c d = map (file_byte c d) [0..<nat (dlength d)]"

lemmas inode_consts = NUM_DIRECT_def NUM_BLOCKS_IN_INDIRECT_def MAX_BLOCKS_def BLOCK_SECTOR_SIZE_def

lemma num_blocks_le: "0 \<le> dlength d \<Longrightarrow> nat (dlength d) \<le> num_blocks d * BLOCK_SECTOR_SIZE"
proof -
  assume l: "0 \<le> dlength d"
  have "dlength d \<le> (dlength d + 511) div 512 * 512"
    using div_mult_mod_eq [of "dlength d + 511" 512] pos_mod_bound [of 512 "dlength d + 511"] by linarith
  with l show ?thesis by (simp add: num_blocks_def bytes_to_sectors_def BLOCK_SECTOR_SIZE_def)
qed

lemma block_in_range:
  assumes "0 \<le> dlength d" and "p < nat (dlength d)"
  shows "p div BLOCK_SECTOR_SIZE < num_blocks d"
  using num_blocks_le [OF assms(1)] assms(2) by (simp add: div_less_iff_less_mult BLOCK_SECTOR_SIZE_def)

lemma block_valid: "ino_wf c d \<Longrightarrow> k < num_blocks d \<Longrightarrow> valid_sector c (block_at (view c) d k)"
  by (auto simp: ino_wf_def blocks_of_def)

text \<open>The mapping of blocks is the same in two caches that agree on the metadata of the file.\<close>

definition same_meta :: "bufcache \<Rightarrow> bufcache \<Rightarrow> inode_disk \<Rightarrow> bool" where
  "same_meta c c' d \<longleftrightarrow> (\<forall>s \<in> meta_sectors (view c) d (num_blocks d). view c' s = view c s)"

lemma meta_cong:
  assumes "same_meta c c' d"
  shows "meta_list (view c') d (num_blocks d) = meta_list (view c) d (num_blocks d)"
  using assms by (auto simp: same_meta_def meta_list_def)

lemma block_at_cong:
  assumes "same_meta c c' d" and "k < num_blocks d"
  shows "block_at (view c') d k = block_at (view c) d k"
  using assms unfolding same_meta_def meta_list_def block_at_def by (auto split: if_splits)

lemma blocks_of_cong: "same_meta c c' d \<Longrightarrow> blocks_of c' d = blocks_of c d"
  unfolding blocks_of_def by (intro image_cong refl) (simp add: block_at_cong)

lemma ino_wf_cong:
  assumes "same_meta c c' d" and "valid_sector c' = valid_sector c" and "ino_wf c d"
  shows "ino_wf c' d"
proof -
  have "inj_on (block_at (view c') d) {..<num_blocks d} = inj_on (block_at (view c) d) {..<num_blocks d}"
    by (intro inj_on_cong) (simp add: block_at_cong [OF assms(1)])
  then show ?thesis using assms(2,3) by (simp add: ino_wf_def meta_cong [OF assms(1)] blocks_of_cong [OF assms(1)])
qed

lemma same_view_meta: "same_view c c' \<Longrightarrow> ino_wf c d \<Longrightarrow> same_meta c c' d"
  by (auto simp: same_view_def same_meta_def ino_wf_def)

lemma file_byte_cong:
  assumes "same_view c c'" and "ino_wf c d" and "p div BLOCK_SECTOR_SIZE < num_blocks d"
  shows "file_byte c' d p = file_byte c d p"
  using assms same_view_meta [OF assms(1,2)] block_valid [OF assms(2,3)]
  by (simp add: file_byte_def block_at_cong same_view_def)

subsection \<open>From an offset to a sector\<close>

lemma read_indirect_ok:
  assumes "quiet c" and "valid_sector c s"
  shows "\<exists>c'. read_indirect s c = Some (words_of (view c s), c') \<and> quiet c' \<and> same_view c c'
    \<and> length (words_of (view c s)) = NUM_BLOCKS_IN_INDIRECT"
  using bc.rd_sector [OF assms] bc.get_length [OF assms]
  by (auto simp: read_indirect_def same_view_def inode_consts)

lemma byte_to_sector_ok:
  assumes q: "quiet c" and w: "ino_wf c d" and p: "0 \<le> pos" "pos < dlength d"
  shows "\<exists>c'. byte_to_sector d pos c = Some (block_at (view c) d (nat pos div BLOCK_SECTOR_SIZE), c')
    \<and> quiet c' \<and> same_view c c'"
proof -
  define k where "k = nat pos div BLOCK_SECTOR_SIZE"
  have k: "k < num_blocks d" "k < MAX_BLOCKS"
    using block_in_range [of d "nat pos"] p w by (auto simp: k_def ino_wf_def)
  have sd: "pos sdiv int BLOCK_SECTOR_SIZE = int k"
    using p by (simp add: sdiv_nonneg k_def BLOCK_SECTOR_SIZE_def nat_div_distrib zdiv_int)
  have len: "length (direct_ptrs d) = NUM_DIRECT" using w by (simp add: ino_wf_def)
  consider "k < NUM_DIRECT" | "NUM_DIRECT \<le> k" "k < NUM_DIRECT + NUM_BLOCKS_IN_INDIRECT"
    | "NUM_DIRECT + NUM_BLOCKS_IN_INDIRECT \<le> k" by linarith
  then show ?thesis
  proof cases
    case 1
    then show ?thesis using p(2) q len by (simp add: byte_to_sector_def sd block_at_def flip: k_def)
  next
    case 2
    then have v: "valid_sector c (singly_indirect_ptr d)" using w k by (auto simp: ino_wf_def meta_list_def)
    from read_indirect_ok [OF q v] 2 p(2) show ?thesis
      by (auto simp: byte_to_sector_def sd block_at_def simp flip: k_def)
  next
    case 3
    let ?i = "words_of (view c (doubly_indirect_ptr d)) ! 0"
    have v: "valid_sector c (doubly_indirect_ptr d)" "valid_sector c ?i"
      using 3 w k by (auto simp: ino_wf_def meta_list_def)
    obtain c1 where c1: "read_indirect (doubly_indirect_ptr d) c = Some (words_of (view c (doubly_indirect_ptr d)), c1)"
        "quiet c1" "same_view c c1" "length (words_of (view c (doubly_indirect_ptr d))) = NUM_BLOCKS_IN_INDIRECT"
      using read_indirect_ok [OF q v(1)] by blast
    then have v1: "valid_sector c1 ?i" "view c1 ?i = view c ?i" using v(2) by (simp_all add: same_view_def)
    obtain c2 where c2: "read_indirect ?i c1 = Some (words_of (view c ?i), c2)" "quiet c2" "same_view c1 c2"
        "length (words_of (view c ?i)) = NUM_BLOCKS_IN_INDIRECT"
      using read_indirect_ok [OF c1(2) v1(1)] v1(2) by auto
    define j where "j = k - (NUM_DIRECT + NUM_BLOCKS_IN_INDIRECT)"
    have j: "j < NUM_BLOCKS_IN_INDIRECT" using 3 k by (simp add: j_def inode_consts)
    then have "j div NUM_BLOCKS_IN_INDIRECT = 0" "j mod BLOCK_SECTOR_SIZE = j" "0 < NUM_BLOCKS_IN_INDIRECT"
      by (simp_all add: inode_consts)
    moreover have "\<not> k < NUM_DIRECT" "\<not> k < NUM_DIRECT + NUM_BLOCKS_IN_INDIRECT" using 3 by simp_all
    ultimately show ?thesis
      using j p(2) c1 c2 same_view_trans [OF c1(3) c2(3)]
      by (simp add: byte_to_sector_def sd block_at_def flip: k_def j_def)
  qed
qed


subsection \<open>Reading\<close>

text \<open>A step that only moves data between cache and disk.\<close>

definition cache_step :: "fs \<Rightarrow> fs \<Rightarrow> bool" where
  "cache_step st st' \<longleftrightarrow> (\<exists>c'. st' = st\<lparr>cache := c'\<rparr> \<and> quiet c' \<and> same_view (cache st) c')"

lemma cache_stepD: "cache_step st st' \<Longrightarrow> quiet (cache st') \<and> same_view (cache st) (cache st')"
  by (auto simp: cache_step_def)

lemma cache_step_refl: "quiet (cache st) \<Longrightarrow> cache_step st st"
  unfolding cache_step_def by (rule exI [of _ "cache st"]) simp

lemma cache_step_trans: "cache_step a b \<Longrightarrow> cache_step b c \<Longrightarrow> cache_step a c"
  unfolding cache_step_def using same_view_trans by fastforce

lemma cache_step_fields:
  assumes "cache_step st st'"
  shows "inodes st' = inodes st" "free_map st' = free_map st" "free_map_file st' = free_map_file st"
    "free_map_lock st' = free_map_lock st" "open_inodes st' = open_inodes st"
    "open_inodes_lock st' = open_inodes_lock st" "mallocs st' = mallocs st"
  using assms by (auto simp: cache_step_def)

lemma with_cache_step:
  assumes "f (cache st) = Some (x, c')" and "quiet c'" and "same_view (cache st) c'"
  shows "with_cache f st = Some (x, st\<lparr>cache := c'\<rparr>)" "cache_step st (st\<lparr>cache := c'\<rparr>)"
  using assms by (auto simp: with_cache_def cache_step_def)

lemma chunk_within:
  assumes "0 < sz" "0 \<le> ofs" "ofs + sz \<le> dlength (idata i)"
  shows "0 < chunk_size sz ofs i" "chunk_size sz ofs i \<le> sz"
    "nat ofs mod BLOCK_SECTOR_SIZE + nat (chunk_size sz ofs i) \<le> BLOCK_SECTOR_SIZE"
proof -
  have m: "0 \<le> ofs mod int BLOCK_SECTOR_SIZE" "ofs mod int BLOCK_SECTOR_SIZE < int BLOCK_SECTOR_SIZE"
      "nat (ofs mod int BLOCK_SECTOR_SIZE) = nat ofs mod BLOCK_SECTOR_SIZE"
    using assms(2) by (simp_all add: BLOCK_SECTOR_SIZE_def nat_mod_distrib)
  have c: "chunk_size sz ofs i = min sz (int BLOCK_SECTOR_SIZE - ofs mod int BLOCK_SECTOR_SIZE)"
    using assms by (simp add: chunk_size_def Let_def smod_nonneg BLOCK_SECTOR_SIZE_def)
  then show "0 < chunk_size sz ofs i" "chunk_size sz ofs i \<le> sz"
    "nat ofs mod BLOCK_SECTOR_SIZE + nat (chunk_size sz ofs i) \<le> BLOCK_SECTOR_SIZE"
    using assms m(1,2) unfolding m(3) [symmetric] by auto
qed

text \<open>A range within one sector.\<close>

lemma same_sector:
  assumes "p mod BLOCK_SECTOR_SIZE + n \<le> BLOCK_SECTOR_SIZE" and "i < n"
  shows "(p + i) div BLOCK_SECTOR_SIZE = p div BLOCK_SECTOR_SIZE"
    "(p + i) mod BLOCK_SECTOR_SIZE = p mod BLOCK_SECTOR_SIZE + i"
proof -
  have l: "p mod BLOCK_SECTOR_SIZE + i < BLOCK_SECTOR_SIZE" using assms by simp
  then have i: "i div BLOCK_SECTOR_SIZE = 0" "i mod BLOCK_SECTOR_SIZE = i" by simp_all
  show "(p + i) div BLOCK_SECTOR_SIZE = p div BLOCK_SECTOR_SIZE"
    using l i by (subst div_add1_eq) simp
  show "(p + i) mod BLOCK_SECTOR_SIZE = p mod BLOCK_SECTOR_SIZE + i"
    using l mod_add_left_eq [of p BLOCK_SECTOR_SIZE i] by simp
qed

lemma slice_sector:
  assumes "quiet c" and "ino_wf c d" and "p div BLOCK_SECTOR_SIZE < num_blocks d"
    and "p mod BLOCK_SECTOR_SIZE + n \<le> BLOCK_SECTOR_SIZE"
  shows "slice (p mod BLOCK_SECTOR_SIZE) n (view c (block_at (view c) d (p div BLOCK_SECTOR_SIZE)))
    = map (file_byte c d) [p..<p + n]"
proof -
  have "length (view c (block_at (view c) d (p div BLOCK_SECTOR_SIZE))) = BLOCK_SECTOR_SIZE"
    using bc.get_length [OF assms(1) block_valid [OF assms(2,3)]] .
  then show ?thesis using assms(4)
    by (intro nth_equalityI) (simp_all add: nth_slice file_byte_def same_sector)
qed

lemma int_offset:
  assumes "0 \<le> ofs"
  shows "nat (ofs smod int BLOCK_SECTOR_SIZE) = nat ofs mod BLOCK_SECTOR_SIZE" "0 \<le> ofs smod int BLOCK_SECTOR_SIZE"
    "nat (ofs mod int BLOCK_SECTOR_SIZE) = nat ofs mod BLOCK_SECTOR_SIZE"
  using assms by (simp_all add: smod_nonneg nat_mod_distrib BLOCK_SECTOR_SIZE_def)

text \<open>One iteration of either loop starts with the sector of the offset.\<close>

lemma loop_sector:
  assumes "quiet (cache st)" and "ino_wf (cache st) d" and "0 \<le> ofs" "ofs < dlength d"
  shows "\<exists>st'. with_cache (byte_to_sector d ofs) st =
      Some (block_at (view (cache st)) d (nat ofs div BLOCK_SECTOR_SIZE), st') \<and> cache_step st st'"
proof -
  obtain c' where c': "byte_to_sector d ofs (cache st) = Some (block_at (view (cache st)) d (nat ofs div BLOCK_SECTOR_SIZE), c')"
      "quiet c'" "same_view (cache st) c'"
    using byte_to_sector_ok [OF assms] by blast
  show ?thesis using with_cache_step [of "byte_to_sector d ofs", OF c'] by blast
qed

lemma read_iteration:
  assumes "inodes st a = Some i" and q: "quiet (cache st)" and w: "ino_wf (cache st) (idata i)"
    and "0 \<le> ofs" "0 < sz" "ofs + sz \<le> dlength (idata i)"
  shows "\<exists>n st'. 0 < n \<and> n \<le> sz \<and> cache_step st st' \<and> read_loop a sz ofs acc st =
      read_loop a (sz - n) (ofs + n) (acc @ map (file_byte (cache st) (idata i)) [nat ofs..<nat ofs + nat n]) st'"
proof -
  let ?d = "idata i" and ?p = "nat ofs"
  define n where "n = chunk_size sz ofs i"
  note ch = chunk_within [OF assms(5,4,6), folded n_def]
  have lt: "ofs < dlength ?d" using assms(5,6) by simp
  have blk: "?p div BLOCK_SECTOR_SIZE < num_blocks ?d" using block_in_range lt assms(4) by simp
  let ?s = "block_at (view (cache st)) ?d (?p div BLOCK_SECTOR_SIZE)"
  let ?b = "map (file_byte (cache st) ?d) [?p..<?p + nat n]"
  obtain st1 where st1: "with_cache (byte_to_sector ?d ofs) st = Some (?s, st1)" "cache_step st st1"
    using loop_sector [OF q w assms(4) lt] by blast
  have v1: "quiet (cache st1)" "valid_sector (cache st1) ?s" "view (cache st1) ?s = view (cache st) ?s"
    using cache_stepD [OF st1(2)] block_valid [OF w blk] by (simp_all add: same_view_def)
  have sl: "slice (?p mod BLOCK_SECTOR_SIZE) (nat n) (view (cache st1) ?s) = ?b"
    using slice_sector [OF q w blk ch(3)] v1(3) by simp
  obtain c2 where c2: "bufcache_read ?s (?p mod BLOCK_SECTOR_SIZE) (nat n) (cache st1) = Some (?b, c2)"
      "quiet c2" "same_view (cache st1) c2"
    using bc.rd_ok [OF v1(1,2) ch(3)] unfolding sl same_view_def by blast
  note st2 = with_cache_step [of "bufcache_read ?s (?p mod BLOCK_SECTOR_SIZE) (nat n)", OF c2]
  have "read_loop a sz ofs acc st = read_loop a (sz - n) (ofs + n) (acc @ ?b) (st1\<lparr>cache := c2\<rparr>)"
    using assms(1,4,5) st1(1) st2(1) ch(1) int_offset [OF assms(4)] by (subst read_loop.simps) (simp add: n_def Let_def)
  then show ?thesis using ch cache_step_trans [OF st1(2) st2(2)] by blast
qed

lemma cache_step_wf:
  assumes "cache_step st st'" and "ino_wf (cache st) d"
  shows "ino_wf (cache st') d"
    "p < nat (dlength d) \<Longrightarrow> file_byte (cache st') d p = file_byte (cache st) d p"
proof -
  have sv: "same_view (cache st) (cache st')" using cache_stepD [OF assms(1)] by simp
  show "ino_wf (cache st') d" using ino_wf_cong same_view_meta [OF sv assms(2)] assms(2) sv by (auto simp: same_view_def)
  assume "p < nat (dlength d)"
  then show "file_byte (cache st') d p = file_byte (cache st) d p"
    using file_byte_cong [OF sv assms(2)] block_in_range assms(2) by (simp add: ino_wf_def)
qed

lemma upt_chunk: "0 \<le> (ofs :: int) \<Longrightarrow> 0 < n \<Longrightarrow> n \<le> sz \<Longrightarrow>
   [nat ofs..<nat ofs + nat n] @ [nat (ofs + n)..<nat (ofs + n) + nat (sz - n)] = [nat ofs..<nat ofs + nat sz]"
proof -
  assume a: "0 \<le> ofs" "0 < n" "n \<le> sz"
  then have e: "nat (ofs + n) = nat ofs + nat n" "nat ofs + nat n + nat (sz - n) = nat ofs + nat sz" by simp_all
  show ?thesis using upt_add_eq_append [of "nat ofs" "nat ofs + nat n" "nat (sz - n)"] unfolding e by simp
qed

lemma read_loop_ok:
  assumes "inodes st a = Some i" and "quiet (cache st)" and "ino_wf (cache st) (idata i)"
    and "0 \<le> ofs" "0 \<le> sz" "ofs + sz \<le> dlength (idata i)"
  shows "\<exists>st'. read_loop a sz ofs acc st =
      Some (acc @ map (file_byte (cache st) (idata i)) [nat ofs..<nat ofs + nat sz], st') \<and> cache_step st st'"
  using assms
proof (induction "nat sz" arbitrary: sz ofs acc st rule: less_induct)
  case less
  show ?case
  proof (cases "0 < sz")
    case False
    then show ?thesis using less.prems cache_step_refl by (subst read_loop.simps) auto
  next
    case True
    let ?d = "idata i" and ?p = "nat ofs"
    obtain n st1 where n: "0 < n" "n \<le> sz" and st1: "cache_step st st1"
      and run: "read_loop a sz ofs acc st = read_loop a (sz - n) (ofs + n)
        (acc @ map (file_byte (cache st) ?d) [?p..<?p + nat n]) st1" (is "_ = read_loop _ _ _ ?acc st1")
      using read_iteration [OF less.prems(1-4) True less.prems(6)] by blast
    note wf1 = cache_step_wf [OF st1 less.prems(3)]
    have "\<exists>st'. read_loop a (sz - n) (ofs + n) ?acc st1 = Some (?acc @
        map (file_byte (cache st1) ?d) [nat (ofs + n)..<nat (ofs + n) + nat (sz - n)], st') \<and> cache_step st1 st'"
      by (rule less.hyps) (use n less.prems wf1 cache_stepD [OF st1] cache_step_fields [OF st1] in auto)
    then obtain st' where st': "read_loop a sz ofs acc st = Some (?acc @
        map (file_byte (cache st1) ?d) [nat (ofs + n)..<nat (ofs + n) + nat (sz - n)], st')" "cache_step st1 st'"
      using run by auto
    have "map (file_byte (cache st1) ?d) [nat (ofs + n)..<nat (ofs + n) + nat (sz - n)] =
        map (file_byte (cache st) ?d) [nat (ofs + n)..<nat (ofs + n) + nat (sz - n)]"
      using n less.prems(4,5,6) by (auto intro!: wf1(2))
    then have "?acc @ map (file_byte (cache st1) ?d) [nat (ofs + n)..<nat (ofs + n) + nat (sz - n)] =
        acc @ map (file_byte (cache st) ?d) [?p..<?p + nat sz]"
      unfolding upt_chunk [OF less.prems(4) n, symmetric] by (simp only: map_append append_assoc)
    then show ?thesis using st' cache_step_trans [OF st1 st'(2)] by auto
  qed
qed


subsection \<open>Writing\<close>

text \<open>The cache \<open>c'\<close> is \<open>c\<close> with the bytes of the file from \<open>ofs\<close> on replaced by \<open>data\<close>.\<close>

definition wrote :: "bufcache \<Rightarrow> bufcache \<Rightarrow> inode_disk \<Rightarrow> nat \<Rightarrow> bytes \<Rightarrow> bool" where
  "wrote c c' d ofs data \<longleftrightarrow> quiet c' \<and> valid_sector c' = valid_sector c \<and>
     (\<forall>s. valid_sector c s \<longrightarrow> s \<notin> blocks_of c d \<longrightarrow> view c' s = view c s) \<and>
     (\<forall>p. p div BLOCK_SECTOR_SIZE < num_blocks d \<longrightarrow> file_byte c' d p =
        (if ofs \<le> p \<and> p < ofs + length data then data ! (p - ofs) else file_byte c d p))"

lemma frame_meta:
  assumes "ino_wf c d" and "\<And>s. valid_sector c s \<Longrightarrow> s \<notin> blocks_of c d \<Longrightarrow> view c' s = view c s"
  shows "same_meta c c' d"
  using assms by (auto simp: same_meta_def ino_wf_def)

lemma wrote_meta: "wrote c c' d ofs data \<Longrightarrow> ino_wf c d \<Longrightarrow> same_meta c c' d"
  using frame_meta by (auto simp: wrote_def)

lemma wrote_wf: "wrote c c' d ofs data \<Longrightarrow> ino_wf c d \<Longrightarrow> ino_wf c' d"
  using ino_wf_cong [OF wrote_meta] by (metis wrote_def)

lemma wrote_refl: "quiet c \<Longrightarrow> wrote c c d ofs []"
  by (auto simp: wrote_def)

lemma wrote_trans:
  assumes "ino_wf c d" and "wrote c c1 d ofs d1" and "wrote c1 c2 d (ofs + length d1) d2"
  shows "wrote c c2 d ofs (d1 @ d2)"
proof -
  have "blocks_of c1 d = blocks_of c d" using blocks_of_cong wrote_meta assms(1,2) by blast
  then show ?thesis using assms(2,3) by (auto simp: wrote_def nth_append)
qed

lemma sector_range:
  assumes "p mod BLOCK_SECTOR_SIZE + n \<le> BLOCK_SECTOR_SIZE"
  shows "q div BLOCK_SECTOR_SIZE = p div BLOCK_SECTOR_SIZE \<and> p mod BLOCK_SECTOR_SIZE \<le> q mod BLOCK_SECTOR_SIZE
      \<and> q mod BLOCK_SECTOR_SIZE < p mod BLOCK_SECTOR_SIZE + n \<longleftrightarrow> p \<le> q \<and> q < p + n"
    (is "?L \<longleftrightarrow> ?R")
proof
  assume l: ?L
  then have "q div BLOCK_SECTOR_SIZE * BLOCK_SECTOR_SIZE = p div BLOCK_SECTOR_SIZE * BLOCK_SECTOR_SIZE" by simp
  then show ?R
    using l div_mult_mod_eq [of p BLOCK_SECTOR_SIZE] div_mult_mod_eq [of q BLOCK_SECTOR_SIZE]
    by (intro conjI) linarith+
next
  assume ?R
  then obtain i where "q = p + i" and l: "i < n" by (metis le_Suc_ex nat_add_left_cancel_less)
  with same_sector [OF assms l] show ?L by simp
qed

lemma write_sector:
  assumes q: "quiet c" and w: "ino_wf c d" and blk: "p div BLOCK_SECTOR_SIZE < num_blocks d"
    and room: "p mod BLOCK_SECTOR_SIZE + n \<le> BLOCK_SECTOR_SIZE" and b: "n \<le> length buffer"
  shows "\<exists>c'. bufcache_write (block_at (view c) d (p div BLOCK_SECTOR_SIZE)) buffer (p mod BLOCK_SECTOR_SIZE) n c = Some c'
    \<and> wrote c c' d p (take n buffer)"
proof -
  let ?s = "block_at (view c) d (p div BLOCK_SECTOR_SIZE)" and ?o = "p mod BLOCK_SECTOR_SIZE"
  note s = block_valid [OF w blk]
  obtain c' where c': "bufcache_write ?s buffer ?o n c = Some c'" "quiet c'" "valid_sector c' = valid_sector c"
      "\<And>t. valid_sector c t \<Longrightarrow> view c' t = (if t = ?s then splice ?o (take n buffer) (view c ?s) else view c t)"
    using bc.wr_ok [OF q s room b] by blast
  have fr: "view c' t = view c t" if "valid_sector c t" "t \<notin> blocks_of c d" for t
    using c'(4) [OF that(1)] that(2) blk by (auto simp: blocks_of_def)
  note sm = frame_meta [OF w fr]
  have len: "length (view c ?s) = BLOCK_SECTOR_SIZE" using bc.get_length [OF q s] .
  have "file_byte c' d r = (if p \<le> r \<and> r < p + length (take n buffer) then take n buffer ! (r - p) else file_byte c d r)"
    if r: "r div BLOCK_SECTOR_SIZE < num_blocks d" for r
  proof -
    let ?t = "block_at (view c) d (r div BLOCK_SECTOR_SIZE)" and ?m = "r mod BLOCK_SECTOR_SIZE"
    have t: "?t = ?s \<longleftrightarrow> r div BLOCK_SECTOR_SIZE = p div BLOCK_SECTOR_SIZE"
      using w r blk by (auto simp: ino_wf_def inj_on_def)
    have m: "?m < BLOCK_SECTOR_SIZE" by (simp add: BLOCK_SECTOR_SIZE_def)
    have f: "file_byte c' d r = (if ?t = ?s then splice ?o (take n buffer) (view c ?s) else view c ?t) ! ?m"
      using c'(4) [OF block_valid [OF w r]] by (simp add: file_byte_def block_at_cong [OF sm r])
    have sub: "r - p = ?m - ?o" if "r div BLOCK_SECTOR_SIZE = p div BLOCK_SECTOR_SIZE"
    proof -
      have "r div BLOCK_SECTOR_SIZE * BLOCK_SECTOR_SIZE = p div BLOCK_SECTOR_SIZE * BLOCK_SECTOR_SIZE" using that by simp
      then show ?thesis
        using div_mult_mod_eq [of p BLOCK_SECTOR_SIZE] div_mult_mod_eq [of r BLOCK_SECTOR_SIZE] by linarith
    qed
    show ?thesis
    proof (cases "?t = ?s")
      case True
      with t have rp: "r div BLOCK_SECTOR_SIZE = p div BLOCK_SECTOR_SIZE" by simp
      then have iff: "p \<le> r \<and> r < p + n \<longleftrightarrow> ?o \<le> ?m \<and> ?m < ?o + n" using sector_range [OF room, of r] by blast
      have "file_byte c' d r = (if ?o \<le> ?m \<and> ?m < ?o + n then take n buffer ! (?m - ?o) else view c ?s ! ?m)"
        using f True nth_splice [of ?o "take n buffer" "view c ?s" ?m] room b m len by auto
      then show ?thesis using b sub [OF rp] iff True by (simp add: file_byte_def)
    next
      case False
      with t have "r div BLOCK_SECTOR_SIZE \<noteq> p div BLOCK_SECTOR_SIZE" by simp
      then have "\<not> (p \<le> r \<and> r < p + n)" using sector_range [OF room, of r] by blast
      then show ?thesis using f False b by (auto simp: file_byte_def)
    qed
  qed
  then show ?thesis using c'(1,2,3) fr unfolding wrote_def by blast
qed

lemma same_view_wrote:
  assumes "ino_wf c d" and "same_view c c1" and "wrote c1 c2 d ofs data"
  shows "wrote c c2 d ofs data"
proof -
  have b: "blocks_of c1 d = blocks_of c d" using blocks_of_cong same_view_meta assms by blast
  show ?thesis using assms(2,3) file_byte_cong [OF assms(2,1)] unfolding wrote_def b by (auto simp: same_view_def)
qed

lemma write_iteration:
  assumes "inodes st a = Some i" and q: "quiet (cache st)" and w: "ino_wf (cache st) (idata i)"
    and "0 \<le> ofs" "0 < sz" "ofs + sz \<le> dlength (idata i)" "0 \<le> bw" "bw + sz \<le> int (length buffer)"
  shows "\<exists>n c'. 0 < n \<and> n \<le> sz \<and> wrote (cache st) c' (idata i) (nat ofs) (slice (nat bw) (nat n) buffer)
    \<and> write_loop a buffer sz ofs bw st = write_loop a buffer (sz - n) (ofs + n) (bw + n) (st\<lparr>cache := c'\<rparr>)"
proof -
  let ?d = "idata i" and ?p = "nat ofs"
  define n where "n = chunk_size sz ofs i"
  note ch = chunk_within [OF assms(5,4,6), folded n_def]
  have lt: "ofs < dlength ?d" using assms(5,6) by simp
  have blk: "?p div BLOCK_SECTOR_SIZE < num_blocks ?d" using block_in_range lt assms(4) by simp
  let ?s = "block_at (view (cache st)) ?d (?p div BLOCK_SECTOR_SIZE)"
  obtain st1 where st1: "with_cache (byte_to_sector ?d ofs) st = Some (?s, st1)" "cache_step st st1"
    using loop_sector [OF q w assms(4) lt] by blast
  have sv: "same_view (cache st) (cache st1)" and q1: "quiet (cache st1)" using cache_stepD [OF st1(2)] by simp_all
  have s1: "block_at (view (cache st1)) ?d (?p div BLOCK_SECTOR_SIZE) = ?s"
    using block_at_cong same_view_meta [OF sv w] blk by blast
  have "nat n \<le> length (drop (nat bw) buffer)" using ch assms(7,8) by simp
  then obtain c2 where c2: "bufcache_write ?s (drop (nat bw) buffer) (?p mod BLOCK_SECTOR_SIZE) (nat n) (cache st1) = Some c2"
      "wrote (cache st1) c2 ?d ?p (slice (nat bw) (nat n) buffer)"
    using write_sector [OF q1 cache_step_wf(1) [OF st1(2) w] blk ch(3)] unfolding s1 slice_def by blast
  have "st1\<lparr>cache := c2\<rparr> = st\<lparr>cache := c2\<rparr>" using st1(2) by (auto simp: cache_step_def)
  then have "on_cache (bufcache_write ?s (drop (nat bw) buffer) (?p mod BLOCK_SECTOR_SIZE) (nat n)) st1 = Some (st\<lparr>cache := c2\<rparr>)"
    using c2(1) by (simp add: on_cache_def)
  then have "write_loop a buffer sz ofs bw st = write_loop a buffer (sz - n) (ofs + n) (bw + n) (st\<lparr>cache := c2\<rparr>)"
    using assms(1,4,5) st1(1) ch(1) int_offset [OF assms(4)] by (subst write_loop.simps) (simp add: n_def Let_def)
  then show ?thesis using ch(1,2) same_view_wrote [OF w sv c2(2)] by blast
qed

lemma slice_append: "slice b m xs @ slice (b + m) n xs = slice b (m + n) xs"
  by (simp add: slice_def take_add drop_drop add.commute)

lemma write_loop_ok:
  assumes "inodes st a = Some i" and "quiet (cache st)" and "ino_wf (cache st) (idata i)"
    and "0 \<le> ofs" "0 \<le> sz" "ofs + sz \<le> dlength (idata i)" "0 \<le> bw" "bw + sz \<le> int (length buffer)"
  shows "\<exists>c'. write_loop a buffer sz ofs bw st = Some (bw + sz, st\<lparr>cache := c'\<rparr>)
    \<and> wrote (cache st) c' (idata i) (nat ofs) (slice (nat bw) (nat sz) buffer)"
  using assms
proof (induction "nat sz" arbitrary: sz ofs bw st rule: less_induct)
  case less
  show ?case
  proof (cases "0 < sz")
    case False
    then show ?thesis using less.prems wrote_refl
      by (subst write_loop.simps) (auto simp: slice_def intro!: exI [of _ "cache st"])
  next
    case True
    let ?d = "idata i"
    obtain n c1 where n: "0 < n" "n \<le> sz"
      and c1: "wrote (cache st) c1 ?d (nat ofs) (slice (nat bw) (nat n) buffer)"
      and run: "write_loop a buffer sz ofs bw st = write_loop a buffer (sz - n) (ofs + n) (bw + n) (st\<lparr>cache := c1\<rparr>)"
      using write_iteration [OF less.prems(1-4) True less.prems(6-8)] by blast
    have "\<exists>c'. write_loop a buffer (sz - n) (ofs + n) (bw + n) (st\<lparr>cache := c1\<rparr>)
        = Some (bw + n + (sz - n), (st\<lparr>cache := c1\<rparr>)\<lparr>cache := c'\<rparr>)
      \<and> wrote (cache (st\<lparr>cache := c1\<rparr>)) c' ?d (nat (ofs + n)) (slice (nat (bw + n)) (nat (sz - n)) buffer)"
      by (rule less.hyps) (use n less.prems c1 wrote_wf [OF c1 less.prems(3)] in \<open>auto simp: wrote_def\<close>)
    then obtain c2 where c2: "write_loop a buffer sz ofs bw st = Some (bw + sz, st\<lparr>cache := c2\<rparr>)"
        "wrote c1 c2 ?d (nat (ofs + n)) (slice (nat (bw + n)) (nat (sz - n)) buffer)"
      using run by auto
    have e: "nat (ofs + n) = nat ofs + length (slice (nat bw) (nat n) buffer)" "nat (bw + n) = nat bw + nat n"
      "nat sz = nat n + nat (sz - n)"
      using n less.prems by (simp_all add: slice_def)
    have "wrote (cache st) c2 ?d (nat ofs) (slice (nat bw) (nat n) buffer @ slice (nat bw + nat n) (nat (sz - n)) buffer)"
      using wrote_trans [OF less.prems(3) c1] c2(2) unfolding e(1,2) by blast
    then show ?thesis using c2(1) unfolding slice_append e(3) [symmetric] by blast
  qed
qed

subsection \<open>Files as lists of bytes\<close>

text \<open>An open inode nobody is using, and its data structure.\<close>

definition idle :: "fs \<Rightarrow> nat \<Rightarrow> inode_disk \<Rightarrow> bool" where
  "idle st a d \<longleftrightarrow> (\<exists>i. inodes st a = Some i \<and> idata i = d \<and> \<not> inode_lock i \<and> \<not> extending i \<and> deny_write_cnt i = 0)"

lemma length_file_content [simp]: "length (file_content c d) = nat (dlength d)"
  by (simp add: file_content_def)

lemma slice_file_content:
  assumes "0 \<le> ofs" "0 \<le> sz" "ofs + sz \<le> dlength d"
  shows "slice (nat ofs) (nat sz) (file_content c d) = map (file_byte c d) [nat ofs..<nat ofs + nat sz]"
proof -
  have "nat ofs + nat sz \<le> nat (dlength d)" using assms by simp
  then show ?thesis by (intro nth_equalityI) (simp_all add: nth_slice file_content_def)
qed

lemma wrote_content:
  assumes "wrote c c' d ofs data" and "ino_wf c d" and "ofs + length data \<le> nat (dlength d)"
  shows "file_content c' d = splice ofs data (file_content c d)"
proof (rule nth_equalityI)
  fix p assume "p < length (file_content c' d)"
  then have p: "p < nat (dlength d)" by simp
  then have "p div BLOCK_SECTOR_SIZE < num_blocks d" using block_in_range assms(2) by (simp add: ino_wf_def)
  then show "file_content c' d ! p = splice ofs data (file_content c d) ! p"
    using assms(1,3) p by (simp add: wrote_def nth_splice file_content_def)
qed (use assms(3) in simp)

definition set_inode :: "nat \<Rightarrow> inode \<Rightarrow> fs \<Rightarrow> fs" where
  "set_inode a i st = st\<lparr>inodes := (inodes st)(a \<mapsto> i)\<rparr>"

lemma set_inode_simps [simp]:
  "inodes (set_inode a i st) = (inodes st)(a \<mapsto> i)" "cache (set_inode a i st) = cache st"
  "free_map (set_inode a i st) = free_map st" "free_map_file (set_inode a i st) = free_map_file st"
  "free_map_lock (set_inode a i st) = free_map_lock st"
  "set_inode a i (set_inode a j st) = set_inode a i st" "(set_inode a i st)\<lparr>cache := c\<rparr> = set_inode a i (st\<lparr>cache := c\<rparr>)"
  by (simp_all add: set_inode_def)

lemma set_inode_same: "inodes st a = Some i \<Longrightarrow> set_inode a i st = st"
  by (simp add: set_inode_def fun_upd_idem)

lemma inode_ops:
  assumes "inodes st a = Some i"
  shows "upd_inode a f st = Some (set_inode a (f i) st)"
    "lock_inode a st = (if inode_lock i then None else Some (set_inode a (i\<lparr>inode_lock := True\<rparr>) st))"
    "unlock_inode a st = (if inode_lock i then Some (set_inode a (i\<lparr>inode_lock := False\<rparr>) st) else None)"
  using assms by (simp_all add: upd_inode_def lock_inode_def unlock_inode_def set_inode_def)

lemma inode_lock_same: "\<not> inode_lock i \<Longrightarrow> i\<lparr>inode_lock := False\<rparr> = i"
  by simp

lemma inode_read_at_ok:
  assumes "idle st a d" and "quiet (cache st)" and "ino_wf (cache st) d" and "off_ok (dlength d)"
    and "0 \<le> ofs" "0 \<le> sz" "ofs + sz \<le> dlength d"
  shows "\<exists>st'. inode_read_at a sz ofs st = Some (sz, slice (nat ofs) (nat sz) (file_content (cache st) d), st')
    \<and> cache_step st st'"
proof -
  obtain i where i: "inodes st a = Some i" "idata i = d" "\<not> inode_lock i" "\<not> extending i" "deny_write_cnt i = 0"
    using assms(1) by (auto simp: idle_def)
  obtain st' where st': "read_loop a sz ofs [] st = Some (map (file_byte (cache st) d) [nat ofs..<nat ofs + nat sz], st')"
      "cache_step st st'"
    using read_loop_ok [of st a i ofs sz "[]"] assms(2,3,5-7) i(1,2) by auto
  have ok: "off_ok (ofs + sz)" using assms(4-7) by (auto simp: off_ok_def)
  have nl: "\<not> dlength d < ofs + sz" using assms(7) by simp
  have "inode_read_at a sz ofs st = Some (sz, map (file_byte (cache st) d) [nat ofs..<nat ofs + nat sz], st')"
    unfolding inode_read_at_def
    by (simp add: inode_ops i inode_lock_same set_inode_same st'(1) ok nl assms(6))
  then show ?thesis using st'(2) slice_file_content [OF assms(5-7)] by auto
qed

lemma inode_write_within:
  assumes "idle st a d" and "quiet (cache st)" and "ino_wf (cache st) d" and "off_ok (dlength d)"
    and "0 \<le> ofs" "0 \<le> sz" "ofs + sz \<le> dlength d" "sz \<le> int (length buffer)"
  shows "\<exists>c'. inode_write_fuel (Suc n) a buffer sz ofs st = Some (sz, st\<lparr>cache := c'\<rparr>)
    \<and> wrote (cache st) c' d (nat ofs) (take (nat sz) buffer)"
proof -
  obtain i where i: "inodes st a = Some i" "idata i = d" "\<not> inode_lock i" "\<not> extending i" "deny_write_cnt i = 0"
    using assms(1) by (auto simp: idle_def)
  define j where "j = i\<lparr>deny_write_cnt := - 1\<rparr>"
  define st1 where "st1 = set_inode a j st"
  have j: "inodes st1 a = Some j" "\<not> inode_lock j" "\<not> extending j" "idata j = d" using i by (simp_all add: st1_def j_def)
  obtain c' where c': "write_loop a buffer sz ofs 0 st1 = Some (sz, st1\<lparr>cache := c'\<rparr>)"
      "wrote (cache st) c' d (nat ofs) (take (nat sz) buffer)"
    using write_loop_ok [of st1 a j ofs sz 0 buffer] assms(2,3,5-8) j by (auto simp: st1_def slice_def)
  have ok: "off_ok (sz + ofs)" using assms(4-7) by (auto simp: off_ok_def)
  have restore: "j\<lparr>deny_write_cnt := 0, inode_lock := False\<rparr> = i" using i by (simp add: j_def)
  have nl: "\<not> dlength d < sz + ofs" using assms(7) by simp
  have "inode_write_fuel (Suc n) a buffer sz ofs st = Some (sz, st\<lparr>cache := c'\<rparr>)"
    using c'(1) i(1) unfolding st1_def j_def
    by (simp add: inode_ops i(2-5) inode_lock_same ok nl restore [unfolded j_def] set_inode_same)
  then show ?thesis using c'(2) by blast
qed

text \<open>Files that share no sector.\<close>

definition disjoint_files :: "bufcache \<Rightarrow> inode_disk \<Rightarrow> inode_disk \<Rightarrow> bool" where
  "disjoint_files c d e \<longleftrightarrow> (blocks_of c e \<union> meta_sectors (view c) e (num_blocks e)) \<inter> blocks_of c d = {}"

lemma wrote_other:
  assumes "wrote c c' d ofs data" and "ino_wf c e" and "disjoint_files c d e"
  shows "file_content c' e = file_content c e"
proof -
  have fr: "view c' s = view c s" if "s \<in> blocks_of c e \<union> meta_sectors (view c) e (num_blocks e)" for s
    using assms that by (auto simp: wrote_def ino_wf_def disjoint_files_def)
  then have sm: "same_meta c c' e" by (simp add: same_meta_def)
  show ?thesis
  proof (rule nth_equalityI)
    fix p assume "p < length (file_content c' e)"
    then have p: "p < nat (dlength e)" by simp
    then have k: "p div BLOCK_SECTOR_SIZE < num_blocks e" using block_in_range assms(2) by (simp add: ino_wf_def)
    then have "block_at (view c) e (p div BLOCK_SECTOR_SIZE) \<in> blocks_of c e" by (auto simp: blocks_of_def)
    then show "file_content c' e ! p = file_content c e ! p"
      using p fr block_at_cong [OF sm k] by (simp add: file_content_def file_byte_def)
  qed simp
qed

subsection \<open>Properties\<close>


text \<open>A file of 600 bytes in the sectors 10 and 11 of a disk of 100 sectors.\<close>

definition small_file :: inode_disk where
  "small_file = zero_inode_disk\<lparr>dlength := 600, direct_ptrs := [10, 11] @ replicate 121 0, magic := INODE_MAGIC\<rparr>"

definition map_inode :: inode_disk where
  "map_inode = zero_inode_disk\<lparr>dlength := 16, direct_ptrs := 2 # replicate 122 0, magic := INODE_MAGIC\<rparr>"

definition open_inode :: "block_sector \<Rightarrow> inode_disk \<Rightarrow> inode" where
  "open_inode s d = \<lparr>isector = s, open_cnt = 1, removed = False, extending = False, deny_write_cnt = 0,
     inode_lock = False, idata = d\<rparr>"

definition small_fs :: fs where
  "small_fs = \<lparr>cache = bufcache_init zero_disk 0, inodes = [0 \<mapsto> open_inode 0 map_inode, 1 \<mapsto> open_inode 3 small_file],
     open_inodes = [1, 0], open_inodes_lock = False,
     free_map = \<lparr>bit_cnt = 100, bits = [0xC0F, 0, 0, 0]\<rparr>,
     free_map_file = Some \<lparr>finode = 0, fpos = 0, fdeny_write = True\<rparr>, free_map_lock = False, mallocs = [Some 2, Some 3]\<rparr>"

lemma small_file_length: "dlength small_file = 600"
  by (simp add: small_file_def)

lemma small_file_blocks: "num_blocks small_file = 2" "block_at v small_file 0 = 10" "block_at v small_file 1 = 11"
  "meta_list v small_file 2 = []"
  by (simp_all add: num_blocks_def bytes_to_sectors_def small_file_def block_at_def meta_list_def inode_consts)

lemma two_blocks: "{..<2 :: nat} = {0, 1}"
  by auto

lemma small_file_wf: "ino_wf (cache small_fs) small_file"
  unfolding ino_wf_def blocks_of_def small_file_blocks(1) two_blocks
  by (simp add: small_file_blocks small_file_blocks(2,3) [unfolded One_nat_def]
      small_fs_def zero_disk_quiet MAX_BLOCKS_def) (simp add: small_file_def NUM_DIRECT_def)

lemma small_file_idle: "idle small_fs 1 small_file" "quiet (cache small_fs)" "off_ok (dlength small_file)"
  by (simp_all add: idle_def small_fs_def open_inode_def zero_disk_quiet off_ok_def small_file_def)

lemma small_file_content: "file_content (cache small_fs) small_file = replicate 600 0"
proof (rule nth_equalityI)
  fix p assume "p < length (file_content (cache small_fs) small_file)"
  then have p: "p < 600" by (simp add: small_file_def)
  then consider "p div 512 = 0" | "p div 512 = 1" by linarith
  then have "block_at (view (cache small_fs)) small_file (p div 512) < 100"
    by cases (simp_all add: small_file_blocks del: One_nat_def)
  then have "file_byte (cache small_fs) small_file p = 0"
    by (simp add: file_byte_def small_fs_def zero_disk_quiet BLOCK_SECTOR_SIZE_def)
  with p show "file_content (cache small_fs) small_file ! p = replicate 600 0 ! p"
    by (simp add: file_content_def) (simp add: small_file_def)
qed (simp add: small_file_def)


end
