(* ===== verification/Inode_Alloc.thy ===== *)
theory Inode_Alloc
  imports Inode_Store
begin

text \<open>
  Allocation: the free map on disk and in memory, and the growth of a file. The invariant \<open>map_ok\<close>
  ties the bitmap to the file that stores it; \<open>grown\<close> says that a file grew into sectors that
  were free.
\<close>

declare inode_write_fuel.simps [simp del]

subsection \<open>The free map\<close>

definition used :: "fs \<Rightarrow> block_sector set" where
  "used st = {s. unat s < bit_cnt (free_map st) \<and> bm_abs (free_map st) ! unat s}"

definition full :: "fs \<Rightarrow> bool" where
  "full st \<longleftrightarrow> (\<forall>i < bit_cnt (free_map st). bm_abs (free_map st) ! i)"

definition sectors_of :: "bufcache \<Rightarrow> inode_disk \<Rightarrow> block_sector set" where
  "sectors_of c d = blocks_of c d \<union> meta_sectors (view c) d (num_blocks d)"

text \<open>The free map, in memory and in the open file \<open>fa\<close> with on-disk inode \<open>fd\<close>.\<close>

definition map_ok :: "nat \<Rightarrow> inode_disk \<Rightarrow> fs \<Rightarrow> bool" where
  "map_ok fa fd st \<longleftrightarrow> quiet (cache st) \<and> bm_wf (free_map st) \<and> \<not> free_map_lock st \<and>
     map_option finode (free_map_file st) = Some fa \<and> idle st fa fd \<and> ino_wf (cache st) fd \<and> off_ok (dlength fd) \<and>
     int (bitmap_file_size (free_map st)) \<le> dlength fd \<and>
     (\<forall>s. unat s < bit_cnt (free_map st) \<longrightarrow> valid_sector (cache st) s) \<and> sectors_of (cache st) fd \<subseteq> used st"

lemma sectors_cong: "same_meta c c' d \<Longrightarrow> sectors_of c' d = sectors_of c d"
  by (simp add: sectors_of_def blocks_of_cong meta_cong)

lemma same_metaI: "(\<And>s. s \<in> sectors_of c d \<Longrightarrow> s \<notin> blocks_of c d \<Longrightarrow> view c' s = view c s) \<Longrightarrow> ino_wf c d \<Longrightarrow> same_meta c c' d"
  by (auto simp: same_meta_def sectors_of_def ino_wf_def)

lemma used_valid: "map_ok fa fd st \<Longrightarrow> s \<in> used st \<Longrightarrow> valid_sector (cache st) s"
  by (simp add: map_ok_def used_def)

lemma free_group: "group_at (bm_abs b) k 1 False \<longleftrightarrow> k < bit_cnt b \<and> \<not> bm_abs b ! k"
  by (auto simp: group_at_def bitmap_simps)

lemma full_iff: "full st \<longleftrightarrow> (\<forall>k. \<not> group_at (bm_abs (free_map st)) k 1 False)"
  unfolding full_def free_group by blast

lemma bit_cnt_word: "bm_wf b \<Longrightarrow> i < bit_cnt b \<Longrightarrow> unat (of_nat i :: block_sector) = i"
  by (simp add: bm_wf_def unat_of_nat take_bit_nat_eq_self)

lemma file_size_bytes: "bm_wf b \<Longrightarrow> byte_cnt (bit_cnt b) \<le> length (bytes_of (bits b))"
  using sz_mul_def by (simp add: byte_cnt_def bm_wf_def sz_mul_def) (meson le_trans mod_less_eq_dividend mult_le_mono2)

text \<open>An allocation in the free map, and what it leaves alone.\<close>

definition same_rest :: "fs \<Rightarrow> fs \<Rightarrow> bool" where
  "same_rest st st' \<longleftrightarrow> (\<exists>c' fm'. st' = st\<lparr>cache := c', free_map := fm'\<rparr>)"

lemma same_restI [simp]:
  "same_rest st st" "same_rest st (st\<lparr>cache := c'\<rparr>)" "same_rest st (st\<lparr>cache := c', free_map := fm'\<rparr>)"
  unfolding same_rest_def by (rule exI [of _ "cache st"], rule exI [of _ "free_map st"], simp)
    (rule exI [of _ c'], rule exI [of _ "free_map st"], simp, blast)

lemma same_rest_trans: "same_rest a b \<Longrightarrow> same_rest b c \<Longrightarrow> same_rest a c"
proof -
  assume "same_rest a b" "same_rest b c"
  then obtain c1 m1 c2 m2 where e: "b = a\<lparr>cache := c1, free_map := m1\<rparr>" "c = b\<lparr>cache := c2, free_map := m2\<rparr>"
    unfolding same_rest_def by blast
  have "c = a\<lparr>cache := c2, free_map := m2\<rparr>" by (simp add: e)
  then show ?thesis by simp
qed

definition grow :: "nat \<Rightarrow> inode_disk \<Rightarrow> fs \<Rightarrow> fs \<Rightarrow> bool" where
  "grow fa fd st st' \<longleftrightarrow> same_rest st st' \<and> map_ok fa fd st' \<and>
     valid_sector (cache st') = valid_sector (cache st) \<and> bit_cnt (free_map st') = bit_cnt (free_map st) \<and>
     used st \<subseteq> used st' \<and>
     (\<forall>s. valid_sector (cache st) s \<longrightarrow> s \<notin> blocks_of (cache st) fd \<longrightarrow> view (cache st') s = view (cache st) s)"

lemma grow_fields:
  assumes "grow fa fd st st'"
  shows "inodes st' = inodes st" "free_map_file st' = free_map_file st" "free_map_lock st' = free_map_lock st"
    "open_inodes st' = open_inodes st" "mallocs st' = mallocs st" "open_inodes_lock st' = open_inodes_lock st"
    "map_ok fa fd st'" "used st \<subseteq> used st'"
  using assms by (auto simp: grow_def same_rest_def)

lemma grow_map_meta: "grow fa fd st st' \<Longrightarrow> map_ok fa fd st \<Longrightarrow> same_meta (cache st) (cache st') fd"
  by (intro same_metaI) (auto simp: grow_def map_ok_def sectors_of_def ino_wf_def)

lemma grow_refl: "map_ok fa fd st \<Longrightarrow> grow fa fd st st"
  by (simp add: grow_def)

lemma grow_trans:
  assumes "map_ok fa fd st" and "grow fa fd st st1" and "grow fa fd st1 st2"
  shows "grow fa fd st st2"
proof -
  have b: "blocks_of (cache st1) fd = blocks_of (cache st) fd"
    using blocks_of_cong grow_map_meta [OF assms(2,1)] by blast
  have "same_rest st st2" using assms(2,3) same_rest_trans by (auto simp: grow_def)
  moreover have "\<forall>s. valid_sector (cache st) s \<longrightarrow> s \<notin> blocks_of (cache st) fd \<longrightarrow> view (cache st2) s = view (cache st) s"
    using assms(2,3) unfolding grow_def b by metis
  moreover have "used st \<subseteq> used st2" using assms(2,3) by (auto simp: grow_def)
  ultimately show ?thesis using assms(2,3) unfolding grow_def by simp
qed

text \<open>The cache may change wherever the free map's indirect blocks are not.\<close>

lemma map_ok_cache:
  assumes m: "map_ok fa fd st" and sm: "same_meta (cache st) c' fd" and q: "quiet c'"
    and v: "valid_sector c' = valid_sector (cache st)"
  shows "map_ok fa fd (st\<lparr>cache := c'\<rparr>)"
proof -
  have "ino_wf c' fd" using ino_wf_cong [OF sm v] m by (simp add: map_ok_def)
  then show ?thesis using m q v sectors_cong [OF sm] by (simp add: map_ok_def idle_def used_def)
qed

lemma cache_step_grow:
  assumes "map_ok fa fd st" and "cache_step st st'"
  shows "grow fa fd st st'" "used st' = used st"
proof -
  obtain c' where c': "st' = st\<lparr>cache := c'\<rparr>" "quiet c'" "same_view (cache st) c'" using assms(2) by (auto simp: cache_step_def)
  then have "same_meta (cache st) c' fd" using same_view_meta assms(1) by (auto simp: map_ok_def)
  then have "map_ok fa fd st'" using map_ok_cache [OF assms(1)] c' by (simp add: same_view_def)
  then show "grow fa fd st st'" "used st' = used st"
    using c' by (auto simp: grow_def used_def same_view_def)
qed

lemma used_mark:
  assumes "bm_wf b" and "bit_cnt fm' = bit_cnt b" and "bm_abs fm' = fill_range (bm_abs b) i 1 True" and "i < bit_cnt b"
  shows "{s :: block_sector. unat s < bit_cnt fm' \<and> bm_abs fm' ! unat s}
    = insert (of_nat i) {s. unat s < bit_cnt b \<and> bm_abs b ! unat s}"
proof (rule set_eqI)
  fix s :: block_sector
  have e: "s = of_nat i \<longleftrightarrow> unat s = i" using bit_cnt_word [OF assms(1,4)] by (metis word_unat_eq_iff)
  have "bm_abs fm' ! unat s = (unat s = i \<or> bm_abs b ! unat s)" if "unat s < bit_cnt b"
    using that assms(4) unfolding assms(3) by (auto simp: bitmap_simps)
  then show "s \<in> {s. unat s < bit_cnt fm' \<and> bm_abs fm' ! unat s} \<longleftrightarrow>
      s \<in> insert (of_nat i) {s. unat s < bit_cnt b \<and> bm_abs b ! unat s}"
    unfolding assms(2) mem_Collect_eq insert_iff e using assms(4) by blast
qed

text \<open>Writing the bitmap to its file.\<close>

lemma bitmap_write_ok:
  assumes m: "map_ok fa fd st0" and st: "st = st0\<lparr>free_map := b, free_map_lock := True\<rparr>"
    and b: "bm_wf b" "bit_cnt b = bit_cnt (free_map st0)" and f: "finode f = fa"
  shows "\<exists>c'. bitmap_write (inode_write_fuel (Suc n)) b f st = Some (True, st\<lparr>cache := c'\<rparr>)
    \<and> wrote (cache st0) c' fd 0 (take (bitmap_file_size b) (bytes_of (bits b)))"
proof -
  have i: "idle st fa fd" using m by (simp add: st map_ok_def idle_def)
  have l: "0 + int (bitmap_file_size b) \<le> dlength fd" "int (bitmap_file_size b) \<le> int (length (bytes_of (bits b)))"
    using m b file_size_bytes [OF b(1)] by (simp_all add: map_ok_def bitmap_file_size_def)
  have q: "quiet (cache st)" "ino_wf (cache st) fd" "off_ok (dlength fd)" using m by (simp_all add: st map_ok_def)
  from inode_write_within [OF i q _ _ l] obtain c' where
    "inode_write_fuel (Suc n) fa (bytes_of (bits b)) (int (bitmap_file_size b)) 0 st = Some (int (bitmap_file_size b), st\<lparr>cache := c'\<rparr>)"
    "wrote (cache st) c' fd 0 (take (bitmap_file_size b) (bytes_of (bits b)))" by fastforce
  then show ?thesis by (intro exI [of _ c']) (simp add: bitmap_write_def file_write_at_def f bitmap_file_size_def st)
qed

text \<open>The map in memory is the map in the file.\<close>

definition map_stored :: "inode_disk \<Rightarrow> fs \<Rightarrow> bool" where
  "map_stored fd st \<longleftrightarrow> slice 0 (bitmap_file_size (free_map st)) (file_content (cache st) fd)
     = slice 0 (bitmap_file_size (free_map st)) (bytes_of (bits (free_map st)))"

lemma map_updated:
  assumes m: "map_ok fa fd st" and b: "bm_wf b" "bit_cnt b = bit_cnt (free_map st)"
    and w: "wrote (cache st) c' fd 0 (take (bitmap_file_size b) (bytes_of (bits b)))"
    and u: "sectors_of (cache st) fd \<subseteq> used (st\<lparr>free_map := b\<rparr>)"
  shows "map_ok fa fd (st\<lparr>cache := c', free_map := b\<rparr>)" "map_stored fd (st\<lparr>cache := c', free_map := b\<rparr>)"
proof -
  have wf: "ino_wf (cache st) fd" using m by (simp add: map_ok_def)
  note sm = wrote_meta [OF w wf]
  show "map_ok fa fd (st\<lparr>cache := c', free_map := b\<rparr>)"
    using m b w u wrote_wf [OF w wf] sectors_cong [OF sm]
    by (simp add: map_ok_def idle_def used_def wrote_def bitmap_file_size_def)
  have sz: "bitmap_file_size b \<le> nat (dlength fd)" "bitmap_file_size b \<le> length (bytes_of (bits b))"
    using m b file_size_bytes [OF b(1)] by (auto simp: map_ok_def bitmap_file_size_def)
  then have len: "length (take (bitmap_file_size b) (bytes_of (bits b))) = bitmap_file_size b" by simp
  have "file_content c' fd = splice 0 (take (bitmap_file_size b) (bytes_of (bits b))) (file_content (cache st) fd)"
    using wrote_content [OF w wf] sz by simp
  then show "map_stored fd (st\<lparr>cache := c', free_map := b\<rparr>)"
    using sz len slice_splice_same [of 0 "take (bitmap_file_size b) (bytes_of (bits b))" "file_content (cache st) fd"]
    by (simp add: map_stored_def slice_def)
qed

lemma free_map_allocate_ok:
  assumes m: "map_ok fa fd st" and nf: "\<not> full st"
  shows "\<exists>s st'. free_map_allocate (inode_write_fuel (Suc n)) 1 st = Some (Some s, st') \<and> grow fa fd st st'
    \<and> s \<notin> used st \<and> used st' = insert s (used st) \<and> map_stored fd st'"
proof -
  let ?b = "free_map st"
  have wf: "bm_wf ?b" using m by (simp add: map_ok_def)
  obtain f where f: "free_map_file st = Some f" "finode f = fa" using m by (auto simp: map_ok_def)
  obtain k where "group_at (bm_abs ?b) k 1 False" using nf full_iff by blast
  then obtain i b' where b': "bitmap_scan_and_flip ?b 0 1 False = Some (i, b')" "i \<noteq> BITMAP_ERROR" "group_at (bm_abs ?b) i 1 False"
      "bm_wf b'" "bm_abs b' = fill_range (bm_abs ?b) i 1 True"
    using bmp.take_found [OF wf] by blast
  have i: "i < bit_cnt ?b" "\<not> bm_abs ?b ! i" using b'(3) by (simp_all add: free_group del: One_nat_def)
  have bc: "bit_cnt b' = bit_cnt ?b" using arg_cong [OF b'(5), of length] by (simp add: bitmap_simps)
  let ?st = "st\<lparr>free_map_lock := True, free_map := b'\<rparr>"
  have e: "?st = st\<lparr>free_map := b', free_map_lock := True\<rparr>" by simp
  obtain c' where c': "bitmap_write (inode_write_fuel (Suc n)) b' f ?st = Some (True, ?st\<lparr>cache := c'\<rparr>)"
      "wrote (cache st) c' fd 0 (take (bitmap_file_size b') (bytes_of (bits b')))"
    using bitmap_write_ok [OF m e b'(4) bc f(2)] by blast
  let ?st' = "st\<lparr>cache := c', free_map := b'\<rparr>"
  have lock: "\<not> free_map_lock st" using m by (simp add: map_ok_def)
  then have "(?st\<lparr>cache := c'\<rparr>)\<lparr>free_map_lock := False\<rparr> = ?st'" by simp
  then have run: "free_map_allocate (inode_write_fuel (Suc n)) 1 st = Some (Some (of_nat i), ?st')"
    using b'(1,2) f(1) c'(1) lock by (simp add: free_map_allocate_def)
  have us: "used ?st' = insert (of_nat i) (used st)" "used (st\<lparr>free_map := b'\<rparr>) = insert (of_nat i) (used st)"
    using used_mark [OF wf bc b'(5) i(1)] by (simp_all add: used_def)
  have sub: "sectors_of (cache st) fd \<subseteq> used (st\<lparr>free_map := b'\<rparr>)" using m us(2) by (auto simp: map_ok_def)
  note up = map_updated [OF m b'(4) bc c'(2) sub]
  have "grow fa fd st ?st'" using up(1) us(1) c'(2) bc by (auto simp: grow_def wrote_def)
  moreover have "of_nat i \<notin> used st" using i bit_cnt_word [OF wf i(1)] by (simp add: used_def)
  ultimately show ?thesis using run us(1) up(2) by blast
qed

lemma free_map_allocate_full:
  assumes m: "map_ok fa fd st" and nf: "full st"
  shows "free_map_allocate wr 1 st = Some (None, st)"
proof -
  have wf: "bm_wf (free_map st)" using m by (simp add: map_ok_def)
  have "bitmap_scan_and_flip (free_map st) 0 1 False = Some (BITMAP_ERROR, free_map st)"
    using bmp.take_full [OF wf] nf full_iff by blast
  then show ?thesis using m by (simp add: free_map_allocate_def map_ok_def)
qed

subsection \<open>Allocating the missing blocks\<close>

text \<open>A file whose sectors are allocated, and none of them is the free map's.\<close>

definition owned :: "inode_disk \<Rightarrow> fs \<Rightarrow> inode_disk \<Rightarrow> bool" where
  "owned fd st d \<longleftrightarrow> ino_wf (cache st) d \<and> sectors_of (cache st) d \<subseteq> used st \<and>
     sectors_of (cache st) d \<inter> sectors_of (cache st) fd = {}"

lemma block_sector_in: "k < num_blocks d \<Longrightarrow> block_at (view c) d k \<in> sectors_of c d"
  by (simp add: sectors_of_def blocks_of_def)

lemma grow_view:
  assumes "map_ok fa fd st" and "grow fa fd st st'" and "owned fd st d" and "s \<in> sectors_of (cache st) d"
  shows "view (cache st') s = view (cache st) s"
proof -
  have "valid_sector (cache st) s" using assms used_valid by (auto simp: owned_def)
  moreover have "s \<notin> blocks_of (cache st) fd" using assms(3,4) by (auto simp: owned_def sectors_of_def)
  ultimately show ?thesis using assms(2) by (simp add: grow_def)
qed

lemma grow_owned:
  assumes m: "map_ok fa fd st" and g: "grow fa fd st st'" and o: "owned fd st d"
  shows "same_meta (cache st) (cache st') d" "owned fd st' d"
proof -
  have w: "ino_wf (cache st) d" using o by (simp add: owned_def)
  show sm: "same_meta (cache st) (cache st') d" using same_metaI [OF grow_view [OF m g o] w] by blast
  have "ino_wf (cache st') d" using ino_wf_cong [OF sm _ w] g by (simp add: grow_def)
  then show "owned fd st' d"
    using o g sectors_cong [OF sm] sectors_cong [OF grow_map_meta [OF g m]] by (auto simp: owned_def grow_def)
qed

lemma old_block_iff: "0 \<le> dlength d \<Longrightarrow> int (k * BLOCK_SECTOR_SIZE) < dlength d \<longleftrightarrow> k < num_blocks d"
proof -
  assume "0 \<le> dlength d"
  then have "num_blocks d = nat ((dlength d + 511) div 512)" "0 \<le> (dlength d + 511) div 512"
    by (simp_all add: num_blocks_def bytes_to_sectors_def BLOCK_SECTOR_SIZE_def)
  then show ?thesis
    using div_mult_mod_eq [of "dlength d + 511" 512] pos_mod_bound [of 512 "dlength d + 511"]
      pos_mod_sign [of 512 "dlength d + 511"] by (simp add: BLOCK_SECTOR_SIZE_def) linarith
qed

definition alloc_post :: "nat \<Rightarrow> inode_disk \<Rightarrow> fs \<Rightarrow> block_sector option option \<Rightarrow> fs \<Rightarrow> bool" where
  "alloc_post fa fd st r st' \<longleftrightarrow> grow fa fd st st' \<and>
     (case r of None \<Rightarrow> full st' | Some None \<Rightarrow> used st' = used st
      | Some (Some s) \<Rightarrow> s \<notin> used st \<and> used st' = insert s (used st))"

lemma alloc_missing_ok:
  assumes m: "map_ok fa fd st" and o: "ino_wf (cache st) d"
  shows "\<exists>r st'. alloc_missing (inode_write_fuel (Suc n)) d k st = Some (r, st') \<and> alloc_post fa fd st r st'
    \<and> (r = Some None \<longleftrightarrow> k < num_blocks d)"
proof (cases "k < num_blocks d")
  case True
  have q: "quiet (cache st)" using m by (simp add: map_ok_def)
  have l: "0 \<le> int (k * BLOCK_SECTOR_SIZE)" "int (k * BLOCK_SECTOR_SIZE) < dlength d"
    using True old_block_iff o by (simp_all add: ino_wf_def)
  have k: "nat (int (k * BLOCK_SECTOR_SIZE)) div BLOCK_SECTOR_SIZE = k" by (simp add: BLOCK_SECTOR_SIZE_def)
  obtain st' where st': "with_cache (byte_to_sector d (int (k * BLOCK_SECTOR_SIZE))) st = Some (block_at (view (cache st)) d k, st')"
      "cache_step st st'"
    using loop_sector [OF q o l] unfolding k by blast
  have "block_at (view (cache st)) d k \<noteq> NO_SECTOR"
    using valid_not_invalid [OF block_valid [OF o True]] by (simp add: NO_SECTOR_def)
  then have "alloc_missing (inode_write_fuel (Suc n)) d k st = Some (Some None, st')"
    using st'(1) by (simp add: alloc_missing_def)
  then show ?thesis using True cache_step_grow [OF m st'(2)] by (auto simp: alloc_post_def)
next
  case False
  then have "\<not> int (k * BLOCK_SECTOR_SIZE) < dlength d" using old_block_iff o by (simp add: ino_wf_def)
  then have bs: "with_cache (byte_to_sector d (int (k * BLOCK_SECTOR_SIZE))) st = Some (NO_SECTOR, st)"
    by (simp add: with_cache_def byte_to_sector_def del: of_nat_mult)
  show ?thesis
  proof (cases "full st")
    case True
    then have "alloc_missing (inode_write_fuel (Suc n)) d k st = Some (None, st)"
      using bs free_map_allocate_full [OF m] by (simp add: alloc_missing_def)
    then show ?thesis using False True grow_refl [OF m] by (auto simp: alloc_post_def)
  next
    case notfull: False
    obtain s st' where "free_map_allocate (inode_write_fuel (Suc n)) 1 st = Some (Some s, st')" "grow fa fd st st'"
        "s \<notin> used st" "used st' = insert s (used st)"
      using free_map_allocate_ok [OF m notfull] by blast
    then show ?thesis using bs False by (auto simp: alloc_missing_def alloc_post_def)
  qed
qed

text \<open>
  What the loop over an array of pointers has done after \<open>cnt\<close> iterations: the pointers of the blocks from \<open>first\<close>
  on that were missing are new and distinct; all others are as before.
\<close>

definition loop_post ::
  "nat \<Rightarrow> inode_disk \<Rightarrow> nat \<Rightarrow> nat \<Rightarrow> block_sector list \<Rightarrow> fs \<Rightarrow> nat \<Rightarrow> bool \<times> block_sector list \<times> fs \<Rightarrow> bool" where
  "loop_post fa fd first old ptrs st cnt = (\<lambda>(ok, ptrs', st'). grow fa fd st st' \<and> length ptrs' = length ptrs \<and>
     (\<not> ok \<longrightarrow> full st') \<and>
     (\<forall>j < length ptrs. cnt \<le> j \<or> first + j < old \<longrightarrow> ptrs' ! j = ptrs ! j) \<and>
     (ok \<longrightarrow> inj_on ((!) ptrs') {j. j < cnt \<and> old \<le> first + j} \<and>
        (\<forall>j < cnt. old \<le> first + j \<longrightarrow> ptrs' ! j \<in> used st' - used st)))"

lemma alloc_iteration:
  assumes m: "map_ok fa fd st" and o: "owned fd st d" and P: "loop_post fa fd first (num_blocks d) ptrs st j (True, ptrs', st')"
    and j: "j < length ptrs"
  shows "\<exists>r st''. alloc_missing (inode_write_fuel (Suc n)) d (first + j) st' = Some (r, st'') \<and>
    (case r of None \<Rightarrow> loop_post fa fd first (num_blocks d) ptrs st (Suc j) (False, ptrs', st'')
     | Some None \<Rightarrow> loop_post fa fd first (num_blocks d) ptrs st (Suc j) (True, ptrs', st'')
     | Some (Some s) \<Rightarrow> loop_post fa fd first (num_blocks d) ptrs st (Suc j) (True, ptrs'[j := s], st''))"
proof -
  have g: "grow fa fd st st'" using P by (simp add: loop_post_def)
  have w: "ino_wf (cache st') d" using grow_owned [OF m g o] by (simp add: owned_def)
  obtain r st'' where r: "alloc_missing (inode_write_fuel (Suc n)) d (first + j) st' = Some (r, st'')"
      "alloc_post fa fd st' r st''" "r = Some None \<longleftrightarrow> first + j < num_blocks d"
    using alloc_missing_ok [OF grow_fields(7) [OF g] w] by blast
  have g2: "grow fa fd st st''" using grow_trans [OF m g] r(2) by (simp add: alloc_post_def)
  have u: "used st' \<subseteq> used st''" using r(2) by (simp add: alloc_post_def grow_def)
  show ?thesis
  proof (cases r)
    case None
    then show ?thesis using r P g2 by (auto simp: loop_post_def alloc_post_def)
  next
    case (Some p)
    show ?thesis
    proof (cases p)
      case None
      then have "first + j < num_blocks d" using Some r(3) by simp
      then show ?thesis using Some None r P g2 u by (auto simp: loop_post_def less_Suc_eq inj_on_def)
    next
      case new: (Some s)
      have s: "s \<notin> used st'" "used st'' = insert s (used st')" and old: "num_blocks d \<le> first + j"
        using r(2,3) Some new by (auto simp: alloc_post_def)
      have f: "s \<in> used st'' - used st" using s g by (auto simp: grow_def)
      have "inj_on ((!) (ptrs'[j := s])) {i. i < Suc j \<and> num_blocks d \<le> first + i}"
      proof (rule inj_onI)
        fix x y assume "x \<in> {i. i < Suc j \<and> num_blocks d \<le> first + i}" "y \<in> {i. i < Suc j \<and> num_blocks d \<le> first + i}"
          "ptrs'[j := s] ! x = ptrs'[j := s] ! y"
        moreover have "ptrs' ! i \<noteq> s" if "i < j" "num_blocks d \<le> first + i" for i
          using P that s(1) by (auto simp: loop_post_def)
        ultimately show "x = y" using P j unfolding loop_post_def inj_on_def
          by (auto simp: nth_list_update less_Suc_eq split: if_splits)
      qed
      then have "loop_post fa fd first (num_blocks d) ptrs st (Suc j) (True, ptrs'[j := s], st'')"
        using P g2 f u j old unfolding loop_post_def by (auto simp: nth_list_update less_Suc_eq)
      then show ?thesis using r(1) Some new by simp
    qed
  qed
qed

lemma alloc_loop_ok:
  assumes m: "map_ok fa fd st" and o: "owned fd st d" and l: "cnt \<le> length ptrs"
  shows "\<exists>ok ptrs' st'. alloc_loop (inode_write_fuel (Suc n)) d first cnt ptrs st = Some (ok, ptrs', st')
    \<and> loop_post fa fd first (num_blocks d) ptrs st cnt (ok, ptrs', st')"
proof -
  let ?P = "loop_post fa fd first (num_blocks d) ptrs st"
  have "\<exists>s'. alloc_loop (inode_write_fuel (Suc n)) d first cnt ptrs st = Some s' \<and> ?P cnt s'"
    unfolding alloc_loop_def
  proof (rule for_upto_rule)
    show "?P 0 (True, ptrs, st)" using grow_refl [OF m] by (simp add: loop_post_def)
    fix j and s :: "bool \<times> block_sector list \<times> fs" assume j: "j < cnt" and P: "?P j s"
    obtain ok ptrs' st' where s: "s = (ok, ptrs', st')" by (cases s)
    show "\<exists>s'. (case s of (ok, ptrs, st) \<Rightarrow>
         if \<not> ok then Some (False, ptrs, st)
         else do {
           (r, st) \<leftarrow> alloc_missing (inode_write_fuel (Suc n)) d (first + j) st;
           case r of
             None \<Rightarrow> Some (False, ptrs, st)
           | Some None \<Rightarrow> Some (True, ptrs, st)
           | Some (Some s) \<Rightarrow> do { ptrs \<leftarrow> array_set ptrs j s; Some (True, ptrs, st) } }) = Some s' \<and> ?P (Suc j) s'"
    proof (cases ok)
      case False
      then show ?thesis using P by (auto simp: s loop_post_def)
    next
      case True
      have len: "length ptrs' = length ptrs" using P by (simp add: s loop_post_def)
      obtain r st'' where "alloc_missing (inode_write_fuel (Suc n)) d (first + j) st' = Some (r, st'')"
        "case r of None \<Rightarrow> ?P (Suc j) (False, ptrs', st'') | Some None \<Rightarrow> ?P (Suc j) (True, ptrs', st'')
         | Some (Some s) \<Rightarrow> ?P (Suc j) (True, ptrs'[j := s], st'')"
        using alloc_iteration [OF m o, of first ptrs j ptrs' st' n] P [unfolded s] True j l by fastforce
      then show ?thesis using True j l len by (auto simp: s split: option.splits)
    qed
  qed simp
  then show ?thesis by auto
qed

subsection \<open>Growing a file\<close>

text \<open>From the file \<open>d\<close> in \<open>st\<close> to the file \<open>d'\<close> in \<open>st'\<close>: the old blocks stay, everything new was free, and
  no other allocated sector changes, except the free map's.\<close>

definition grown :: "nat \<Rightarrow> inode_disk \<Rightarrow> fs \<Rightarrow> inode_disk \<Rightarrow> fs \<Rightarrow> inode_disk \<Rightarrow> bool" where
  "grown fa fd st d st' d' \<longleftrightarrow> same_rest st st' \<and> map_ok fa fd st' \<and>
     valid_sector (cache st') = valid_sector (cache st) \<and> bit_cnt (free_map st') = bit_cnt (free_map st) \<and>
     used st \<subseteq> used st' \<and> sectors_of (cache st') fd = sectors_of (cache st) fd \<and> blocks_of (cache st') fd = blocks_of (cache st) fd \<and>
     owned fd st' d' \<and> num_blocks d \<le> num_blocks d' \<and>
     (\<forall>k < num_blocks d. block_at (view (cache st')) d' k = block_at (view (cache st)) d k) \<and>
     (\<forall>k < num_blocks d'. num_blocks d \<le> k \<longrightarrow> block_at (view (cache st')) d' k \<notin> used st) \<and>
     meta_sectors (view (cache st')) d' (num_blocks d') \<subseteq> meta_sectors (view (cache st)) d (num_blocks d) \<union> - used st \<and>
     (\<forall>s \<in> used st. s \<notin> blocks_of (cache st) fd \<longrightarrow> s \<notin> meta_sectors (view (cache st)) d (num_blocks d) \<longrightarrow>
        view (cache st') s = view (cache st) s)"

lemma grown_trans:
  assumes "grown fa fd st d st1 d1" and "grown fa fd st1 d1 st2 d2"
  shows "grown fa fd st d st2 d2"
proof -
  have 1: "same_rest st st2" using assms same_rest_trans by (auto simp: grown_def)
  have u: "used st \<subseteq> used st1" "used st1 \<subseteq> used st2" "num_blocks d \<le> num_blocks d1" "num_blocks d1 \<le> num_blocks d2"
    using assms by (simp_all add: grown_def)
  have 2: "block_at (view (cache st2)) d2 k \<notin> used st" if "k < num_blocks d2" "num_blocks d \<le> k" for k
    using assms that u unfolding grown_def by (cases "k < num_blocks d1") auto
  have 3: "view (cache st2) s = view (cache st) s" if "s \<in> used st" "s \<notin> blocks_of (cache st) fd"
      "s \<notin> meta_sectors (view (cache st)) d (num_blocks d)" for s
  proof -
    have "s \<in> used st1" "s \<notin> meta_sectors (view (cache st1)) d1 (num_blocks d1)" "s \<notin> blocks_of (cache st1) fd"
      using assms(1) that u by (auto simp: grown_def)
    then have "view (cache st2) s = view (cache st1) s" using assms(2) by (simp add: grown_def)
    also have "\<dots> = view (cache st) s" using assms(1) that by (simp add: grown_def)
    finally show ?thesis .
  qed
  have 4: "meta_sectors (view (cache st2)) d2 (num_blocks d2) \<subseteq> meta_sectors (view (cache st)) d (num_blocks d) \<union> - used st"
    using assms u unfolding grown_def by blast
  have 5: "\<forall>k < num_blocks d. block_at (view (cache st2)) d2 k = block_at (view (cache st)) d k"
    using assms u unfolding grown_def by auto
  have "map_ok fa fd st2" "owned fd st2 d2" "valid_sector (cache st2) = valid_sector (cache st)"
    "bit_cnt (free_map st2) = bit_cnt (free_map st)" "sectors_of (cache st2) fd = sectors_of (cache st) fd"
    "blocks_of (cache st2) fd = blocks_of (cache st) fd"
    using assms by (simp_all add: grown_def)
  then show ?thesis unfolding grown_def using 1 2 3 4 5 u by (simp add: subset_trans [OF u(1,2)] order_trans [OF u(3,4)])
qed

text \<open>The contents of the old part of the file are kept.\<close>

lemma grown_content:
  assumes m: "map_ok fa fd st" and o: "owned fd st d" and e: "grown fa fd st d st' d'" and p: "p < nat (dlength d)"
  shows "file_byte (cache st') d' p = file_byte (cache st) d p"
proof -
  let ?k = "p div BLOCK_SECTOR_SIZE"
  have w: "ino_wf (cache st) d" using o by (simp add: owned_def)
  then have k: "?k < num_blocks d" using block_in_range p by (simp add: ino_wf_def)
  let ?s = "block_at (view (cache st)) d ?k"
  have s: "?s \<in> blocks_of (cache st) d" using k by (simp add: blocks_of_def)
  then have "?s \<in> used st" "?s \<notin> blocks_of (cache st) fd" "?s \<notin> meta_sectors (view (cache st)) d (num_blocks d)"
    using o w by (auto simp: owned_def sectors_of_def ino_wf_def)
  then show ?thesis using e k by (simp add: file_byte_def grown_def)
qed

lemma grown_others:
  assumes m: "map_ok fa fd st" and x: "grown fa fd st d st' d'" and o: "owned fd st e"
    and dj: "sectors_of (cache st) e \<inter> sectors_of (cache st) d = {}"
  shows "owned fd st' e" "file_content (cache st') e = file_content (cache st) e"
    "sectors_of (cache st') e \<inter> sectors_of (cache st') d' = {}"
proof -
  have w: "ino_wf (cache st) e" using o by (simp add: owned_def)
  have fr: "view (cache st') s = view (cache st) s" if "s \<in> sectors_of (cache st) e" for s
  proof -
    have "s \<in> used st" "s \<notin> sectors_of (cache st) d" "s \<notin> sectors_of (cache st) fd" using that o dj by (auto simp: owned_def)
    then show ?thesis using x by (auto simp: grown_def sectors_of_def)
  qed
  have sm: "same_meta (cache st) (cache st') e" using fr by (auto simp: same_meta_def sectors_of_def)
  have w': "ino_wf (cache st') e" using ino_wf_cong [OF sm _ w] x by (simp add: grown_def)
  note sc = sectors_cong [OF sm]
  show "owned fd st' e" using o x w' unfolding owned_def sc by (auto simp: grown_def)
  have "file_byte (cache st') e p = file_byte (cache st) e p" if "p < nat (dlength e)" for p
  proof -
    have k: "p div BLOCK_SECTOR_SIZE < num_blocks e" using block_in_range that w by (simp add: ino_wf_def)
    then show ?thesis using fr block_sector_in by (simp add: file_byte_def block_at_cong [OF sm k])
  qed
  then show "file_content (cache st') e = file_content (cache st) e" by (simp add: file_content_def)
  have "block_at (view (cache st')) d' k \<notin> sectors_of (cache st) e" if "k < num_blocks d'" for k
    using x that o dj block_sector_in [of k d "cache st"] unfolding grown_def owned_def by (cases "k < num_blocks d") auto
  moreover have "meta_sectors (view (cache st')) d' (num_blocks d') \<inter> sectors_of (cache st) e = {}"
  proof -
    have "meta_sectors (view (cache st')) d' (num_blocks d') \<subseteq> meta_sectors (view (cache st)) d (num_blocks d) \<union> - used st"
      using x by (simp add: grown_def)
    moreover have "sectors_of (cache st) e \<subseteq> used st" using o by (simp add: owned_def)
    moreover have "sectors_of (cache st) e \<inter> meta_sectors (view (cache st)) d (num_blocks d) = {}"
      using dj unfolding sectors_of_def [of "cache st" d] by blast
    ultimately show ?thesis by blast
  qed
  ultimately show "sectors_of (cache st') e \<inter> sectors_of (cache st') d' = {}"
    unfolding sc sectors_of_def [of "cache st'" d'] blocks_of_def by blast
qed

subsection \<open>Properties\<close>


lemma map_inode_blocks: "num_blocks map_inode = 1" "block_at v map_inode 0 = 2" "meta_list v map_inode 1 = []"
  "length (direct_ptrs map_inode) = NUM_DIRECT" "dlength map_inode = 16"
  by (simp_all add: num_blocks_def bytes_to_sectors_def map_inode_def block_at_def meta_list_def inode_consts)

lemma map_inode_sectors: "sectors_of c map_inode = {2}"
  unfolding sectors_of_def blocks_of_def map_inode_blocks(1) by (simp add: map_inode_blocks [unfolded One_nat_def] lessThan_Suc)

lemma small_fs_used: "used small_fs = {s. unat s < 100 \<and> bit (if unat s < 32 then 0xC0F :: u32 else 0) (unat s)}"
proof -
  have "bm_abs (free_map small_fs) ! i = bit (if i < 32 then 0xC0F :: u32 else 0) i" if "i < 100" for i
  proof (cases "i < 32")
    case False
    then have "i div 32 \<in> {1, 2, 3}" using that by auto
    then show ?thesis using that False by (auto simp: bitmap_simps small_fs_def bm_bit_def)
  qed (simp add: bitmap_simps small_fs_def bm_bit_def)
  moreover have "bit_cnt (free_map small_fs) = 100" by (simp add: small_fs_def)
  ultimately show ?thesis unfolding used_def by (intro Collect_cong conj_cong) simp_all
qed

lemma small_fs_map_ok: "map_ok 0 map_inode small_fs"
proof -
  have "ino_wf (cache small_fs) map_inode"
    unfolding ino_wf_def blocks_of_def map_inode_blocks(1)
    by (simp add: map_inode_blocks [unfolded One_nat_def] lessThan_Suc MAX_BLOCKS_def)
      (simp add: small_fs_def zero_disk_quiet)
  moreover have "{2} \<subseteq> used small_fs" by (simp add: small_fs_used)
  moreover have "bm_wf (free_map small_fs)" "int (bitmap_file_size (free_map small_fs)) \<le> dlength map_inode"
    by (simp_all add: small_fs_def bm_wf_def elem_cnt_def ELEM_BITS_def DIV_ROUND_UP_def sz_add_def sz_sub_def sz_mul_def
        bitmap_file_size_def byte_cnt_def map_inode_blocks)
  moreover have "valid_sector (cache small_fs) s" if "unat s < 100" for s
    using that by (simp add: small_fs_def zero_disk_quiet word_less_nat_alt)
  moreover have "idle small_fs 0 map_inode" by (simp add: idle_def small_fs_def open_inode_def)
  ultimately show ?thesis using small_file_idle(2)
    by (simp add: map_ok_def map_inode_sectors off_ok_def map_inode_blocks) (simp add: small_fs_def)
qed


end
