(* ===== verification/Filesys.thy ===== *)
theory Filesys
  imports Inode_Alloc
begin

text \<open>
  Open files (\<open>filesys/file.c\<close>), directories (\<open>filesys/directory.c\<close>), the free map's life cycle
  (\<open>filesys/free-map.c\<close>) and the file system's entry points (\<open>filesys/filesys.c\<close>).

  Names are C strings, here the lists of their bytes without the terminator. A file or directory
  structure is a value the caller keeps; the heap only decides whether it could be allocated.
\<close>

subsection \<open>Open files\<close>

definition file_open :: "nat option \<Rightarrow> fs \<Rightarrow> (file_struct option \<times> fs) option" where
  "file_open inode st = do {
     let (p, st) = malloc st;
     case (inode, p) of
       (Some a, Some _) \<Rightarrow> Some (Some \<lparr>finode = a, fpos = 0, fdeny_write = False\<rparr>, st)
     | (Some a, None) \<Rightarrow> do { st \<leftarrow> inode_close a st; Some (None, st) }
     | (None, _) \<Rightarrow> Some (None, st) }"

definition file_reopen :: "file_struct \<Rightarrow> fs \<Rightarrow> (file_struct option \<times> fs) option" where
  "file_reopen f st = do {
     st \<leftarrow> inode_reopen (finode f) st;
     file_open (Some (finode f)) st }"

definition file_deny_write :: "file_struct \<Rightarrow> fs \<Rightarrow> (file_struct \<times> fs) option" where
  "file_deny_write f st =
     (if \<not> fdeny_write f then do {
        st \<leftarrow> inode_deny_write (finode f) st;
        Some (f\<lparr>fdeny_write := True\<rparr>, st) }
      else Some (f, st))"

definition file_allow_write :: "file_struct \<Rightarrow> fs \<Rightarrow> (file_struct \<times> fs) option" where
  "file_allow_write f st =
     (if fdeny_write f then do {
        st \<leftarrow> inode_allow_write (finode f) st;
        Some (f\<lparr>fdeny_write := False\<rparr>, st) }
      else Some (f, st))"

definition file_close :: "file_struct option \<Rightarrow> fs \<Rightarrow> fs option" where
  "file_close fo st = (case fo of None \<Rightarrow> Some st
     | Some f \<Rightarrow> do {
         (f, st) \<leftarrow> file_allow_write f st;
         inode_close (finode f) st })"

definition file_get_inode :: "file_struct \<Rightarrow> nat" where
  "file_get_inode f = finode f"

text \<open>The result is the returned count, the bytes stored in the buffer and the file with its new position.\<close>

definition file_read :: "file_struct \<Rightarrow> int \<Rightarrow> fs \<Rightarrow> (int \<times> bytes \<times> file_struct \<times> fs) option" where
  "file_read f sz st = do {
     (bytes_read, b, st) \<leftarrow> inode_read_at (finode f) sz (fpos f) st;
     guard (off_ok (fpos f + bytes_read));
     Some (bytes_read, b, f\<lparr>fpos := fpos f + bytes_read\<rparr>, st) }"

definition file_read_at :: "file_struct \<Rightarrow> int \<Rightarrow> int \<Rightarrow> fs \<Rightarrow> (int \<times> bytes \<times> fs) option" where
  "file_read_at f sz file_ofs st = inode_read_at (finode f) sz file_ofs st"

definition file_write :: "file_struct \<Rightarrow> bytes \<Rightarrow> int \<Rightarrow> fs \<Rightarrow> (int \<times> file_struct \<times> fs) option" where
  "file_write f buffer sz st = do {
     (bytes_written, st) \<leftarrow> inode_write_at (finode f) buffer sz (fpos f) st;
     guard (off_ok (fpos f + bytes_written));
     Some (bytes_written, f\<lparr>fpos := fpos f + bytes_written\<rparr>, st) }"

definition file_length :: "file_struct \<Rightarrow> fs \<Rightarrow> int option" where
  "file_length f st = inode_length (finode f) st"

definition file_seek :: "file_struct \<Rightarrow> int \<Rightarrow> file_struct option" where
  "file_seek f new_pos = do {
     guard (0 \<le> new_pos);
     Some (f\<lparr>fpos := new_pos\<rparr>) }"

definition file_tell :: "file_struct \<Rightarrow> int" where
  "file_tell f = fpos f"

subsection \<open>Life cycle of the free map\<close>

definition FREE_MAP_SECTOR :: block_sector where
  "FREE_MAP_SECTOR = 0"

definition ROOT_DIR_SECTOR :: block_sector where
  "ROOT_DIR_SECTOR = 1"

text \<open>The storage for the bitmap comes from \<open>malloc\<close>, whatever it holds.\<close>

definition free_map_init :: "bool \<Rightarrow> u32 list option \<Rightarrow> fs \<Rightarrow> fs option" where
  "free_map_init got_header storage st = do {
     n \<leftarrow> block_size (dev (cache st)) (fs_device (cache st));
     bo \<leftarrow> bitmap_create got_header storage (unat n);
     b \<leftarrow> bo;
     b \<leftarrow> bitmap_mark b (unat FREE_MAP_SECTOR);
     b \<leftarrow> bitmap_mark b (unat ROOT_DIR_SECTOR);
     Some (st\<lparr>free_map := b, free_map_lock := False\<rparr>) }"

text \<open>Reads the words of the bitmap and clears the unused bits of the last one; fails on a short read.\<close>

definition bitmap_read :: "bitmap \<Rightarrow> file_struct \<Rightarrow> fs \<Rightarrow> (bool \<times> bitmap \<times> fs) option" where
  "bitmap_read b f st =
     (if 0 < bit_cnt b then do {
        let sz = int (byte_cnt (bit_cnt b));
        (n, buf, st) \<leftarrow> file_read_at f sz 0 st;
        let ws = splice 0 (words_of buf) (bits b);
        let last = elem_cnt (bit_cnt b) - 1;
        w \<leftarrow> array_get ws last;
        ws \<leftarrow> array_set ws last (w AND last_mask b);
        Some (n = sz, b\<lparr>bits := ws\<rparr>, st) }
      else Some (True, b, st))"

definition free_map_open :: "fs \<Rightarrow> fs option" where
  "free_map_open st = do {
     (i, st) \<leftarrow> inode_open FREE_MAP_SECTOR st;
     (fo, st) \<leftarrow> file_open i st;
     let st = st\<lparr>free_map_file := fo\<rparr>;
     f \<leftarrow> fo;
     (ok, b, st) \<leftarrow> bitmap_read (free_map st) f st;
     guard ok;
     Some (st\<lparr>free_map := b\<rparr>) }"

text \<open>The pointer \<open>free_map_file\<close> keeps its value.\<close>

definition free_map_close :: "fs \<Rightarrow> fs option" where
  "free_map_close st = file_close (free_map_file st) st"

definition free_map_create :: "fs \<Rightarrow> fs option" where
  "free_map_create st = do {
     (ok, st) \<leftarrow> inode_create FREE_MAP_SECTOR (int (bitmap_file_size (free_map st))) st;
     guard ok;
     (i, st) \<leftarrow> inode_open FREE_MAP_SECTOR st;
     (fo, st) \<leftarrow> file_open i st;
     let st = st\<lparr>free_map_file := fo\<rparr>;
     f \<leftarrow> fo;
     (ok, st) \<leftarrow> bitmap_write inode_write_at (free_map st) f st;
     guard ok;
     Some st }"

subsection \<open>Directory entries\<close>

definition NAME_MAX :: nat where
  "NAME_MAX = 14"

record dir =
  dinode :: nat
  dpos :: int

record dir_entry =
  inode_sector :: block_sector
  ename :: bytes
  in_use :: bool

definition DIR_ENTRY_SIZE :: nat where
  "DIR_ENTRY_SIZE = 20"

definition encode_entry :: "dir_entry \<Rightarrow> bytes" where
  "encode_entry e = to_le32 (inode_sector e) @ ename e @ [if in_use e then 1 else 0]"

definition decode_entry :: "bytes \<Rightarrow> dir_entry" where
  "decode_entry b = \<lparr>inode_sector = le32 (b ! 0) (b ! 1) (b ! 2) (b ! 3), ename = slice 4 (NAME_MAX + 1) b,
     in_use = (b ! 19 \<noteq> 0)\<rparr>"

text \<open>\<open>!strcmp (name, array)\<close>: reads the array up to the first difference or the end of both.\<close>

fun str_eq :: "bytes \<Rightarrow> bytes \<Rightarrow> bool option" where
  "str_eq name [] = None"
| "str_eq [] (y # ys) = Some (y = 0)"
| "str_eq (x # xs) (y # ys) = (if x = y then str_eq xs ys else Some False)"

text \<open>The string at the start of an array; without a terminator the reader runs past its end.\<close>

definition c_string :: "bytes \<Rightarrow> bytes option" where
  "c_string b = (if 0 \<in> set b then Some (takeWhile (\<lambda>x. x \<noteq> 0) b) else None)"

text \<open>\<open>strlcpy (dst, src, size)\<close> for an array \<open>dst\<close> of \<open>size\<close> bytes.\<close>

definition strlcpy_array :: "bytes \<Rightarrow> bytes \<Rightarrow> bytes" where
  "strlcpy_array dst src = splice 0 (take (length dst - 1) src @ [0]) dst"

subsection \<open>Directories\<close>

definition dir_create :: "block_sector \<Rightarrow> nat \<Rightarrow> fs \<Rightarrow> (bool \<times> fs) option" where
  "dir_create s entry_cnt st = inode_create s (int (entry_cnt * DIR_ENTRY_SIZE)) st"

definition dir_open :: "nat option \<Rightarrow> fs \<Rightarrow> (dir option \<times> fs) option" where
  "dir_open inode st = do {
     let (p, st) = malloc st;
     case (inode, p) of
       (Some a, Some _) \<Rightarrow> Some (Some \<lparr>dinode = a, dpos = 0\<rparr>, st)
     | (Some a, None) \<Rightarrow> do { st \<leftarrow> inode_close a st; Some (None, st) }
     | (None, _) \<Rightarrow> Some (None, st) }"

definition dir_open_root :: "fs \<Rightarrow> (dir option \<times> fs) option" where
  "dir_open_root st = do {
     (i, st) \<leftarrow> inode_open ROOT_DIR_SECTOR st;
     dir_open i st }"

definition dir_reopen :: "dir \<Rightarrow> fs \<Rightarrow> (dir option \<times> fs) option" where
  "dir_reopen d st = do {
     st \<leftarrow> inode_reopen (dinode d) st;
     dir_open (Some (dinode d)) st }"

definition dir_close :: "dir option \<Rightarrow> fs \<Rightarrow> fs option" where
  "dir_close dopt st = (case dopt of None \<Rightarrow> Some st | Some d \<Rightarrow> inode_close (dinode d) st)"

definition dir_get_inode :: "dir \<Rightarrow> nat" where
  "dir_get_inode d = dinode d"

text \<open>One read of an entry; \<open>None\<close> when \<open>inode_read_at\<close> does not return the size of an entry.\<close>

definition read_entry :: "nat \<Rightarrow> int \<Rightarrow> fs \<Rightarrow> (dir_entry option \<times> fs) option" where
  "read_entry a ofs st = do {
     (n, b, st) \<leftarrow> inode_read_at a (int DIR_ENTRY_SIZE) ofs st;
     Some (if n = int DIR_ENTRY_SIZE then Some (decode_entry b) else None, st) }"

partial_function (option) lookup_from ::
  "nat \<Rightarrow> bytes \<Rightarrow> int \<Rightarrow> fs \<Rightarrow> ((dir_entry \<times> int) option \<times> fs) option" where
  "lookup_from a name ofs st = do {
     (eo, st) \<leftarrow> read_entry a ofs st;
     case eo of None \<Rightarrow> Some (None, st)
     | Some e \<Rightarrow>
         if in_use e then do {
           eq \<leftarrow> str_eq name (ename e);
           if eq then Some (Some (e, ofs), st)
           else lookup_from a name (ofs + int DIR_ENTRY_SIZE) st }
         else lookup_from a name (ofs + int DIR_ENTRY_SIZE) st }"

definition lookup :: "dir \<Rightarrow> bytes \<Rightarrow> fs \<Rightarrow> ((dir_entry \<times> int) option \<times> fs) option" where
  "lookup d name st = lookup_from (dinode d) name 0 st"

definition dir_lookup :: "dir \<Rightarrow> bytes \<Rightarrow> fs \<Rightarrow> (nat option \<times> fs) option" where
  "dir_lookup d name st = do {
     (r, st) \<leftarrow> lookup d name st;
     case r of Some (e, _) \<Rightarrow> inode_open (inode_sector e) st | None \<Rightarrow> Some (None, st) }"

text \<open>The loop of \<open>dir_add\<close>: the offset of the first free slot or of the end, and the variable
  \<open>e\<close>, which keeps its last value when nothing is read.\<close>

partial_function (option) free_slot_from ::
  "nat \<Rightarrow> int \<Rightarrow> dir_entry \<Rightarrow> fs \<Rightarrow> (int \<times> dir_entry \<times> fs) option" where
  "free_slot_from a ofs e st = do {
     (eo, st) \<leftarrow> read_entry a ofs st;
     case eo of None \<Rightarrow> Some (ofs, e, st)
     | Some e \<Rightarrow> if \<not> in_use e then Some (ofs, e, st)
                 else free_slot_from a (ofs + int DIR_ENTRY_SIZE) e st }"

text \<open>\<open>junk\<close> is the uninitialised local variable \<open>e\<close>.\<close>

definition dir_add :: "dir_entry \<Rightarrow> dir \<Rightarrow> bytes \<Rightarrow> block_sector \<Rightarrow> fs \<Rightarrow> (bool \<times> fs) option" where
  "dir_add junk d name s st =
     (if name = [] \<or> NAME_MAX < length name then Some (False, st)
      else do {
        (r, st) \<leftarrow> lookup d name st;
        if r \<noteq> None then Some (False, st)
        else do {
          (ofs, e, st) \<leftarrow> free_slot_from (dinode d) 0 junk st;
          let e = \<lparr>inode_sector = s, ename = strlcpy_array (ename e) name, in_use = True\<rparr>;
          (n, st) \<leftarrow> inode_write_at (dinode d) (encode_entry e) (int DIR_ENTRY_SIZE) ofs st;
          Some (n = int DIR_ENTRY_SIZE, st) } })"

definition dir_remove :: "dir \<Rightarrow> bytes \<Rightarrow> fs \<Rightarrow> (bool \<times> fs) option" where
  "dir_remove d name st = do {
     (r, st) \<leftarrow> lookup d name st;
     case r of None \<Rightarrow> Some (False, st)
     | Some (e, ofs) \<Rightarrow> do {
         (i, st) \<leftarrow> inode_open (inode_sector e) st;
         case i of None \<Rightarrow> Some (False, st)
         | Some a \<Rightarrow> do {
             (n, st) \<leftarrow> inode_write_at (dinode d) (encode_entry (e\<lparr>in_use := False\<rparr>)) (int DIR_ENTRY_SIZE) ofs st;
             if n \<noteq> int DIR_ENTRY_SIZE then do {
               st \<leftarrow> inode_close a st;
               Some (False, st) }
             else do {
               st \<leftarrow> inode_remove a st;
               st \<leftarrow> inode_close a st;
               Some (True, st) } } } }"

partial_function (option) dir_readdir :: "dir \<Rightarrow> fs \<Rightarrow> (bytes option \<times> dir \<times> fs) option" where
  "dir_readdir d st = do {
     (eo, st) \<leftarrow> read_entry (dinode d) (dpos d) st;
     case eo of None \<Rightarrow> Some (None, d, st)
     | Some e \<Rightarrow> do {
         let d = d\<lparr>dpos := dpos d + int DIR_ENTRY_SIZE\<rparr>;
         if in_use e then do {
           s \<leftarrow> c_string (ename e);
           Some (Some (take NAME_MAX s), d, st) }
         else dir_readdir d st } }"

subsection \<open>The file system\<close>

text \<open>The last steps of \<open>filesys_create\<close>: give the sector back after a failure, close the directory.\<close>

definition create_done :: "bool \<Rightarrow> block_sector \<Rightarrow> dir option \<Rightarrow> fs \<Rightarrow> (bool \<times> fs) option" where
  "create_done success s d st = do {
     st \<leftarrow> (if \<not> success \<and> s \<noteq> 0 then free_map_release inode_write_at s 1 st else Some st);
     st \<leftarrow> dir_close d st;
     Some (success, st) }"

definition filesys_create :: "dir_entry \<Rightarrow> bytes \<Rightarrow> int \<Rightarrow> fs \<Rightarrow> (bool \<times> fs) option" where
  "filesys_create junk name initial_size st = do {
     (dopt, st) \<leftarrow> dir_open_root st;
     case dopt of None \<Rightarrow> create_done False 0 None st
     | Some d \<Rightarrow> do {
         (so, st) \<leftarrow> free_map_allocate inode_write_at 1 st;
         case so of None \<Rightarrow> create_done False 0 (Some d) st
         | Some s \<Rightarrow> do {
             (ok, st) \<leftarrow> inode_create s initial_size st;
             if \<not> ok then create_done False s (Some d) st
             else do {
               (ok, st) \<leftarrow> dir_add junk d name s st;
               create_done ok s (Some d) st } } } }"

definition filesys_open :: "bytes \<Rightarrow> fs \<Rightarrow> (file_struct option \<times> fs) option" where
  "filesys_open name st = do {
     (dopt, st) \<leftarrow> dir_open_root st;
     (i, st) \<leftarrow> (case dopt of None \<Rightarrow> Some (None, st) | Some d \<Rightarrow> dir_lookup d name st);
     st \<leftarrow> dir_close dopt st;
     file_open i st }"

definition filesys_remove :: "bytes \<Rightarrow> fs \<Rightarrow> (bool \<times> fs) option" where
  "filesys_remove name st = do {
     (dopt, st) \<leftarrow> dir_open_root st;
     (success, st) \<leftarrow> (case dopt of None \<Rightarrow> Some (False, st) | Some d \<Rightarrow> dir_remove d name st);
     st \<leftarrow> dir_close dopt st;
     Some (success, st) }"

definition do_format :: "fs \<Rightarrow> fs option" where
  "do_format st = do {
     st \<leftarrow> free_map_create st;
     (ok, st) \<leftarrow> dir_create ROOT_DIR_SECTOR 16 st;
     guard ok;
     free_map_close st }"

text \<open>The device is the one with the file system's role; \<open>bufcache_init\<close> has prepared the cache for it.\<close>

definition filesys_init :: "bool \<Rightarrow> u32 list option \<Rightarrow> bool \<Rightarrow> fs \<Rightarrow> fs option" where
  "filesys_init got_header storage format st = do {
     bo \<leftarrow> block_get_role (dev (cache st)) BLOCK_FILESYS;
     b \<leftarrow> bo;
     let st = st\<lparr>cache := (cache st)\<lparr>fs_device := b\<rparr>\<rparr>;
     let st = inode_init st;
     st \<leftarrow> free_map_init got_header storage st;
     st \<leftarrow> (if format then do_format st else Some st);
     free_map_open st }"

definition filesys_done :: "fs \<Rightarrow> fs option" where
  "filesys_done st = free_map_close st"

subsection \<open>Properties\<close>



text \<open>C19: At the end of a file there are no short reads. A read that would pass the end returns \<open>- 1\<close>, stores
  nothing, and \<open>file_read\<close> then moves the position of the file one byte back.\<close>

theorem file_read_past_end:
  assumes "idle st (finode f) d" and "dlength d < fpos f + sz" "off_ok (fpos f + sz)" "off_ok (fpos f - 1)"
  shows "file_read f sz st = Some (- 1, [], f\<lparr>fpos := fpos f - 1\<rparr>, st)"
proof -
  obtain i where i: "inodes st (finode f) = Some i" "idata i = d" "\<not> inode_lock i" "\<not> extending i" "deny_write_cnt i = 0"
    using assms(1) by (auto simp: idle_def)
  have "inode_read_at (finode f) sz (fpos f) st = Some (- 1, [], st)"
    unfolding inode_read_at_def
    by (simp add: inode_ops i inode_lock_same set_inode_same assms(2,3))
  then show ?thesis using assms(4) by (simp add: file_read_def)
qed

theorem file_read_past_end_witness:
  "file_read \<lparr>finode = 1, fpos = 590, fdeny_write = False\<rparr> 20 small_fs
     = Some (- 1, [], \<lparr>finode = 1, fpos = 589, fdeny_write = False\<rparr>, small_fs)"
  using file_read_past_end [of small_fs "\<lparr>finode = 1, fpos = 590, fdeny_write = False\<rparr>" small_file 20] small_file_idle(1)
  by (simp add: small_file_length off_ok_def)

end
