(* ===== verification/Cstring.thy ===== *)
theory Cstring
  imports Bytes
begin

text \<open>
  The string library of \<open>lib/string.c\<close> on a byte-addressed memory. A read or write of an address that is not
  mapped has no result; so has a scan for a terminator that never comes. The routines are
  compared with operations on lists of bytes: \<open>bytes_at\<close> and \<open>string_at\<close> say what the
  memory holds.
\<close>

subsection \<open>Memory\<close>

type_synonym memory = "nat \<Rightarrow> u8 option"

definition store :: "memory \<Rightarrow> nat \<Rightarrow> u8 \<Rightarrow> memory option" where
  "store m a v = (if m a = None then None else Some (m(a \<mapsto> v)))"

definition bytes_at :: "memory \<Rightarrow> nat \<Rightarrow> bytes \<Rightarrow> bool" where
  "bytes_at m a bs \<longleftrightarrow> (\<forall>i < length bs. m (a + i) = Some (bs ! i))"

definition string_at :: "memory \<Rightarrow> nat \<Rightarrow> bytes \<Rightarrow> bool" where
  "string_at m a s \<longleftrightarrow> bytes_at m a (s @ [0]) \<and> 0 \<notin> set s"

definition mapped :: "memory \<Rightarrow> nat \<Rightarrow> nat \<Rightarrow> bool" where
  "mapped m a n \<longleftrightarrow> (\<forall>i < n. m (a + i) \<noteq> None)"

subsection \<open>Blocks\<close>

fun copy_forward :: "nat \<Rightarrow> nat \<Rightarrow> nat \<Rightarrow> memory \<Rightarrow> memory option" where
  "copy_forward dst src 0 m = Some m"
| "copy_forward dst src (Suc n) m = do {
     v \<leftarrow> m src;
     m \<leftarrow> store m dst v;
     copy_forward (dst + 1) (src + 1) n m }"

fun copy_backward :: "nat \<Rightarrow> nat \<Rightarrow> nat \<Rightarrow> memory \<Rightarrow> memory option" where
  "copy_backward dst src 0 m = Some m"
| "copy_backward dst src (Suc n) m = do {
     v \<leftarrow> m (src + n);
     m \<leftarrow> store m (dst + n) v;
     copy_backward dst src n m }"

definition memcpy :: "nat \<Rightarrow> nat \<Rightarrow> nat \<Rightarrow> memory \<Rightarrow> (nat \<times> memory) option" where
  "memcpy dst src n m = do {
     guard (dst \<noteq> 0 \<or> n = 0);
     guard (src \<noteq> 0 \<or> n = 0);
     m \<leftarrow> copy_forward dst src n m;
     Some (dst, m) }"

text \<open>The pointer that is returned is the one the loop moved.\<close>

definition memmove :: "nat \<Rightarrow> nat \<Rightarrow> nat \<Rightarrow> memory \<Rightarrow> (nat \<times> memory) option" where
  "memmove dst src n m = do {
     guard (dst \<noteq> 0 \<or> n = 0);
     guard (src \<noteq> 0 \<or> n = 0);
     if dst < src then do {
       m \<leftarrow> copy_forward dst src n m;
       Some (dst + n, m) }
     else do {
       m \<leftarrow> copy_backward dst src n m;
       Some (dst, m) } }"

fun memcmp_loop :: "nat \<Rightarrow> nat \<Rightarrow> nat \<Rightarrow> memory \<Rightarrow> int option" where
  "memcmp_loop a b 0 m = Some 0"
| "memcmp_loop a b (Suc n) m = do {
     x \<leftarrow> m a;
     y \<leftarrow> m b;
     if x \<noteq> y then Some (if y < x then 1 else - 1) else memcmp_loop (a + 1) (b + 1) n m }"

definition memcmp :: "nat \<Rightarrow> nat \<Rightarrow> nat \<Rightarrow> memory \<Rightarrow> int option" where
  "memcmp a b n m = do {
     guard (a \<noteq> 0 \<or> n = 0);
     guard (b \<noteq> 0 \<or> n = 0);
     memcmp_loop a b n m }"

fun memchr_loop :: "nat \<Rightarrow> u8 \<Rightarrow> nat \<Rightarrow> memory \<Rightarrow> nat option option" where
  "memchr_loop block ch 0 m = Some None"
| "memchr_loop block ch (Suc n) m = do {
     x \<leftarrow> m block;
     if x = ch then Some (Some block) else memchr_loop (block + 1) ch n m }"

definition memchr :: "nat \<Rightarrow> u8 \<Rightarrow> nat \<Rightarrow> memory \<Rightarrow> nat option option" where
  "memchr block ch n m = do {
     guard (block \<noteq> 0 \<or> n = 0);
     memchr_loop block ch n m }"

fun memset_loop :: "nat \<Rightarrow> u8 \<Rightarrow> nat \<Rightarrow> memory \<Rightarrow> memory option" where
  "memset_loop dst v 0 m = Some m"
| "memset_loop dst v (Suc n) m = do {
     m \<leftarrow> store m dst v;
     memset_loop (dst + 1) v n m }"

definition memset :: "nat \<Rightarrow> u8 \<Rightarrow> nat \<Rightarrow> memory \<Rightarrow> (nat \<times> memory) option" where
  "memset dst v n m = do {
     guard (dst \<noteq> 0 \<or> n = 0);
     m \<leftarrow> memset_loop dst v n m;
     Some (dst, m) }"

subsection \<open>Strings\<close>

partial_function (option) strcmp_loop :: "nat \<Rightarrow> nat \<Rightarrow> memory \<Rightarrow> int option" where
  "strcmp_loop a b m = do {
     x \<leftarrow> m a;
     if x \<noteq> 0 then do {
       y \<leftarrow> m b;
       if x = y then strcmp_loop (a + 1) (b + 1) m
       else Some (if x < y then - 1 else if y < x then 1 else 0) }
     else do {
       y \<leftarrow> m b;
       Some (if x < y then - 1 else if y < x then 1 else 0) } }"

definition strcmp :: "nat \<Rightarrow> nat \<Rightarrow> memory \<Rightarrow> int option" where
  "strcmp a b m = do {
     guard (a \<noteq> 0);
     guard (b \<noteq> 0);
     strcmp_loop a b m }"

partial_function (option) strchr_loop :: "nat \<Rightarrow> u8 \<Rightarrow> memory \<Rightarrow> nat option option" where
  "strchr_loop string c m = do {
     x \<leftarrow> m string;
     if x = c then Some (Some string)
     else if x = 0 then Some None
     else strchr_loop (string + 1) c m }"

definition strchr :: "nat \<Rightarrow> u8 \<Rightarrow> memory \<Rightarrow> nat option option" where
  "strchr string c m = do {
     guard (string \<noteq> 0);
     strchr_loop string c m }"

partial_function (option) strcspn_loop :: "nat \<Rightarrow> nat \<Rightarrow> nat \<Rightarrow> memory \<Rightarrow> nat option" where
  "strcspn_loop string stop len m = do {
     x \<leftarrow> m (string + len);
     if x \<noteq> 0 then do {
       r \<leftarrow> strchr stop x m;
       if r \<noteq> None then Some len else strcspn_loop string stop (len + 1) m }
     else Some len }"

definition strcspn :: "nat \<Rightarrow> nat \<Rightarrow> memory \<Rightarrow> nat option" where
  "strcspn string stop m = strcspn_loop string stop 0 m"

partial_function (option) strpbrk :: "nat \<Rightarrow> nat \<Rightarrow> memory \<Rightarrow> nat option option" where
  "strpbrk string stop m = do {
     x \<leftarrow> m string;
     if x \<noteq> 0 then do {
       r \<leftarrow> strchr stop x m;
       if r \<noteq> None then Some (Some string) else strpbrk (string + 1) stop m }
     else Some None }"

partial_function (option) strrchr_loop :: "nat \<Rightarrow> u8 \<Rightarrow> nat option \<Rightarrow> memory \<Rightarrow> nat option option" where
  "strrchr_loop string c p m = do {
     x \<leftarrow> m string;
     if x \<noteq> 0 then strrchr_loop (string + 1) c (if x = c then Some string else p) m
     else Some p }"

definition strrchr :: "nat \<Rightarrow> u8 \<Rightarrow> memory \<Rightarrow> nat option option" where
  "strrchr string c m = strrchr_loop string c None m"

partial_function (option) strspn_loop :: "nat \<Rightarrow> nat \<Rightarrow> nat \<Rightarrow> memory \<Rightarrow> nat option" where
  "strspn_loop string skip len m = do {
     x \<leftarrow> m (string + len);
     if x \<noteq> 0 then do {
       r \<leftarrow> strchr skip x m;
       if r = None then Some len else strspn_loop string skip (len + 1) m }
     else Some len }"

definition strspn :: "nat \<Rightarrow> nat \<Rightarrow> memory \<Rightarrow> nat option" where
  "strspn string skip m = strspn_loop string skip 0 m"

partial_function (option) strlen_loop :: "nat \<Rightarrow> memory \<Rightarrow> nat option" where
  "strlen_loop p m = do {
     x \<leftarrow> m p;
     if x \<noteq> 0 then strlen_loop (p + 1) m else Some p }"

definition strlen :: "nat \<Rightarrow> memory \<Rightarrow> nat option" where
  "strlen string m = do {
     guard (string \<noteq> 0);
     p \<leftarrow> strlen_loop string m;
     Some (p - string) }"

partial_function (option) strnlen_loop :: "nat \<Rightarrow> nat \<Rightarrow> nat \<Rightarrow> memory \<Rightarrow> nat option" where
  "strnlen_loop string maxlen len m = do {
     x \<leftarrow> m (string + len);
     if x \<noteq> 0 \<and> len < maxlen then strnlen_loop string maxlen (len + 1) m else Some len }"

definition strnlen :: "nat \<Rightarrow> nat \<Rightarrow> memory \<Rightarrow> nat option" where
  "strnlen string maxlen m = strnlen_loop string maxlen 0 m"

definition strstr :: "nat \<Rightarrow> nat \<Rightarrow> memory \<Rightarrow> nat option option" where
  "strstr haystack needle m = do {
     haystack_len \<leftarrow> strlen haystack m;
     needle_len \<leftarrow> strlen needle m;
     if needle_len \<le> haystack_len then do {
       r \<leftarrow> find_upto 0 (Suc (haystack_len - needle_len)) (\<lambda>i. do {
              c \<leftarrow> memcmp (haystack + i) needle needle_len m;
              Some (c = 0) });
       Some (map_option (\<lambda>i. haystack + i) r) }
     else Some None }"

partial_function (option) skip_delimiters :: "nat \<Rightarrow> nat \<Rightarrow> memory \<Rightarrow> (bool \<times> nat) option" where
  "skip_delimiters s delimiters m = do {
     x \<leftarrow> m s;
     r \<leftarrow> strchr delimiters x m;
     if r \<noteq> None then (if x = 0 then Some (False, s) else skip_delimiters (s + 1) delimiters m)
     else Some (True, s) }"

partial_function (option) skip_token :: "nat \<Rightarrow> nat \<Rightarrow> memory \<Rightarrow> nat option" where
  "skip_token s delimiters m = do {
     x \<leftarrow> m s;
     r \<leftarrow> strchr delimiters x m;
     if r = None then skip_token (s + 1) delimiters m else Some s }"

text \<open>A null pointer is 0; the result is the token, the new \<open>*save_ptr\<close> and the memory.\<close>

definition strtok_r :: "nat \<Rightarrow> nat \<Rightarrow> nat \<Rightarrow> memory \<Rightarrow> (nat \<times> nat \<times> memory) option" where
  "strtok_r s delimiters save_ptr m = do {
     guard (delimiters \<noteq> 0);
     let s = (if s = 0 then save_ptr else s);
     guard (s \<noteq> 0);
     (found, s) \<leftarrow> skip_delimiters s delimiters m;
     if \<not> found then Some (0, s, m)
     else do {
       let token = s;
       s \<leftarrow> skip_token s delimiters m;
       x \<leftarrow> m s;
       if x \<noteq> 0 then do {
         m \<leftarrow> store m s 0;
         Some (token, s + 1, m) }
       else Some (token, s, m) } }"

text \<open>The loop in the comment of \<open>strtok_r\<close> and in its callers: all tokens, one call after the other.\<close>

partial_function (option) strtok_all :: "nat \<Rightarrow> nat \<Rightarrow> nat \<Rightarrow> memory \<Rightarrow> (nat list \<times> memory) option" where
  "strtok_all s save_ptr delimiters m = do {
     (token, save_ptr, m) \<leftarrow> strtok_r s delimiters save_ptr m;
     if token = 0 then Some ([], m)
     else do {
       (ts, m) \<leftarrow> strtok_all 0 save_ptr delimiters m;
       Some (token # ts, m) } }"

definition strlcpy :: "nat \<Rightarrow> nat \<Rightarrow> nat \<Rightarrow> memory \<Rightarrow> (nat \<times> memory) option" where
  "strlcpy dst src sz m = do {
     guard (dst \<noteq> 0);
     guard (src \<noteq> 0);
     src_len \<leftarrow> strlen src m;
     if 0 < sz then do {
       let dst_len = sz - 1;
       let dst_len = (if src_len < dst_len then src_len else dst_len);
       (_, m) \<leftarrow> memcpy dst src dst_len m;
       m \<leftarrow> store m (dst + dst_len) 0;
       Some (src_len, m) }
     else Some (src_len, m) }"

definition strlcat :: "nat \<Rightarrow> nat \<Rightarrow> nat \<Rightarrow> memory \<Rightarrow> (nat \<times> memory) option" where
  "strlcat dst src sz m = do {
     guard (dst \<noteq> 0);
     guard (src \<noteq> 0);
     src_len \<leftarrow> strlen src m;
     dst_len \<leftarrow> strlen dst m;
     if 0 < sz \<and> dst_len < sz then do {
       let copy_cnt = sz - dst_len - 1;
       let copy_cnt = (if src_len < copy_cnt then src_len else copy_cnt);
       (_, m) \<leftarrow> memcpy (dst + dst_len) src copy_cnt m;
       m \<leftarrow> store m (dst + dst_len + copy_cnt) 0;
       Some (src_len + dst_len, m) }
     else Some (src_len + dst_len, m) }"

subsection \<open>Blocks and lists of bytes\<close>

lemma store_Some: "m a \<noteq> None \<Longrightarrow> store m a v = Some (m(a \<mapsto> v))"
  by (simp add: store_def)

lemma bytes_at_Nil [simp]: "bytes_at m a []"
  by (simp add: bytes_at_def)

lemma bytes_at_Cons [simp]: "bytes_at m a (b # bs) \<longleftrightarrow> m a = Some b \<and> bytes_at m (a + 1) bs"
  by (auto simp: bytes_at_def less_Suc_eq_0_disj nth_Cons split: nat.splits)

lemma bytes_at_append: "bytes_at m a (xs @ ys) \<longleftrightarrow> bytes_at m a xs \<and> bytes_at m (a + length xs) ys"
  by (induction xs arbitrary: a) simp_all

lemma bytes_at_slice: "bytes_at m a bs \<Longrightarrow> i + n \<le> length bs \<Longrightarrow> bytes_at m (a + i) (take n (drop i bs))"
  by (simp add: bytes_at_def add.assoc)

lemma string_at_Nil [simp]: "string_at m a [] \<longleftrightarrow> m a = Some 0"
  by (simp add: string_at_def)

lemma string_at_Cons [simp]: "string_at m a (c # s) \<longleftrightarrow> m a = Some c \<and> c \<noteq> 0 \<and> string_at m (a + 1) s"
  by (auto simp: string_at_def)

lemma string_at_append: "string_at m a (s @ t) \<longleftrightarrow> bytes_at m a s \<and> 0 \<notin> set s \<and> string_at m (a + length s) t"
  by (induction s arbitrary: a) auto

lemma string_at_bytes: "string_at m a s \<Longrightarrow> bytes_at m a s"
  by (induction s arbitrary: a) auto

lemma mapped_bytes: "bytes_at m a bs \<Longrightarrow> mapped m a (length bs)"
  by (simp add: bytes_at_def mapped_def)

lemma mapped_Suc: "mapped m a (Suc n) \<longleftrightarrow> m a \<noteq> None \<and> mapped m (a + 1) n"
  by (auto simp: mapped_def less_Suc_eq_0_disj)

text \<open>A copy changes the target range and nothing else.\<close>

definition copied :: "memory \<Rightarrow> memory \<Rightarrow> nat \<Rightarrow> bytes \<Rightarrow> bool" where
  "copied m m' dst bs \<longleftrightarrow> bytes_at m' dst bs \<and> (\<forall>a. a < dst \<or> dst + length bs \<le> a \<longrightarrow> m' a = m a)"

lemma bytes_at_upd: "a \<notin> {b..<b + length bs} \<Longrightarrow> bytes_at (m(a \<mapsto> v)) b bs = bytes_at m b bs"
proof -
  assume "a \<notin> {b..<b + length bs}"
  then have "(m(a \<mapsto> v)) (b + i) = m (b + i)" if "i < length bs" for i using that by (cases "b + i = a") auto
  then show ?thesis unfolding bytes_at_def by metis
qed

lemma copy_forward_ok:
  assumes "bytes_at m src bs" and "mapped m dst (length bs)" and "dst \<le> src \<or> src + length bs \<le> dst"
  shows "\<exists>m'. copy_forward dst src (length bs) m = Some m' \<and> copied m m' dst bs"
  using assms
proof (induction bs arbitrary: dst src m)
  case Nil
  then show ?case by (simp add: copied_def)
next
  case (Cons b bs)
  let ?m = "m(dst \<mapsto> b)"
  have st: "store m dst b = Some ?m" using Cons.prems(2) by (simp add: store_Some mapped_Suc)
  have "bytes_at ?m (src + 1) bs" using Cons.prems(1,3) by (subst bytes_at_upd) auto
  moreover have "mapped ?m (dst + 1) (length bs)" using Cons.prems(2) by (auto simp: mapped_Suc mapped_def)
  moreover have "dst + 1 \<le> src + 1 \<or> src + 1 + length bs \<le> dst + 1" using Cons.prems(3) by auto
  ultimately obtain m' where m': "copy_forward (dst + 1) (src + 1) (length bs) ?m = Some m'" "copied ?m m' (dst + 1) bs"
    using Cons.IH by blast
  then have "m' dst = Some b" by (simp add: copied_def)
  then show ?case using m' Cons.prems(1) st by (auto simp: copied_def)
qed

lemma copy_backward_ok:
  assumes "bytes_at m src bs" and "mapped m dst (length bs)" and "src \<le> dst"
  shows "\<exists>m'. copy_backward dst src (length bs) m = Some m' \<and> copied m m' dst bs"
  using assms
proof (induction bs arbitrary: m rule: rev_induct)
  case Nil
  then show ?case by (simp add: copied_def)
next
  case (snoc b bs)
  let ?n = "length bs"
  let ?m = "m(dst + ?n \<mapsto> b)"
  have st: "store m (dst + ?n) b = Some ?m" using snoc.prems(2) by (simp add: store_Some mapped_def)
  have "bytes_at ?m src bs" using snoc.prems(1,3) by (subst bytes_at_upd) (auto simp: bytes_at_append)
  moreover have "mapped ?m dst ?n" using snoc.prems(2) by (simp add: mapped_def)
  ultimately obtain m' where m': "copy_backward dst src ?n ?m = Some m'" "copied ?m m' dst bs"
    using snoc.IH snoc.prems(3) by blast
  then have "m' (dst + ?n) = Some b" by (simp add: copied_def)
  then show ?case using m' snoc.prems(1) st by (auto simp: copied_def bytes_at_append)
qed

subsection \<open>Scanning\<close>

lemma strlen_loop_eq: "string_at m a s \<Longrightarrow> strlen_loop a m = Some (a + length s)"
  by (induction s arbitrary: a; subst strlen_loop.simps) auto

lemma strlen_eq: "string_at m a s \<Longrightarrow> a \<noteq> 0 \<Longrightarrow> strlen a m = Some (length s)"
  by (simp add: strlen_def strlen_loop_eq)

lemma strchr_loop_None:
  "string_at m a s \<Longrightarrow> c \<notin> set s \<Longrightarrow> c \<noteq> 0 \<Longrightarrow> strchr_loop a c m = Some None"
  by (induction s arbitrary: a; subst strchr_loop.simps) auto

lemma strchr_loop_Some:
  "bytes_at m a (s @ [c]) \<Longrightarrow> 0 \<notin> set s \<Longrightarrow> c \<notin> set s \<Longrightarrow> strchr_loop a c m = Some (Some (a + length s))"
  by (induction s arbitrary: a; subst strchr_loop.simps) auto

text \<open>Whether a byte is a delimiter, for \<open>strtok_r\<close> and its relatives; the terminator always is.\<close>

lemma strchr_member:
  assumes "string_at m a s" and "a \<noteq> 0"
  shows "\<exists>r. strchr a c m = Some r \<and> (r \<noteq> None \<longleftrightarrow> c \<in> set s \<or> c = 0)"
proof (cases "c \<in> set (s @ [0])")
  case False
  then have "strchr a c m = Some None" using strchr_loop_None [OF assms(1)] assms(2) by (simp add: strchr_def)
  then show ?thesis using False by auto
next
  case True
  then obtain xs ys where xs: "s @ [0] = xs @ c # ys" "c \<notin> set xs" by (meson split_list_first)
  have "0 \<notin> set xs"
  proof (cases ys rule: rev_cases)
    case Nil
    then show ?thesis using xs assms(1) by (simp add: string_at_def)
  next
    case (snoc zs z)
    then have "s = xs @ c # zs" using xs(1) by simp
    then show ?thesis using assms(1) by (auto simp: string_at_def)
  qed
  moreover have "bytes_at m a (xs @ [c])"
    using assms(1) xs(1) by (simp add: string_at_def bytes_at_append)
  ultimately have "strchr a c m = Some (Some (a + length xs))"
    using strchr_loop_Some xs(2) assms(2) by (simp add: strchr_def)
  then show ?thesis using True by auto
qed

lemma strcmp_loop_eq:
  "string_at m a s \<Longrightarrow> string_at m b t \<Longrightarrow>
   strcmp_loop a b m = Some (if s = t then 0 else if ord_class.lexordp s t then - 1 else 1)"
proof (induction s arbitrary: a b t)
  case Nil
  then show ?case by (cases t; subst strcmp_loop.simps) (auto simp: word_gt_0)
next
  case (Cons x xs)
  then have a: "m a = Some x" "x \<noteq> 0" "string_at m (a + 1) xs" by simp_all
  show ?case
  proof (cases t)
    case Nil
    then show ?thesis using Cons.prems a by (subst strcmp_loop.simps) (auto simp: word_gt_0)
  next
    case t: (Cons y ys)
    then have b: "m b = Some y" "string_at m (b + 1) ys" using Cons.prems(2) by simp_all
    show ?thesis
    proof (cases "x = y")
      case True
      then show ?thesis using a b t Cons.IH [OF a(3) b(2)] by (subst strcmp_loop.simps) auto
    next
      case False
      then show ?thesis using a b t by (subst strcmp_loop.simps) (auto simp: not_less_iff_gr_or_eq)
    qed
  qed
qed

lemma memcmp_loop_zero:
  "bytes_at m a xs \<Longrightarrow> bytes_at m b ys \<Longrightarrow> length ys = length xs \<Longrightarrow>
   \<exists>r. memcmp_loop a b (length xs) m = Some r \<and> (r = 0 \<longleftrightarrow> xs = ys)"
proof (induction xs arbitrary: a b ys)
  case (Cons x xs)
  then obtain y zs where ys: "ys = y # zs" by (cases ys) auto
  then show ?case using Cons.prems Cons.IH [of "a + 1" "b + 1" zs] by auto
qed simp

subsection \<open>Tokens\<close>

text \<open>The maximal runs of bytes that are no delimiters.\<close>

function tokens :: "(u8 \<Rightarrow> bool) \<Rightarrow> bytes \<Rightarrow> bytes list" where
  "tokens P s = (case dropWhile P s of [] \<Rightarrow> []
     | c # cs \<Rightarrow> takeWhile (\<lambda>x. \<not> P x) (c # cs) # tokens P (dropWhile (\<lambda>x. \<not> P x) cs))"
  by pat_completeness auto
termination
proof (relation "measure (\<lambda>(P, s). length s)")
  fix P :: "u8 \<Rightarrow> bool" and s c cs assume "dropWhile P s = c # cs"
  then have "length (c # cs) \<le> length s" by (metis length_dropWhile_le)
  moreover have "length (dropWhile (\<lambda>x. \<not> P x) cs) \<le> length cs" by (rule length_dropWhile_le)
  ultimately show "((P, dropWhile (\<lambda>x. \<not> P x) cs), P, s) \<in> measure (\<lambda>(P, s). length s)" by simp
qed simp

declare tokens.simps [simp del]

lemma skip_delimiters_eq:
  assumes "string_at m d ds" and "d \<noteq> 0"
  shows "string_at m s str \<Longrightarrow> skip_delimiters s d m =
    Some (dropWhile (\<lambda>c. c \<in> set ds) str \<noteq> [], s + length (takeWhile (\<lambda>c. c \<in> set ds) str))"
proof (induction str arbitrary: s)
  case Nil
  then show ?case using strchr_member [OF assms, of 0] by (subst skip_delimiters.simps) auto
next
  case (Cons c str)
  then show ?case using strchr_member [OF assms, of c] by (subst skip_delimiters.simps) (auto split: if_splits)
qed

lemma skip_token_eq:
  assumes "string_at m d ds" and "d \<noteq> 0"
  shows "string_at m s str \<Longrightarrow> skip_token s d m = Some (s + length (takeWhile (\<lambda>c. c \<notin> set ds) str))"
proof (induction str arbitrary: s)
  case Nil
  then show ?case using strchr_member [OF assms, of 0] by (subst skip_token.simps) auto
next
  case (Cons c str)
  then show ?case using strchr_member [OF assms, of c] by (subst skip_token.simps) (auto split: if_splits)
qed

lemma strtok_r_none:
  assumes "string_at m d ds" "d \<noteq> 0" and "string_at m p str" "p \<noteq> 0" and "dropWhile (\<lambda>c. c \<in> set ds) str = []"
    and "s = p \<or> s = 0 \<and> save = p"
  shows "\<exists>q. strtok_r s d save m = Some (0, q, m)"
  using assms skip_delimiters_eq [OF assms(1-3)] by (auto simp: strtok_r_def Let_def)

lemma strtok_r_token:
  assumes d: "string_at m d ds" "d \<noteq> 0" and p: "string_at m p str" "p \<noteq> 0" and dj: "d + length ds < p \<or> p + length str < d"
    and s: "s = p \<or> s = 0 \<and> save = p"
    and r: "dropWhile (\<lambda>c. c \<in> set ds) str = c # cs" and t: "t = p + length (takeWhile (\<lambda>c. c \<in> set ds) str)"
    and tok: "tok = takeWhile (\<lambda>c. c \<notin> set ds) (c # cs)" and rest: "rest = dropWhile (\<lambda>c. c \<notin> set ds) (c # cs)"
  shows "\<exists>m' q. strtok_r s d save m = Some (t, q, m') \<and> string_at m' t tok \<and> string_at m' q (tl rest) \<and> t + length tok \<le> q
    \<and> q + length (tl rest) = p + length str \<and> (\<forall>a. a < t \<or> p + length str \<le> a \<longrightarrow> m' a = m a) \<and> string_at m' d ds"
proof -
  have str: "str = takeWhile (\<lambda>c. c \<in> set ds) str @ tok @ rest"
    using takeWhile_dropWhile_id [of "\<lambda>c. c \<in> set ds" str] r tok rest by (metis takeWhile_dropWhile_id)
  have st: "string_at m t (tok @ rest)" using p(1) str unfolding t by (metis string_at_append)
  then have e: "bytes_at m t tok" "0 \<notin> set tok" "string_at m (t + length tok) rest" by (simp_all add: string_at_append)
  have cs: "c # cs = tok @ rest" using tok rest by (metis takeWhile_dropWhile_id)
  have len: "t + length tok + length rest = p + length str" using arg_cong [OF str, of length] t by simp
  have sd: "skip_delimiters p d m = Some (True, t)" using skip_delimiters_eq [OF d p(1)] r t by simp
  have sk: "skip_token t d m = Some (t + length tok)" using skip_token_eq [OF d st] tok cs by metis
  have ps: "(if s = 0 then save else s) = p" using s p(2) by auto
  have run: "strtok_r s d save m = do {
      x \<leftarrow> m (t + length tok);
      if x \<noteq> 0 then do { m \<leftarrow> store m (t + length tok) 0; Some (t, t + length tok + 1, m) } else Some (t, t + length tok, m) }"
    using sd sk p(2) d(2) ps by (simp add: strtok_r_def)
  show ?thesis
  proof (cases rest)
    case Nil
    then have "m (t + length tok) = Some 0" using e(3) by simp
    moreover have "string_at m t tok" using e Nil st by simp
    ultimately show ?thesis using run Nil len d(1) by simp
  next
    case (Cons x xs)
    then have x: "m (t + length tok) = Some x" "x \<noteq> 0" "string_at m (t + length tok + 1) xs" using e(3) by simp_all
    let ?m = "m(t + length tok \<mapsto> 0)"
    have up: "string_at ?m a u = string_at m a u" if "t + length tok < a \<or> a + length u < t + length tok" for a u
      using that bytes_at_upd [of "t + length tok" a "u @ [0]" m 0] by (auto simp: string_at_def)
    have "string_at ?m t tok" using e(1,2) by (simp add: string_at_def bytes_at_append bytes_at_upd)
    moreover have "string_at ?m (t + length tok + 1) xs" using x(3) up [of "t + length tok + 1" xs] by simp
    moreover have "t + length tok < d \<or> d + length ds < t + length tok" using dj len Cons t by auto
    then have "string_at ?m d ds" using up [of d ds] d(1) by simp
    ultimately show ?thesis using run x(1,2) Cons len
      by (intro exI [of _ ?m] exI [of _ "t + length tok + 1"]) (simp add: store_Some)
  qed
qed

lemma string_at_frame:
  "string_at m a s \<Longrightarrow> (\<And>b. a \<le> b \<Longrightarrow> b \<le> a + length s \<Longrightarrow> m' b = m b) \<Longrightarrow> string_at m' a s"
  by (simp add: string_at_def bytes_at_def)

lemma strtok_all_tokens:
  assumes "string_at m d ds" "d \<noteq> 0" and "string_at m p str" "p \<noteq> 0" and "d + length ds < p \<or> p + length str < d"
    and "s = p \<or> s = 0 \<and> save = p"
  shows "\<exists>ts m'. strtok_all s save d m = Some (ts, m') \<and> list_all2 (string_at m') ts (tokens (\<lambda>c. c \<in> set ds) str)
    \<and> (\<forall>a. a < p \<or> p + length str \<le> a \<longrightarrow> m' a = m a)"
  using assms
proof (induction "length str" arbitrary: str p s save m rule: less_induct)
  case less
  let ?P = "\<lambda>c. c \<in> set ds"
  show ?case
  proof (cases "dropWhile ?P str")
    case Nil
    have "tokens ?P str = []" by (subst tokens.simps, subst Nil) simp
    then show ?thesis using strtok_r_none [OF less.prems(1-4) Nil less.prems(6)]
      by (subst strtok_all.simps) auto
  next
    case (Cons c cs)
    define t where "t = p + length (takeWhile ?P str)"
    define tok where "tok = takeWhile (\<lambda>c. \<not> ?P c) (c # cs)"
    define rest where "rest = dropWhile (\<lambda>c. \<not> ?P c) (c # cs)"
    obtain m1 q where m1: "strtok_r s d save m = Some (t, q, m1)" "string_at m1 t tok" "string_at m1 q (tl rest)" "t + length tok \<le> q"
        "q + length (tl rest) = p + length str" "\<And>a. a < t \<or> p + length str \<le> a \<Longrightarrow> m1 a = m a" "string_at m1 d ds"
      using strtok_r_token [OF less.prems Cons t_def tok_def rest_def] by blast
    have c: "\<not> ?P c" using Cons hd_dropWhile [of ?P str] by auto
    then have tk: "tok \<noteq> []" "rest = dropWhile (\<lambda>c. \<not> ?P c) cs" by (simp_all add: tok_def rest_def)
    have "0 < length tok" using tk by simp
    moreover have "p \<le> t" by (simp add: t_def)
    ultimately have l: "p \<le> t" "t \<noteq> 0" "q \<noteq> 0" "p < q" using less.prems(4) m1(4) by linarith+
    have sh: "length (tl rest) < length str" using m1(5) l(4) by linarith
    have dj: "d + length ds < q \<or> q + length (tl rest) < d" using less.prems(5) m1(5) l by auto
    obtain ts m' where m': "strtok_all 0 q d m1 = Some (ts, m')" "list_all2 (string_at m') ts (tokens ?P (tl rest))"
        "\<And>a. a < q \<or> q + length (tl rest) \<le> a \<Longrightarrow> m' a = m1 a"
      using less.hyps [OF sh m1(7) less.prems(2) m1(3) l(3) dj] by blast
    have hd: "string_at m' t tok"
    proof (cases "t + length tok < q")
      case True
      then show ?thesis using m1(2) m'(3) by (elim string_at_frame) simp
    next
      case False
      then have q: "q = t + length tok" using m1(4) by simp
      have "tl rest = []" using m1(2,3) q by (cases "tl rest") (auto simp: string_at_def bytes_at_append)
      then show ?thesis using m1(2) m'(3) q by (elim string_at_frame) (metis add.right_neutral le_neq_implies_less list.size(3) order_refl)
    qed
    have tr: "tokens ?P (tl rest) = tokens ?P rest"
    proof (cases rest)
      case (Cons x xs)
      then have "?P x" using hd_dropWhile [of "\<lambda>c. \<not> ?P c" cs] tk(2) by auto
      then show ?thesis using Cons by (subst (1 2) tokens.simps) simp
    qed simp
    have "tokens ?P str = tok # tokens ?P rest" using Cons tk(2) by (subst tokens.simps) (simp add: tok_def)
    then show ?thesis using m1(1) m'(1,2) l(2) hd tr m1(5,6) m'(3) l
      by (subst strtok_all.simps) auto
  qed
qed

subsection \<open>Properties\<close>

text \<open>C21: Moving a block of memory works for ranges that overlap in either direction: \<open>memmove\<close> leaves in the target range the
  bytes the source range held before, and every other byte unchanged. The pointer it returns is the target's only
  when it copied backwards; when the target lies below the source it is the end of the target range, although the
  comment promises DST.\<close>

theorem memmove_correct:
  assumes "bytes_at m src bs" and "mapped m dst (length bs)" and "dst \<noteq> 0" "src \<noteq> 0"
  shows "\<exists>m'. memmove dst src (length bs) m = Some (if dst < src then dst + length bs else dst, m')
    \<and> bytes_at m' dst bs \<and> (\<forall>a. a < dst \<or> dst + length bs \<le> a \<longrightarrow> m' a = m a)"
proof (cases "dst < src")
  case True
  then show ?thesis using copy_forward_ok [OF assms(1,2)] assms(3,4) by (auto simp: memmove_def copied_def)
next
  case False
  then show ?thesis using copy_backward_ok [OF assms(1,2)] assms(3,4) by (auto simp: memmove_def copied_def)
qed

text \<open>Memory with some bytes from address 100 on.\<close>

definition mem100 :: "bytes \<Rightarrow> memory" where
  "mem100 bs a = (if 100 \<le> a \<and> a < 100 + length bs then Some (bs ! (a - 100)) else None)"

lemma mem100_bytes: "bytes_at (mem100 bs) 100 bs"
  by (simp add: bytes_at_def mem100_def)

theorem memmove_correct_witness:
  "\<exists>m'. memmove 101 100 3 (mem100 [1, 2, 3, 4]) = Some (101, m') \<and> bytes_at m' 101 [1, 2, 3]"
  using memmove_correct [of "mem100 [1, 2, 3, 4]" 100 "[1, 2, 3]" 101] mem100_bytes [of "[1, 2, 3, 4]"]
  by (auto simp: mapped_def mem100_def numeral_3_eq_3)

text \<open>C22: Comparing and searching strings. For two strings in memory \<open>strcmp\<close> returns 0 exactly when they are equal, and
  otherwise the sign of the first difference, in the order of unsigned bytes and with a proper prefix first;
  \<open>strstr\<close> returns the first position at which the second string occurs in the first, or a null
  pointer if there is none.\<close>

theorem strcmp_strstr_correct:
  assumes "string_at m a s" "a \<noteq> 0" and "string_at m b t" "b \<noteq> 0"
  shows "strcmp a b m = Some (if s = t then 0 else if ord_class.lexordp s t then - 1 else 1)
    \<and> strstr a b m = Some (map_option (\<lambda>i. a + i)
        (find (\<lambda>i. take (length t) (drop i s) = t) [0..<Suc (length s) - length t]))"
proof -
  have "find_upto 0 (Suc (length s - length t)) (\<lambda>i. do { c \<leftarrow> memcmp (a + i) b (length t) m; Some (c = 0) })
      = Some (find (\<lambda>i. take (length t) (drop i s) = t) [0..<Suc (length s - length t)])" if le: "length t \<le> length s"
  proof (rule find_upto_total)
    fix i assume i: "i < Suc (length s - length t)"
    then have "bytes_at m (a + i) (take (length t) (drop i s))"
      using bytes_at_slice [OF string_at_bytes [OF assms(1)], of i "length t"] that by simp
    then obtain r where "memcmp_loop (a + i) b (length t) m = Some r" "r = 0 \<longleftrightarrow> take (length t) (drop i s) = t"
      using memcmp_loop_zero [of m "a + i" "take (length t) (drop i s)" b t] string_at_bytes [OF assms(3)] i le by auto
    then show "(do { c \<leftarrow> memcmp (a + i) b (length t) m; Some (c = 0) }) = Some (take (length t) (drop i s) = t)"
      using assms(2,4) by (simp add: memcmp_def)
  qed
  moreover have "Suc (length s - length t) = Suc (length s) - length t" if "length t \<le> length s" using that by simp
  ultimately show ?thesis
    using strcmp_loop_eq [OF assms(1,3)] assms strlen_eq [OF assms(1,2)] strlen_eq [OF assms(3,4)]
    by (auto simp: strcmp_def strstr_def)
qed

theorem strcmp_strstr_correct_witness:
  "strcmp 100 103 (mem100 [97, 98, 0, 98, 0]) = Some (- 1) \<and> strstr 100 103 (mem100 [97, 98, 0, 98, 0]) = Some (Some 101)"
proof -
  have s: "string_at (mem100 [97, 98, 0, 98, 0]) 100 [97, 98]" "string_at (mem100 [97, 98, 0, 98, 0]) 103 [98]"
    by (simp_all add: mem100_def)
  show ?thesis using strcmp_strstr_correct [OF s(1) _ s(2)] by (simp add: upt_rec)
qed



text \<open>C20: Splitting a string into tokens. Calling \<open>strtok_r\<close> until it returns a null pointer, as its callers do, yields
  exactly the maximal runs of bytes that are no delimiters, in order, each of them a terminated string of its
  own in the memory left behind; no byte outside the string is changed.\<close>

theorem strtok_r_tokens:
  assumes "string_at m d ds" "d \<noteq> 0" and "string_at m p str" "p \<noteq> 0" and "d + length ds < p \<or> p + length str < d"
  shows "\<exists>ts m'. strtok_all p save d m = Some (ts, m') \<and> list_all2 (string_at m') ts (tokens (\<lambda>c. c \<in> set ds) str)
    \<and> (\<forall>a. a < p \<or> p + length str \<le> a \<longrightarrow> m' a = m a)"
  using strtok_all_tokens [OF assms, of p save] by blast

theorem strtok_r_tokens_witness:
  "\<exists>ts m'. strtok_all 102 0 100 (mem100 [32, 0, 32, 97, 32, 32, 98, 99, 0]) = Some (ts, m')
     \<and> list_all2 (string_at m') ts [[97], [98, 99]]"
proof -
  have s: "string_at (mem100 [32, 0, 32, 97, 32, 32, 98, 99, 0]) 100 [32]"
    "string_at (mem100 [32, 0, 32, 97, 32, 32, 98, 99, 0]) 102 [32, 97, 32, 32, 98, 99]"
    by (simp_all add: mem100_def)
  have "tokens (\<lambda>c. c \<in> set [32]) [32, 97, 32, 32, 98, 99] = [[97], [98, 99]]"
    by (simp add: tokens.simps)
  then show ?thesis using strtok_r_tokens [OF s(1) _ s(2), of 0] by auto
qed

end
