(* ===== verification/Arith64.thy ===== *)
theory Arith64
  imports Prelude "HOL-Library.Signed_Division"
begin

text \<open>
  64-bit division on a 32-bit processor: \<open>lib/arithmetic.c\<close>. The only division instruction is \<open>divl\<close>, which
  divides 64 by 32 bits and traps when the quotient does not fit in 32; the trap is \<open>None\<close>.
\<close>

subsection \<open>The routines\<close>

definition divl :: "u64 \<Rightarrow> u32 \<Rightarrow> u32 option" where
  "divl n d = (if d = 0 \<or> 2 ^ 32 \<le> unat n div unat d then None else Some (of_nat (unat n div unat d)))"

definition nlz_step :: "u32 \<Rightarrow> nat \<Rightarrow> nat \<times> u32 \<Rightarrow> nat \<times> u32" where
  "nlz_step limit k = (\<lambda>(n, x). if x \<le> limit then (n + k, push_bit k x) else (n, x))"

definition nlz :: "u32 \<Rightarrow> nat" where
  "nlz x =
     (let s = nlz_step 0x0000FFFF 16 (0, x);
          s = nlz_step 0x00FFFFFF 8 s;
          s = nlz_step 0x0FFFFFFF 4 s;
          (n, x) = nlz_step 0x3FFFFFFF 2 s
      in if x \<le> 0x7FFFFFFF then n + 1 else n)"

definition udiv64 :: "u64 \<Rightarrow> u64 \<Rightarrow> u64 option" where
  "udiv64 n d =
     (if drop_bit 32 d = 0 then do {
        let b = push_bit 32 (1 :: u64);
        let n1 = (ucast (drop_bit 32 n) :: u32);
        let n0 = (ucast n :: u32);
        let d0 = (ucast d :: u32);
        guard (d0 \<noteq> 0);
        q \<leftarrow> divl (b * ucast (n1 mod d0) + ucast n0) d0;
        Some (ucast q + b * ucast (n1 div d0)) }
      else if n < d then Some 0
      else do {
        let d1 = (ucast (drop_bit 32 d) :: u32);
        let s = nlz d1;
        q \<leftarrow> divl (drop_bit 1 n) (ucast (drop_bit 32 (push_bit s d)));
        let q = (ucast (drop_bit (31 - s) q) :: u64);
        Some (if n - (q - 1) * d < d then q - 1 else q) })"

text \<open>The result type is \<open>uint32_t\<close>.\<close>

definition umod64 :: "u64 \<Rightarrow> u64 \<Rightarrow> u32 option" where
  "umod64 n d = do {
     q \<leftarrow> udiv64 n d;
     Some (ucast (n - d * q)) }"

definition sabs64 :: "u64 \<Rightarrow> u64" where
  "sabs64 x = (if 0 \<le> sint x then x else - x)"

definition sdiv64 :: "u64 \<Rightarrow> u64 \<Rightarrow> u64 option" where
  "sdiv64 n d = do {
     q_abs \<leftarrow> udiv64 (sabs64 n) (sabs64 d);
     Some (if (sint n < 0) = (sint d < 0) then q_abs else - q_abs) }"

text \<open>The result type is \<open>int32_t\<close>.\<close>

definition smod64 :: "u64 \<Rightarrow> u64 \<Rightarrow> u32 option" where
  "smod64 n d = do {
     q \<leftarrow> sdiv64 n d;
     Some (ucast (n - d * q)) }"

text \<open>What the compiler calls; a 32-bit remainder is widened to 64 bits.\<close>

definition divdi3 :: "u64 \<Rightarrow> u64 \<Rightarrow> u64 option" where
  "divdi3 n d = sdiv64 n d"

definition moddi3 :: "u64 \<Rightarrow> u64 \<Rightarrow> u64 option" where
  "moddi3 n d = map_option scast (smod64 n d)"

definition udivdi3 :: "u64 \<Rightarrow> u64 \<Rightarrow> u64 option" where
  "udivdi3 n d = udiv64 n d"

definition umoddi3 :: "u64 \<Rightarrow> u64 \<Rightarrow> u64 option" where
  "umoddi3 n d = map_option ucast (umod64 n d)"

subsection \<open>Counting leading zeros\<close>

definition nlz_inv :: "nat \<Rightarrow> nat \<Rightarrow> nat \<times> u32 \<Rightarrow> bool" where
  "nlz_inv x0 m = (\<lambda>(n, x). unat x = x0 * 2 ^ n \<and> 2 ^ m \<le> unat x)"

lemma nlz_step_inv:
  assumes "nlz_inv x0 m p" and "unat limit = 2 ^ (32 - k) - 1" and "m + k \<le> 32" "0 < k" and "32 - k \<le> m + k"
  shows "nlz_inv x0 (32 - k) (nlz_step limit k p)"
proof -
  obtain n x where p: "p = (n, x)" "unat x = x0 * 2 ^ n" "2 ^ m \<le> unat x" using assms(1) by (cases p) (simp add: nlz_inv_def)
  show ?thesis
  proof (cases "x \<le> limit")
    case True
    have "0 < (2 :: nat) ^ (32 - k)" by simp
    then have "unat x < 2 ^ (32 - k)" using True assms(2) unfolding word_le_nat_alt by linarith
    then have "unat x * 2 ^ k < 2 ^ (32 - k) * 2 ^ k" by simp
    also have "\<dots> = 2 ^ 32" using assms(3) by (simp flip: power_add)
    finally have l: "unat x * 2 ^ k < 2 ^ 32" .
    have "(2 :: nat) ^ (32 - k) \<le> 2 ^ (m + k)" using assms(5) by (intro power_increasing) auto
    also have "\<dots> \<le> unat x * 2 ^ k" using p(3) by (simp add: power_add)
    finally show ?thesis using True l p unat_push_bit [of x k] by (simp add: nlz_inv_def nlz_step_def power_add)
  next
    case False
    then have "2 ^ (32 - k) \<le> unat x" using assms(2) by (simp add: word_le_nat_alt)
    then show ?thesis using False p by (simp add: nlz_inv_def nlz_step_def)
  qed
qed

lemma nlz_bound:
  assumes "x \<noteq> 0"
  shows "2 ^ 31 \<le> unat x * 2 ^ nlz x" "unat x * 2 ^ nlz x < 2 ^ 32"
proof -
  have "nlz_inv (unat x) 0 (0, x)" using assms by (simp add: nlz_inv_def unat_gt_0 Suc_le_eq)
  then have "nlz_inv (unat x) 16 (nlz_step 0x0000FFFF 16 (0, x))" using nlz_step_inv [of _ 0 _ "0x0000FFFF" 16] by simp
  then have "nlz_inv (unat x) 24 (nlz_step 0x00FFFFFF 8 (nlz_step 0x0000FFFF 16 (0, x)))"
    using nlz_step_inv [of _ 16 _ "0x00FFFFFF" 8] by simp
  then have "nlz_inv (unat x) 28 (nlz_step 0x0FFFFFFF 4 (nlz_step 0x00FFFFFF 8 (nlz_step 0x0000FFFF 16 (0, x))))"
    using nlz_step_inv [of _ 24 _ "0x0FFFFFFF" 4] by simp
  then have i: "nlz_inv (unat x) 30 (nlz_step 0x3FFFFFFF 2 (nlz_step 0x0FFFFFFF 4 (nlz_step 0x00FFFFFF 8 (nlz_step 0x0000FFFF 16 (0, x)))))"
    using nlz_step_inv [of _ 28 _ "0x3FFFFFFF" 2] by simp
  obtain n y where y: "nlz_step 0x3FFFFFFF 2 (nlz_step 0x0FFFFFFF 4 (nlz_step 0x00FFFFFF 8 (nlz_step 0x0000FFFF 16 (0, x)))) = (n, y)"
    by (metis surj_pair)
  have z: "unat y = unat x * 2 ^ n" "2 ^ 30 \<le> unat y" "unat y < 2 ^ 32" using i y unat_less_len [of y] by (simp_all add: nlz_inv_def)
  have nz: "nlz x = (if y \<le> 0x7FFFFFFF then n + 1 else n)" using y by (simp add: nlz_def)
  show "2 ^ 31 \<le> unat x * 2 ^ nlz x" "unat x * 2 ^ nlz x < 2 ^ 32"
    using z nz by (auto simp: word_le_nat_alt)
qed

subsection \<open>Division by a divisor of more than 32 bits\<close>

text \<open>The estimate: with the top 32 bits \<open>dn\<close> of the normalised divisor, the quotient is at most one too large.\<close>

lemma quotient_estimate:
  fixes n d dn s :: nat
  assumes d: "d * 2 ^ s < 2 ^ 64" and dn: "dn = d * 2 ^ s div 2 ^ 32" "2 ^ 31 \<le> dn" and s: "s \<le> 31" and n: "n < 2 ^ 64"
  shows "n div d \<le> n div (dn * 2 ^ (32 - s))" "n div (dn * 2 ^ (32 - s)) \<le> n div d + 1"
proof -
  define E where "E = dn * 2 ^ (32 - s)"
  have p: "(2 :: nat) ^ (32 - s) * 2 ^ s = 2 ^ 32" using s by (simp flip: power_add)
  have dm: "d * 2 ^ s = dn * 2 ^ 32 + d * 2 ^ s mod 2 ^ 32" unfolding dn(1) by simp
  have "E * 2 ^ s = dn * 2 ^ 32" unfolding E_def mult.assoc p ..
  then have "E * 2 ^ s \<le> d * 2 ^ s" using dm by linarith
  then have Ed: "E \<le> d" by simp
  have "d * 2 ^ s < E * 2 ^ s + 2 ^ 32" using dm \<open>E * 2 ^ s = dn * 2 ^ 32\<close> by (metis add_less_cancel_left mod_less_divisor zero_less_numeral zero_less_power)
  then have "d * 2 ^ s < (E + 2 ^ (32 - s)) * 2 ^ s" using p by (simp add: add_mult_distrib)
  then have dE: "d < E + 2 ^ (32 - s)" by simp
  have sums: "63 - s = 31 + (32 - s)" "s + 1 + (63 - s) = 64" "s + 1 + (32 - s) = 33" using s by simp_all
  have "(2 :: nat) ^ (63 - s) = 2 ^ 31 * 2 ^ (32 - s)" unfolding sums(1) power_add ..
  then have E63: "2 ^ (63 - s) \<le> E" unfolding E_def using dn(2) by simp
  then have pos: "0 < E" by (metis gr_zeroI less_le_trans not_le zero_less_numeral zero_less_power)
  show "n div d \<le> n div (dn * 2 ^ (32 - s))" using div_le_mono2 [OF pos Ed] by (simp add: E_def)
  define k where "k = n div d"
  have k: "k < 2 ^ (s + 1)"
  proof -
    have "k * 2 ^ (63 - s) \<le> k * d" using E63 Ed by simp
    also have "\<dots> \<le> n" by (simp add: k_def)
    also have "n < 2 ^ (s + 1) * 2 ^ (63 - s)" unfolding power_add [symmetric] sums(2) by (rule n)
    finally show ?thesis by simp
  qed
  have "(k + 1) * (d - E) \<le> E"
  proof (cases "s = 31")
    case True
    then have "d - E \<le> 1" using dE by simp
    then have "(k + 1) * (d - E) \<le> k + 1" by (metis mult.right_neutral mult_le_mono2)
    also have "\<dots> \<le> 2 ^ 32" using k True by simp
    also have "\<dots> \<le> E" using E63 True by simp
    finally show ?thesis .
  next
    case False
    have "(k + 1) * (d - E) \<le> 2 ^ (s + 1) * 2 ^ (32 - s)" using k dE by (intro mult_le_mono) auto
    also have "\<dots> = 2 ^ 33" unfolding power_add [symmetric] sums(3) ..
    also have "\<dots> \<le> 2 ^ (63 - s)" using s False by (intro power_increasing) auto
    finally show ?thesis using E63 by simp
  qed
  moreover have "n < (k + 1) * d"
  proof -
    have "0 < d" using pos Ed by simp
    then show ?thesis unfolding k_def using dividend_less_div_times [of d n] by (simp add: add.commute)
  qed
  moreover have "(k + 1) * d = (k + 1) * E + (k + 1) * (d - E)" using Ed by (simp flip: add_mult_distrib2)
  ultimately have "n < (k + 2) * E" by (simp add: add_mult_distrib)
  then have "n div E < k + 2" by (simp add: div_less_iff_less_mult pos)
  then show "n div (dn * 2 ^ (32 - s)) \<le> n div d + 1" by (simp add: E_def k_def)
qed

text \<open>The correction: from a quotient that may be one too large.\<close>

lemma quotient_correct:
  fixes n d q :: u64
  assumes "d \<le> n" "d \<noteq> 0" and "unat n div unat d \<le> unat q" "unat q \<le> unat n div unat d + 1"
  shows "unat (if n - (q - 1) * d < d then q - 1 else q) = unat n div unat d"
proof -
  let ?k = "unat n div unat d"
  have d0: "0 < unat d" using assms(2) by (simp add: unat_gt_0)
  have k1: "1 \<le> ?k" using assms(1) d0 by (simp add: word_le_nat_alt Suc_le_eq div_greater_zero_iff)
  then have q1: "unat (q - 1) = unat q - 1"
    using assms(3) by (simp add: unat_sub word_le_nat_alt)
  have "unat q - 1 \<le> ?k" using assms(4) by simp
  then have "(unat q - 1) * unat d \<le> ?k * unat d" by (rule mult_le_mono1)
  then have le: "(unat q - 1) * unat d \<le> unat n" using div_times_less_eq_dividend [of "unat n" "unat d"] by linarith
  then have m: "unat ((q - 1) * d) = (unat q - 1) * unat d"
    using unat_mult_lem [of "q - 1" d] unat_less_len [of n] q1 by (simp add: le_less_trans)
  then have sub: "unat (n - (q - 1) * d) = unat n - (unat q - 1) * unat d"
    using le by (simp add: unat_sub word_le_nat_alt)
  have n: "unat n = ?k * unat d + unat n mod unat d" "unat n mod unat d < unat d" using d0 by simp_all
  consider "unat q = ?k" | "unat q = ?k + 1" using assms(3,4) by linarith
  then show ?thesis
  proof cases
    case 1
    then have "(unat q - 1) * unat d + unat d = ?k * unat d" using k1 by (metis Suc_eq_plus1 Suc_pred' add.commute less_le_trans mult_Suc zero_less_one)
    then have "\<not> n - (q - 1) * d < d" unfolding word_less_nat_alt sub using n by linarith
    then show ?thesis using 1 by simp
  next
    case 2
    then have "(unat q - 1) * unat d = ?k * unat d" by simp
    then have "n - (q - 1) * d < d" unfolding word_less_nat_alt sub using n by linarith
    then show ?thesis using 2 q1 by simp
  qed
qed

text \<open>The divisor shifted so that its top bit is bit 63.\<close>

lemma normalised:
  fixes d :: u64
  assumes "drop_bit 32 d \<noteq> 0"
  defines "s \<equiv> nlz (ucast (drop_bit 32 d))" and "dn \<equiv> unat d * 2 ^ nlz (ucast (drop_bit 32 d)) div 2 ^ 32"
  shows "s \<le> 31" "unat d * 2 ^ s < 2 ^ 64" "2 ^ 31 \<le> dn" "dn < 2 ^ 32"
proof -
  define d1 :: u32 where "d1 = ucast (drop_bit 32 d)"
  have dd: "unat (drop_bit 32 d) = unat d div 2 ^ 32" by (rule unat_drop_bit)
  have d64: "unat d < 2 ^ 64" using unat_less_len [of d] by simp
  then have "unat d div 2 ^ 32 < 2 ^ 32" by (simp add: div_less_iff_less_mult)
  then have d1: "unat d1 = unat d div 2 ^ 32" by (simp add: d1_def unat_ucast dd)
  have d10: "d1 \<noteq> 0" using assms(1) d1 dd by (metis unat_0 unat_eq_zero)
  have lo: "2 ^ 31 \<le> unat d1 * 2 ^ s" and hi: "unat d1 * 2 ^ s < 2 ^ 32" using nlz_bound [OF d10] by (simp_all add: s_def d1_def)
  have s31: "s \<le> 31"
  proof (rule ccontr)
    assume "\<not> s \<le> 31"
    then have "(2 :: nat) ^ 32 \<le> 2 ^ s" by (intro power_increasing) auto
    also have "\<dots> \<le> unat d1 * 2 ^ s" using d10 by (simp add: unat_gt_0 Suc_le_eq)
    finally show False using hi by simp
  qed
  have dm: "unat d = unat d1 * 2 ^ 32 + unat d mod 2 ^ 32" by (simp add: d1)
  have p: "(2 :: nat) ^ 32 = 2 ^ (32 - s) * 2 ^ s" unfolding power_add [symmetric] using s31 by simp
  have "unat d1 < 2 ^ (32 - s)" using hi unfolding p mult_less_cancel2 by simp
  then have "(unat d1 + 1) * 2 ^ s \<le> 2 ^ 32" unfolding p by (intro mult_le_mono1) simp
  then have "(unat d1 + 1) * 2 ^ s * 2 ^ 32 \<le> 2 ^ 32 * 2 ^ 32" by (rule mult_le_mono1)
  moreover have "unat d < (unat d1 + 1) * 2 ^ 32" by (subst dm) simp
  then have "unat d * 2 ^ s < (unat d1 + 1) * 2 ^ 32 * 2 ^ s" by (intro mult_strict_right_mono) simp_all
  moreover have "(unat d1 + 1) * 2 ^ 32 * 2 ^ s = (unat d1 + 1) * 2 ^ s * (2 :: nat) ^ 32" by (simp only: mult_ac)
  moreover have "(2 :: nat) ^ 32 * 2 ^ 32 = 2 ^ 64" by simp
  ultimately have ds: "unat d * 2 ^ s < 2 ^ 64" by linarith
  have dn: "dn = unat d * 2 ^ s div 2 ^ 32" by (simp add: dn_def s_def)
  have "unat d1 * 2 ^ 32 \<le> unat d" using dm by linarith
  then have "unat d1 * 2 ^ 32 * 2 ^ s \<le> unat d * 2 ^ s" by (rule mult_le_mono1)
  then have "unat d1 * 2 ^ s * 2 ^ 32 \<le> unat d * 2 ^ s" by (simp only: mult_ac)
  then have "unat d1 * 2 ^ s \<le> dn" unfolding dn by (simp only: less_eq_div_iff_mult_less_eq zero_less_numeral zero_less_power)
  then have dn31: "2 ^ 31 \<le> dn" using lo by linarith
  have dn32: "dn < 2 ^ 32" unfolding dn using ds by (simp add: div_less_iff_less_mult)
  show "s \<le> 31" "unat d * 2 ^ s < 2 ^ 64" "2 ^ 31 \<le> dn" "dn < 2 ^ 32"
    by (fact s31, fact ds, fact dn31, fact dn32)
qed

lemma udiv64_high:
  assumes "drop_bit 32 d \<noteq> 0" "d \<le> n"
  shows "\<exists>q. udiv64 n d = Some q \<and> unat q = unat n div unat d"
proof -
  define s where "s = nlz (ucast (drop_bit 32 d))"
  define dn where "dn = unat d * 2 ^ s div 2 ^ 32"
  define dv :: u32 where "dv = ucast (drop_bit 32 (push_bit s d))"
  note N = normalised [OF assms(1), folded s_def, folded dn_def]
  have "unat (push_bit s d) = unat d * 2 ^ s" using N(2) by (intro unat_push_bit) simp
  then have dv: "unat dv = dn" using N(4) by (simp only: dv_def unat_ucast unat_drop_bit dn_def) simp
  have n64: "unat n < 2 ^ 64" using unat_less_len [of n] by simp
  define q0 :: u32 where "q0 = of_nat (unat n div 2 div dn)"
  have nd: "unat n div 2 div dn < 2 ^ 32"
  proof -
    have "unat n div 2 < 2 ^ 32 * 2 ^ 31" using n64 by (simp add: div_less_iff_less_mult)
    also have "\<dots> \<le> 2 ^ 32 * dn" using N(3) by simp
    finally show ?thesis using N(3) by (simp add: div_less_iff_less_mult)
  qed
  have dvl: "divl (drop_bit 1 n) dv = Some q0"
    using nd N(3) by (simp only: divl_def unat_drop_bit dv power_one_right q0_def) (use dv in auto)
  have uq0: "unat q0 = unat n div 2 div dn" using nd by (simp add: q0_def unat_of_nat take_bit_nat_eq_self)
  define q :: u64 where "q = ucast (drop_bit (31 - s) q0)"
  have "unat q = unat q0 div 2 ^ (31 - s)"
  proof -
    have "unat q0 div 2 ^ (31 - s) \<le> unat q0" by simp
    also have "\<dots> < 2 ^ LENGTH(64)" using unat_less_len [of q0] by simp
    finally have "unat q0 div 2 ^ (31 - s) < 2 ^ LENGTH(64)" .
    then show ?thesis unfolding q_def unat_ucast unat_drop_bit by (rule mod_less)
  qed
  also have "\<dots> = unat n div (2 * dn * 2 ^ (31 - s))" by (simp only: uq0 div_mult2_eq)
  also have "2 * dn * 2 ^ (31 - s) = dn * 2 ^ (32 - s)" 
  proof -
    have "32 - s = Suc (31 - s)" using N(1) by simp
    then show ?thesis by simp
  qed
  finally have uq: "unat q = unat n div (dn * 2 ^ (32 - s))" .
  have "udiv64 n d = Some (if n - (q - 1) * d < d then q - 1 else q)"
    using assms by (simp only: udiv64_def Let_def not_less [symmetric] if_False bind.bind_lunit q_def dvl flip: s_def dv_def) 
  moreover have "d \<noteq> 0" using assms(1) by auto
  ultimately show ?thesis using quotient_correct [of d n q] quotient_estimate [OF N(2) dn_def N(3) N(1) n64] uq assms(2) by simp
qed

subsection \<open>Division by a 32-bit divisor\<close>

lemma split_quotient:
  fixes n d b :: nat
  assumes "0 < d"
  shows "(b * (n div b mod d) + n mod b) div d + b * (n div b div d) = n div d"
proof -
  let ?a = "b * (n div b mod d) + n mod b"
  have "b * (n div b) = b * (n div b mod d) + b * (d * (n div b div d))"
    by (metis add_mult_distrib2 mod_mult_div_eq)
  then have "n = ?a + d * (b * (n div b div d))"
    using mult_div_mod_eq [of b n] by (simp add: mult.left_commute)
  then have "n div d = (?a + d * (b * (n div b div d))) div d" by simp
  then show ?thesis using assms by simp
qed

lemma udiv64_low:
  assumes "drop_bit 32 d = 0" "d \<noteq> 0"
  shows "\<exists>q. udiv64 n d = Some q \<and> unat q = unat n div unat d"
proof -
  let ?n1 = "unat n div 2 ^ 32" and ?n0 = "unat n mod 2 ^ 32" and ?d = "unat d"
  have n64: "unat n < 2 ^ 64" using unat_less_len [of n] by simp
  have "unat d div 2 ^ 32 = 0" using assms(1) unat_drop_bit [of 32 d] by simp
  then have d32: "?d < 2 ^ 32" by (simp add: div_eq_0_iff)
  have d0: "0 < ?d" using assms(2) by (simp add: unat_gt_0)
  have n1: "?n1 < 2 ^ 32" using n64 by (simp add: div_less_iff_less_mult)
  define d' :: u32 where "d' = ucast d"
  define n1 :: u32 where "n1 = ucast (drop_bit 32 n)"
  define n0 :: u32 where "n0 = ucast n"
  have u: "unat d' = ?d" "unat n1 = ?n1" "unat n0 = ?n0"
    using d32 n1 by (simp_all only: d'_def n1_def n0_def unat_ucast unat_drop_bit) simp_all
  let ?m = "2 ^ 32 * (?n1 mod ?d) + ?n0"
  have "?n1 mod ?d + 1 \<le> ?d" using d0 by (simp add: Suc_le_eq)
  then have "2 ^ 32 * (?n1 mod ?d) + 2 ^ 32 \<le> 2 ^ 32 * ?d" using mult_le_mono2 [of "?n1 mod ?d + 1" ?d "2 ^ 32"]
    by (simp only: add_mult_distrib2 mult_1_right)
  moreover have "?n0 < 2 ^ 32" by simp
  ultimately have m: "?m < 2 ^ 32 * ?d" by linarith
  then have qm: "?m div ?d < 2 ^ 32" using d0 by (simp only: div_less_iff_less_mult)
  have "2 ^ 32 * ?d < 2 ^ 64" using d32 by simp
  then have m64: "?m < 2 ^ 64" using m by linarith
  define w :: u64 where "w = push_bit 32 1 * ucast (n1 mod d') + ucast n0"
  have "w = of_nat (2 ^ 32) * of_nat (unat (n1 mod d')) + of_nat (unat n0)" by (simp add: w_def)
  also have "\<dots> = of_nat ?m" by (simp only: unat_mod_distrib u of_nat_add of_nat_mult)
  finally have w: "unat w = ?m" using m64 by (simp only: unat_of_nat) (simp add: take_bit_nat_eq_self)
  define q0 :: u32 where "q0 = of_nat (?m div ?d)"
  have q0: "unat q0 = ?m div ?d" using qm by (simp only: q0_def unat_of_nat) (simp add: take_bit_nat_eq_self)
  have d'0: "d' \<noteq> 0" using d0 u(1) by auto
  have dvl: "divl w d' = Some q0" using d'0 qm by (simp only: divl_def w u(1) q0_def not_le [symmetric] simp_thms if_False)
  define q :: u64 where "q = ucast q0 + push_bit 32 1 * ucast (n1 div d')"
  have "q = of_nat (unat q0) + of_nat (2 ^ 32) * of_nat (unat (n1 div d'))" by (simp add: q_def)
  also have "\<dots> = of_nat (?m div ?d + 2 ^ 32 * (?n1 div ?d))"
    by (simp only: unat_div_distrib u q0 of_nat_add of_nat_mult)
  also have "?m div ?d + 2 ^ 32 * (?n1 div ?d) = unat n div ?d" using d0 by (rule split_quotient)
  finally have "unat q = unat n div ?d"
  proof -
    assume e: "q = of_nat (unat n div ?d)"
    have "unat n div ?d \<le> unat n" by simp
    then have "unat n div ?d < 2 ^ 64" using n64 by (rule le_less_trans)
    then have "unat n div ?d < 2 ^ LENGTH(64)" by simp
    then show ?thesis unfolding e unat_of_nat by (rule mod_less)
  qed
  moreover have "udiv64 n d = Some q"
    using assms(1) d'0 by (simp only: udiv64_def Let_def guard_bind if_True bind.bind_lunit q_def dvl simp_thms flip: n1_def n0_def d'_def w_def)
  ultimately show ?thesis by blast
qed

subsection \<open>The four routines\<close>

lemma udiv64_eq: "udiv64 n d = (if d = 0 then None else Some (n div d))"
proof (cases "d = 0")
  case True
  then show ?thesis by (simp add: udiv64_def Let_def)
next
  case False
  have less: "n < d \<Longrightarrow> n div d = 0" by (simp add: word_less_nat_alt unat_div_distrib flip: unat_eq_zero)
  have "\<exists>q. udiv64 n d = Some q \<and> unat q = unat n div unat d"
  proof (cases "drop_bit 32 d = 0")
    case True
    then show ?thesis using False by (rule udiv64_low)
  next
    case high: False
    show ?thesis
    proof (cases "n < d")
      case True
      then show ?thesis using high less by (simp add: udiv64_def flip: unat_div_distrib)
    next
      case False
      then show ?thesis using high by (intro udiv64_high) simp_all
    qed
  qed
  then show ?thesis using False by (auto simp: word_unat_eq_iff unat_div_distrib)
qed

lemma sabs64_eq: "unat (sabs64 x) = nat \<bar>sint x\<bar>"
proof -
  have "- (2 ^ 63) \<le> sint x" "sint x < 2 ^ 63" using sint_greater_eq [of x] sint_less [of x] by simp_all
  then have "take_bit 64 \<bar>sint x\<bar> = \<bar>sint x\<bar>" by (intro take_bit_int_eq_self) auto
  moreover have "sabs64 x = of_int \<bar>sint x\<bar>" by (simp add: sabs64_def)
  ultimately have "uint (sabs64 x) = \<bar>sint x\<bar>" by (simp add: unsigned_of_int)
  then show ?thesis by (metis unat_eq_nat_uint)
qed

lemma sdiv64_eq: "sdiv64 n d = (if d = 0 then None else Some (of_int (sint n sdiv sint d)))"
proof (cases "d = 0")
  case True
  then show ?thesis by (simp add: sdiv64_def udiv64_eq sabs64_def)
next
  case False
  then have s0: "sabs64 d \<noteq> 0" by (auto simp: sabs64_def)
  have d0: "sint d \<noteq> 0" using False by (metis signed_0 signed_word_eqI)
  have "sabs64 n div sabs64 d = of_nat (unat (sabs64 n div sabs64 d))" by simp
  also have "\<dots> = of_int (\<bar>sint n\<bar> div \<bar>sint d\<bar>)"
    by (simp only: unat_div_distrib sabs64_eq flip: nat_div_distrib [OF abs_ge_zero] ) (simp add: of_nat_nat div_int_pos_iff)
  finally have q: "sabs64 n div sabs64 d = of_int (\<bar>sint n\<bar> div \<bar>sint d\<bar>)" .
  show ?thesis
    using False s0 d0 by (auto simp: sdiv64_def udiv64_eq q signed_divide_int_def sgn_if)
qed

lemma ucast_ucast_low: "ucast (ucast x :: u32) = take_bit 32 x" for x :: u64
  by (simp add: word_unat_eq_iff unat_ucast take_bit_eq_mod unat_mod_distrib)

lemma scast_ucast_low: "scast (ucast x :: u32) = signed_take_bit 31 x" for x :: u64
  by transfer (simp)



end
