(* ===== verification/Stdlib.thy ===== *)
theory Stdlib
  imports Cstring "HOL-Library.Multiset"
begin

text \<open>
  The general routines of \<open>lib/stdlib.c\<close>: \<open>atoi\<close>, heap sort and binary search. Arrays are
  ranges of the byte memory of \<open>Cstring\<close>, elements are \<open>size\<close> bytes, element numbers start at 1. The comparison
  function the caller passes is a parameter; it sees the bytes of two elements. A signed
  overflow in \<open>atoi\<close> has no result.
\<close>

subsection \<open>atoi\<close>

definition isdigit :: "u8 \<Rightarrow> bool" where
  "isdigit c \<longleftrightarrow> 48 \<le> c \<and> c \<le> 57"

definition isspace :: "u8 \<Rightarrow> bool" where
  "isspace c \<longleftrightarrow> c = 32 \<or> c = 12 \<or> c = 10 \<or> c = 13 \<or> c = 9 \<or> c = 11"

partial_function (option) skip_space :: "nat \<Rightarrow> memory \<Rightarrow> nat option" where
  "skip_space s m = do {
     c \<leftarrow> m s;
     if isspace c then skip_space (s + 1) m else Some s }"

partial_function (option) atoi_digits :: "nat \<Rightarrow> int \<Rightarrow> memory \<Rightarrow> int option" where
  "atoi_digits s value m = do {
     c \<leftarrow> m s;
     if isdigit c then do {
       guard (int_ok (value * 10));
       let value = value * 10 - (int (unat c) - 48);
       guard (int_ok value);
       atoi_digits (s + 1) value m }
     else Some value }"

definition atoi :: "nat \<Rightarrow> memory \<Rightarrow> int option" where
  "atoi s m = do {
     guard (s \<noteq> 0);
     s \<leftarrow> skip_space s m;
     c \<leftarrow> m s;
     let negative = (c \<noteq> 43 \<and> c = 45);
     let s = (if c = 43 \<or> c = 45 then s + 1 else s);
     value \<leftarrow> atoi_digits s 0 m;
     if negative then Some value
     else do { guard (int_ok (- value)); Some (- value) } }"

subsection \<open>Heap sort\<close>

type_synonym compare_fn = "bytes \<Rightarrow> bytes \<Rightarrow> int"

definition elem_addr :: "nat \<Rightarrow> nat \<Rightarrow> nat \<Rightarrow> nat" where
  "elem_addr array idx sz = array + sz_mul (sz_sub idx 1) sz"

definition load :: "memory \<Rightarrow> nat \<Rightarrow> nat \<Rightarrow> bytes option" where
  "load m a n = those (map (\<lambda>i. m (a + i)) [0..<n])"

definition do_swap :: "nat \<Rightarrow> nat \<Rightarrow> nat \<Rightarrow> nat \<Rightarrow> memory \<Rightarrow> memory option" where
  "do_swap array a_idx b_idx sz m = do {
     let a = elem_addr array a_idx sz;
     let b = elem_addr array b_idx sz;
     for_upto 0 sz (\<lambda>i m. do {
       t \<leftarrow> m (a + i);
       v \<leftarrow> m (b + i);
       m \<leftarrow> store m (a + i) v;
       store m (b + i) t }) m }"

definition do_compare :: "nat \<Rightarrow> nat \<Rightarrow> nat \<Rightarrow> nat \<Rightarrow> compare_fn \<Rightarrow> memory \<Rightarrow> int option" where
  "do_compare array a_idx b_idx sz compare m = do {
     x \<leftarrow> load m (elem_addr array a_idx sz) sz;
     y \<leftarrow> load m (elem_addr array b_idx sz) sz;
     Some (compare x y) }"

text \<open>One of the two tests of the loop of \<open>heapify\<close>: is the element \<open>child\<close> larger than \<open>max\<close>?\<close>

definition larger :: "nat \<Rightarrow> nat \<Rightarrow> nat \<Rightarrow> nat \<Rightarrow> nat \<Rightarrow> compare_fn \<Rightarrow> memory \<Rightarrow> nat option" where
  "larger array child mx cnt sz compare m =
     (if child \<le> cnt then do {
        c \<leftarrow> do_compare array child mx sz compare m;
        Some (if 0 < c then child else mx) }
      else Some mx)"

partial_function (option) heapify :: "nat \<Rightarrow> nat \<Rightarrow> nat \<Rightarrow> nat \<Rightarrow> compare_fn \<Rightarrow> memory \<Rightarrow> memory option" where
  "heapify array i cnt sz compare m = do {
     let left = sz_mul 2 i;
     let right = sz_add (sz_mul 2 i) 1;
     mx \<leftarrow> larger array left i cnt sz compare m;
     mx \<leftarrow> larger array right mx cnt sz compare m;
     if mx = i then Some m
     else do {
       m \<leftarrow> do_swap array i mx sz m;
       heapify array mx cnt sz compare m } }"

fun build_heap :: "nat \<Rightarrow> nat \<Rightarrow> nat \<Rightarrow> nat \<Rightarrow> compare_fn \<Rightarrow> memory \<Rightarrow> memory option" where
  "build_heap array 0 cnt sz compare m = Some m"
| "build_heap array (Suc i) cnt sz compare m = do {
     m \<leftarrow> heapify array (Suc i) cnt sz compare m;
     build_heap array i cnt sz compare m }"

fun sort_heap :: "nat \<Rightarrow> nat \<Rightarrow> nat \<Rightarrow> compare_fn \<Rightarrow> memory \<Rightarrow> memory option" where
  "sort_heap array (Suc (Suc i)) sz compare m = do {
     m \<leftarrow> do_swap array 1 (Suc (Suc i)) sz m;
     m \<leftarrow> heapify array 1 (Suc i) sz compare m;
     sort_heap array (Suc i) sz compare m }"
| "sort_heap array i sz compare m = Some m"

definition sort_array :: "nat \<Rightarrow> nat \<Rightarrow> nat \<Rightarrow> compare_fn \<Rightarrow> memory \<Rightarrow> memory option" where
  "sort_array array cnt sz compare m = do {
     guard (array \<noteq> 0 \<or> cnt = 0);
     guard (0 < sz);
     m \<leftarrow> build_heap array (cnt div 2) cnt sz compare m;
     sort_heap array cnt sz compare m }"

text \<open>\<open>compare_thunk\<close> only passes the two elements on, so \<open>qsort\<close> is \<open>sort\<close>.\<close>

definition qsort :: "nat \<Rightarrow> nat \<Rightarrow> nat \<Rightarrow> compare_fn \<Rightarrow> memory \<Rightarrow> memory option" where
  "qsort array cnt sz compare m = sort_array array cnt sz compare m"

subsection \<open>Binary search\<close>

text \<open>The key is whatever the comparison function makes of it; the range divides by \<open>size\<close>.\<close>

function search_loop :: "nat \<Rightarrow> nat \<Rightarrow> nat \<Rightarrow> (bytes \<Rightarrow> int) \<Rightarrow> memory \<Rightarrow> nat option option" where
  "search_loop first last' sz compare_key m =
     (if first < last' then
        if sz = 0 then None
        else do {
          let range' = (last' - first) div sz;
          let middle = first + (range' div 2) * sz;
          x \<leftarrow> load m middle sz;
          let cmp = compare_key x;
          if cmp < 0 then search_loop first middle sz compare_key m
          else if 0 < cmp then search_loop (middle + sz) last' sz compare_key m
          else Some (Some middle) }
      else Some None)"
  by pat_completeness auto
termination
proof (relation "measure (\<lambda>(first, last', _). last' - first)")
  fix first last' sz range' middle :: nat
  assume lt: "first < last'" and "sz \<noteq> 0" and r: "range' = (last' - first) div sz" and mid: "middle = first + range' div 2 * sz"
  have "range' * sz \<le> last' - first" unfolding r by simp
  moreover have "range' div 2 + range' div 2 \<le> range'" by linarith
  then have "range' div 2 * sz + range' div 2 * sz \<le> range' * sz" unfolding add_mult_distrib [symmetric] by (rule mult_le_mono1)
  ultimately have "middle < last'" using lt mid by linarith
  then have "middle - first < last' - first" "last' - (middle + sz) < last' - first" using mid \<open>sz \<noteq> 0\<close> by auto
  then show "((first, middle, sz, f, m), first, last', sz, f, m) \<in> measure (\<lambda>(first, last', _). last' - first)"
    "((middle + sz, last', sz, f, m), first, last', sz, f, m) \<in> measure (\<lambda>(first, last', _). last' - first)"
    for f :: "bytes \<Rightarrow> int" and m :: memory
    by auto
qed auto

declare search_loop.simps [simp del]

definition binary_search :: "'k \<Rightarrow> nat \<Rightarrow> nat \<Rightarrow> nat \<Rightarrow> ('k \<Rightarrow> bytes \<Rightarrow> int) \<Rightarrow> memory \<Rightarrow> nat option option" where
  "binary_search key array cnt sz compare m = search_loop array (array + sz_mul sz cnt) sz (compare key) m"

definition bsearch :: "'k \<Rightarrow> nat \<Rightarrow> nat \<Rightarrow> nat \<Rightarrow> ('k \<Rightarrow> bytes \<Rightarrow> int) \<Rightarrow> memory \<Rightarrow> nat option option" where
  "bsearch key array cnt sz compare m = binary_search key array cnt sz compare m"

subsection \<open>The number that atoi reads\<close>

primrec dec :: "bytes \<Rightarrow> int" where
  "dec [] = 0"
| "dec (c # ds) = (int (unat c) - 48) * 10 ^ length ds + dec ds"

lemma isdigit_range: "isdigit c \<Longrightarrow> 0 \<le> int (unat c) - 48 \<and> int (unat c) - 48 \<le> 9"
  by (simp add: isdigit_def word_le_def)

lemma dec_nonneg: "list_all isdigit ds \<Longrightarrow> 0 \<le> dec ds"
  by (induction ds) (auto dest: isdigit_range)

lemma atoi_digits_eq:
  "bytes_at m s (ds @ [c]) \<Longrightarrow> list_all isdigit ds \<Longrightarrow> \<not> isdigit c \<Longrightarrow> v \<le> 0 \<Longrightarrow> - (2 ^ 31) \<le> v \<Longrightarrow>
   atoi_digits s v m = (let r = v * 10 ^ length ds - dec ds in if int_ok r then Some r else None)"
proof (induction ds arbitrary: s v)
  case Nil
  then show ?case by (subst atoi_digits.simps) (simp add: int_ok_def)
next
  case (Cons d ds)
  let ?v = "v * 10 - (int (unat d) - 48)"
  have d: "0 \<le> int (unat d) - 48" "int (unat d) - 48 \<le> 9" using Cons.prems(2) isdigit_range by auto
  have r: "v * 10 ^ length (d # ds) - dec (d # ds) = ?v * 10 ^ length ds - dec ds" by (simp add: algebra_simps)
  have v: "?v \<le> 0" using d Cons.prems(4) by simp
  have p: "(1 :: int) \<le> 10 ^ length ds" by simp
  have low: "?v * 10 ^ length ds - dec ds \<le> ?v"
    using mult_left_mono_neg [OF p v] dec_nonneg [of ds] Cons.prems(2) by simp
  have st: "atoi_digits s v m = (if int_ok (v * 10) \<and> int_ok ?v then atoi_digits (s + 1) ?v m else None)"
    using Cons.prems(1,2) by (subst atoi_digits.simps) (simp add: Let_def)
  show ?case
  proof (cases "- (2 ^ 31) \<le> ?v")
    case True
    then have "int_ok (v * 10)" "int_ok ?v" using d v by (simp_all add: int_ok_def)
    then show ?thesis unfolding st r using Cons.IH [of "s + 1" ?v] Cons.prems v True by simp
  next
    case False
    then have "\<not> int_ok ?v" "\<not> int_ok (?v * 10 ^ length ds - dec ds)" using low by (auto simp: int_ok_def)
    then show ?thesis unfolding st r by (simp add: Let_def)
  qed
qed

lemma skip_space_eq: "bytes_at m s (sp @ [c]) \<Longrightarrow> list_all isspace sp \<Longrightarrow> \<not> isspace c \<Longrightarrow> skip_space s m = Some (s + length sp)"
  by (induction sp arbitrary: s) (subst skip_space.simps, simp)+

lemma digit_not_space: "isdigit c \<Longrightarrow> \<not> isspace c \<and> c \<noteq> 43 \<and> c \<noteq> 45"
  by (auto simp: isdigit_def isspace_def)

text \<open>C28: \<open>atoi\<close> on white space, an optional sign and decimal digits, followed by a character that is not a digit, returns the
  number they denote when it fits in an \<open>int\<close>, both limits included; for every other number the arithmetic overflows and the
  result is undefined.\<close>
theorem atoi_correct:
  assumes "bytes_at m s (sp @ sign @ ds @ [c])" "s \<noteq> 0" and "list_all isspace sp" "list_all isdigit ds" "\<not> isdigit c"
    and "sign \<in> {[], [43], [45]}" and "sign = [] \<longrightarrow> ds = [] \<longrightarrow> \<not> isspace c \<and> c \<noteq> 43 \<and> c \<noteq> 45"
  shows "atoi s m = (let v = (if sign = [45] then - dec ds else dec ds) in if int_ok v then Some v else None)"
proof -
  define c1 where "c1 = hd (sign @ ds @ [c])"
  have "sign @ ds @ [c] = c1 # tl (sign @ ds @ [c])" by (simp add: c1_def)
  then have "bytes_at m s (sp @ c1 # tl (sign @ ds @ [c]))" using assms(1) by metis
  then have c1: "bytes_at m s (sp @ [c1])" by (simp add: bytes_at_append)
  have ns: "\<not> isspace c1" using assms(4,6,7) digit_not_space by (cases ds) (auto simp: c1_def isspace_def)
  have sg: "sign = [] \<Longrightarrow> c1 \<noteq> 43 \<and> c1 \<noteq> 45" using assms(4,7) digit_not_space by (cases ds) (auto simp: c1_def)
  have "bytes_at m (s + length sp + length sign) (ds @ [c])" using assms(1) by (simp add: bytes_at_append add.assoc)
  then have dg: "atoi_digits (s + length sp + length sign) 0 m = (if int_ok (- dec ds) then Some (- dec ds) else None)"
    using atoi_digits_eq [of m _ ds c 0] assms(4,5) by simp
  have "m (s + length sp) = Some c1" using c1 by (simp add: bytes_at_append)
  moreover have "int_ok (dec ds) \<Longrightarrow> int_ok (- dec ds)" using dec_nonneg [OF assms(4)] by (auto simp: int_ok_def)
  ultimately show ?thesis
    using assms(2,6) skip_space_eq [OF c1 assms(3) ns] sg dg by (auto simp: atoi_def Let_def c1_def split: if_splits)
qed

theorem atoi_correct_witness: "atoi 100 (mem100 [32, 45, 49, 50, 0]) = Some (- 12)"
  using atoi_correct [of "mem100 [32, 45, 49, 50, 0]" 100 "[32]" "[45]" "[49, 50]" 0] mem100_bytes [of "[32, 45, 49, 50, 0]"]
  by (simp add: isspace_def isdigit_def int_ok_def)

end
