(* ===== verification/Stdlib_Sort.thy ===== *)
theory Stdlib_Sort
  imports Stdlib
begin

text \<open>
  Heap sort of \<open>lib/stdlib.c\<close> is correct. The heap is studied on lists (\<open>sift\<close> is \<open>heapify\<close> there), and the
  routines on memory are shown to do on the elements of the array what the list functions do.
\<close>

subsection \<open>Heaps in lists, elements numbered from 1\<close>

definition at :: "'a list \<Rightarrow> nat \<Rightarrow> 'a" where
  "at xs k = xs ! (k - 1)"

definition swap1 :: "'a list \<Rightarrow> nat \<Rightarrow> nat \<Rightarrow> 'a list" where
  "swap1 xs i j = xs[i - 1 := at xs j, j - 1 := at xs i]"

definition pick :: "('a \<Rightarrow> 'a \<Rightarrow> int) \<Rightarrow> nat \<Rightarrow> 'a list \<Rightarrow> nat \<Rightarrow> nat \<Rightarrow> nat" where
  "pick cmp cnt xs child mx = (if child \<le> cnt \<and> 0 < cmp (at xs child) (at xs mx) then child else mx)"

definition largest :: "('a \<Rightarrow> 'a \<Rightarrow> int) \<Rightarrow> nat \<Rightarrow> nat \<Rightarrow> 'a list \<Rightarrow> nat" where
  "largest cmp i cnt xs = pick cmp cnt xs (2 * i + 1) (pick cmp cnt xs (2 * i) i)"

lemma largest_cases: "largest cmp i cnt xs = i \<or> largest cmp i cnt xs \<in> {2 * i, 2 * i + 1} \<and> largest cmp i cnt xs \<le> cnt"
  by (auto simp: largest_def pick_def)

function sift :: "('a \<Rightarrow> 'a \<Rightarrow> int) \<Rightarrow> nat \<Rightarrow> nat \<Rightarrow> 'a list \<Rightarrow> 'a list" where
  "sift cmp i cnt xs =
     (if i = 0 \<or> largest cmp i cnt xs = i then xs
      else sift cmp (largest cmp i cnt xs) cnt (swap1 xs i (largest cmp i cnt xs)))"
  by pat_completeness auto
termination
proof (relation "measure (\<lambda>(cmp, i, cnt, xs). cnt - i)")
  show "((cmp, largest cmp i cnt xs, cnt, swap1 xs i (largest cmp i cnt xs)), cmp, i, cnt, xs) \<in> measure (\<lambda>(cmp, i, cnt, xs). cnt - i)"
    if "\<not> (i = 0 \<or> largest cmp i cnt xs = i)" for cmp :: "'a \<Rightarrow> 'a \<Rightarrow> int" and i cnt xs
    using that largest_cases [of cmp i cnt xs] by auto
qed simp

declare sift.simps [simp del]

text \<open>A comparison function that returns a result like that of \<open>strcmp\<close>.\<close>

definition strcmp_type :: "('a \<Rightarrow> 'a \<Rightarrow> int) \<Rightarrow> bool" where
  "strcmp_type cmp \<longleftrightarrow>
     (\<forall>x y. cmp x y < 0 \<longleftrightarrow> 0 < cmp y x) \<and> (\<forall>x y z. cmp x y \<le> 0 \<longrightarrow> cmp y z \<le> 0 \<longrightarrow> cmp x z \<le> 0)"

lemma cmp_total: "strcmp_type cmp \<Longrightarrow> 0 < cmp x y \<Longrightarrow> cmp y x \<le> 0"
  unfolding strcmp_type_def by (meson less_le)

lemma cmp_total': "strcmp_type cmp \<Longrightarrow> \<not> 0 < cmp x y \<Longrightarrow> cmp x y \<le> 0"
  by simp

lemma cmp_trans: "strcmp_type cmp \<Longrightarrow> cmp x y \<le> 0 \<Longrightarrow> cmp y z \<le> 0 \<Longrightarrow> cmp x z \<le> 0"
  unfolding strcmp_type_def by blast

text \<open>Every element from \<open>lo\<close> on is at least its children.\<close>

definition heap :: "('a \<Rightarrow> 'a \<Rightarrow> int) \<Rightarrow> nat \<Rightarrow> nat \<Rightarrow> 'a list \<Rightarrow> bool" where
  "heap cmp lo cnt xs \<longleftrightarrow> (\<forall>k \<le> cnt. lo \<le> k div 2 \<longrightarrow> cmp (at xs k) (at xs (k div 2)) \<le> 0)"

text \<open>The same except at \<open>i\<close>, whose children are still at most its parent.\<close>

definition heap_but :: "('a \<Rightarrow> 'a \<Rightarrow> int) \<Rightarrow> nat \<Rightarrow> nat \<Rightarrow> nat \<Rightarrow> 'a list \<Rightarrow> bool" where
  "heap_but cmp lo i cnt xs \<longleftrightarrow>
     (\<forall>k \<le> cnt. lo \<le> k div 2 \<longrightarrow> k div 2 \<noteq> i \<longrightarrow> cmp (at xs k) (at xs (k div 2)) \<le> 0) \<and>
     (\<forall>k \<le> cnt. k div 2 = i \<longrightarrow> lo \<le> i div 2 \<longrightarrow> cmp (at xs k) (at xs (i div 2)) \<le> 0)"

lemma at_swap1:
  assumes "1 \<le> i" "i \<le> length xs" "1 \<le> j" "j \<le> length xs" "1 \<le> k" "k \<le> length xs"
  shows "at (swap1 xs i j) k = (if k = i then at xs j else if k = j then at xs i else at xs k)"
  using assms by (auto simp: at_def swap1_def nth_list_update)

lemma length_swap1 [simp]: "length (swap1 xs i j) = length xs"
  by (simp add: swap1_def)

lemma mset_swap1: "1 \<le> i \<Longrightarrow> i \<le> length xs \<Longrightarrow> 1 \<le> j \<Longrightarrow> j \<le> length xs \<Longrightarrow> mset (swap1 xs i j) = mset xs"
  by (simp add: swap1_def at_def mset_swap)

lemma drop_swap1: "1 \<le> i \<Longrightarrow> 1 \<le> j \<Longrightarrow> i \<le> n \<Longrightarrow> j \<le> n \<Longrightarrow> drop n (swap1 xs i j) = drop n xs"
  by (simp add: swap1_def)

lemma cmp_refl: "strcmp_type cmp \<Longrightarrow> cmp x x \<le> 0"
  using cmp_total by (metis linorder_le_less_linear)

lemma pick_le:
  assumes "strcmp_type cmp"
  shows "cmp (at xs mx) (at xs (pick cmp cnt xs child mx)) \<le> 0"
    "child \<le> cnt \<Longrightarrow> cmp (at xs child) (at xs (pick cmp cnt xs child mx)) \<le> 0"
  using cmp_refl [OF assms] cmp_total [OF assms] by (simp_all add: pick_def not_less)

lemma largest_le:
  assumes "strcmp_type cmp" "k = i \<or> k div 2 = i \<and> k \<le> cnt"
  shows "cmp (at xs k) (at xs (largest cmp i cnt xs)) \<le> 0"
proof -
  have "k = i \<or> k \<le> cnt \<and> (k = 2 * i \<or> k = 2 * i + 1)" using assms(2) by auto
  then show ?thesis unfolding largest_def using pick_le [OF assms(1)] cmp_trans [OF assms(1)] by metis
qed

lemma sift_heap:
  assumes "strcmp_type cmp" "heap_but cmp lo i cnt xs" "1 \<le> lo" "lo \<le> i" "i \<le> cnt" "cnt \<le> length xs"
  shows "heap cmp lo cnt (sift cmp i cnt xs) \<and> mset (sift cmp i cnt xs) = mset xs \<and>
    drop cnt (sift cmp i cnt xs) = drop cnt xs"
  using assms
proof (induction cmp i cnt xs rule: sift.induct)
  case (1 cmp i cnt xs)
  let ?l = "largest cmp i cnt xs" and ?ys = "swap1 xs i (largest cmp i cnt xs)"
  note strcmp = 1(2)
  note H = 1(3)[unfolded heap_but_def, THEN conjunct1, rule_format] and G = 1(3)[unfolded heap_but_def, THEN conjunct2, rule_format]
  show ?case
  proof (cases "?l = i")
    case True
    have "heap cmp lo cnt xs" unfolding heap_def
    proof (intro allI impI)
      fix k assume "k \<le> cnt" "lo \<le> k div 2"
      then show "cmp (at xs k) (at xs (k div 2)) \<le> 0"
        using H [of k] largest_le [OF 1(2), of k i cnt xs] True by (cases "k div 2 = i") auto
    qed
    then show ?thesis using True by (simp add: sift.simps)
  next
    case False
    then have l: "?l div 2 = i" "?l \<le> cnt" "i < ?l" using largest_cases [of cmp i cnt xs] 1(4,5) by auto
    have at: "at ?ys k = (if k = i then at xs ?l else if k = ?l then at xs i else at xs k)" if "1 \<le> k" "k \<le> cnt" for k
      using that l 1(4-7) by (intro at_swap1) auto
    have "heap_but cmp lo ?l cnt ?ys" unfolding heap_but_def
    proof (intro conjI allI impI)
      fix k assume k: "k \<le> cnt" "lo \<le> k div 2" "k div 2 \<noteq> ?l"
      have lt: "k div 2 < k" using k(2) 1(4) by auto
      have e: "at ?ys k = (if k = i then at xs ?l else if k = ?l then at xs i else at xs k)"
        "at ?ys (k div 2) = (if k div 2 = i then at xs ?l else at xs (k div 2))"
        using at [of k] at [of "k div 2"] k lt 1(4) by auto
      consider "k = i" | "k div 2 = i" | "k \<noteq> i" "k div 2 \<noteq> i" by blast
      then show "cmp (at ?ys k) (at ?ys (k div 2)) \<le> 0"
      proof cases
        case 1
        then show ?thesis using e lt l k G [of ?l] by simp
      next
        case 2
        then show ?thesis using e lt k(1) largest_le [OF strcmp, of k i cnt xs] largest_le [OF strcmp, of i i cnt xs] by auto
      next
        case 3
        then have "k \<noteq> ?l" using l(1) by auto
        then show ?thesis using 3 e k H [of k] by simp
      qed
    next
      fix k assume k: "k \<le> cnt" "k div 2 = ?l" "lo \<le> ?l div 2"
      have "?l \<noteq> 0" using l(3) by simp
      then have "?l < k" using k(2) by auto
      then show "cmp (at ?ys k) (at ?ys (?l div 2)) \<le> 0"
        using at [of k] at [of i] l k H [of k] 1(4,5,6) by simp
    qed
    then have "heap cmp lo cnt (sift cmp ?l cnt ?ys) \<and> mset (sift cmp ?l cnt ?ys) = mset ?ys \<and> drop cnt (sift cmp ?l cnt ?ys) = drop cnt ?ys"
      using 1(1) False 1(2,4-7) l by auto
    moreover have "sift cmp i cnt xs = sift cmp ?l cnt ?ys" using False 1(4,5) by (subst sift.simps) auto
    moreover have "mset ?ys = mset xs" "drop cnt ?ys = drop cnt xs" using l 1(4-7) by (auto intro!: mset_swap1 drop_swap1)
    ultimately show ?thesis by simp
  qed
qed

lemma heap_root: "strcmp_type cmp \<Longrightarrow> heap cmp 1 n xs \<Longrightarrow> 1 \<le> k \<Longrightarrow> k \<le> n \<Longrightarrow> cmp (at xs k) (at xs 1) \<le> 0"
proof (induction k rule: less_induct)
  case (less k)
  show ?case
  proof (cases "k = 1")
    case False
    then have "1 \<le> k div 2" "k div 2 < k" "k div 2 \<le> n" using less.prems(3,4) by auto
    then have "cmp (at xs (k div 2)) (at xs 1) \<le> 0" "cmp (at xs k) (at xs (k div 2)) \<le> 0"
      using less by (auto simp: heap_def)
    then show ?thesis using cmp_trans [OF less.prems(1)] by blast
  qed (use less.prems(1) cmp_refl in auto)
qed

lemma in_take_at: "x \<in> set (take n xs) \<Longrightarrow> n \<le> length xs \<Longrightarrow> \<exists>k. 1 \<le> k \<and> k \<le> n \<and> x = at xs k"
  unfolding in_set_conv_nth at_def by (metis diff_Suc_1 le_add1 length_take less_eq_Suc_le min.absorb2 nth_take plus_1_eq_Suc)

lemma at_in_take: "1 \<le> k \<Longrightarrow> k \<le> n \<Longrightarrow> n \<le> length xs \<Longrightarrow> at xs k \<in> set (take n xs)"
  unfolding in_set_conv_nth at_def by (intro exI [of _ "k - 1"]) auto

text \<open>What the loop that takes the heap apart keeps.\<close>

definition parted :: "('a \<Rightarrow> 'a \<Rightarrow> int) \<Rightarrow> nat \<Rightarrow> 'a list \<Rightarrow> bool" where
  "parted cmp n xs \<longleftrightarrow> n \<le> length xs \<and> heap cmp 1 n xs \<and> sorted_wrt (\<lambda>x y. cmp x y \<le> 0) (drop n xs) \<and>
     (\<forall>x \<in> set (take n xs). \<forall>y \<in> set (drop n xs). cmp x y \<le> 0)"

lemma parted_step:
  assumes "strcmp_type cmp" "parted cmp (Suc n) xs" "1 \<le> n"
  shows "parted cmp n (sift cmp 1 n (swap1 xs 1 (Suc n)))" "mset (sift cmp 1 n (swap1 xs 1 (Suc n))) = mset xs"
proof -
  let ?ys = "swap1 xs 1 (Suc n)" and ?zs = "sift cmp 1 n (swap1 xs 1 (Suc n))"
  have P: "Suc n \<le> length xs" "heap cmp 1 (Suc n) xs" "sorted_wrt (\<lambda>x y. cmp x y \<le> 0) (drop (Suc n) xs)"
    "\<forall>x \<in> set (take (Suc n) xs). \<forall>y \<in> set (drop (Suc n) xs). cmp x y \<le> 0"
    using assms(2) by (simp_all add: parted_def)
  have "heap_but cmp 1 1 n ?ys"
    using P(1,2) assms(3) by (auto simp: heap_but_def heap_def at_swap1)
  then have z: "heap cmp 1 n ?zs" "mset ?zs = mset ?ys" "drop n ?zs = drop n ?ys"
    using sift_heap [OF assms(1), of 1 1 n ?ys] P(1) assms(3) by auto
  show m: "mset ?zs = mset xs" using z(2) mset_swap1 [of 1 xs "Suc n"] P(1) by simp
  have d: "drop n ?ys = at xs 1 # drop (Suc n) xs"
    using P(1) by (simp add: swap1_def at_def Cons_nth_drop_Suc [symmetric])
  have len: "length ?zs = length xs" using m by (metis mset_eq_length)
  have "mset (take n ?zs) = mset (take n ?ys)" using z(2,3) by (metis add_right_cancel append_take_drop_id mset_append)
  then have s: "set (take n ?zs) = set (take n ?ys)" by (metis set_mset_mset)
  have le: "x \<in> set (take (Suc n) xs)" if x: "x \<in> set (take n ?ys)" for x
  proof -
    obtain k where k: "1 \<le> k" "k \<le> n" "x = at ?ys k" using in_take_at [OF x] P(1) by auto
    then have "x = at xs (if k = 1 then Suc n else k)" using P(1) by (simp add: at_swap1)
    then show ?thesis using k P(1) by (auto intro!: at_in_take)
  qed
  have r: "cmp x (at xs 1) \<le> 0" if "x \<in> set (take (Suc n) xs)" for x
    using in_take_at [OF that P(1)] heap_root [OF assms(1) P(2)] by blast
  have "at xs 1 \<in> set (take (Suc n) xs)" using P(1) by (intro at_in_take) auto
  then show "parted cmp n ?zs"
    unfolding parted_def z(3) d s len using P z(1) r le by auto
qed

subsection \<open>The elements of an array in memory\<close>

definition elems :: "memory \<Rightarrow> nat \<Rightarrow> nat \<Rightarrow> bytes list \<Rightarrow> bool" where
  "elems m array sz xs \<longleftrightarrow> (\<forall>k < length xs. length (xs ! k) = sz \<and> bytes_at m (array + k * sz) (xs ! k))"

definition same_outside :: "memory \<Rightarrow> memory \<Rightarrow> nat \<Rightarrow> nat \<Rightarrow> bool" where
  "same_outside m m' array n \<longleftrightarrow> (\<forall>a. a \<notin> {array..<array + n} \<longrightarrow> m' a = m a)"

lemma same_outside_refl [simp]: "same_outside m m array n"
  by (simp add: same_outside_def)

lemma same_outside_trans [trans]: "same_outside m m' a n \<Longrightarrow> same_outside m' m'' a n \<Longrightarrow> same_outside m m'' a n"
  by (simp add: same_outside_def)

lemma load_bytes_at: "bytes_at m a bs \<Longrightarrow> load m a (length bs) = Some bs"
proof (induction bs arbitrary: a)
  case (Cons b bs)
  have "map (\<lambda>i. m (a + i)) [0..<length (b # bs)] = m a # map (\<lambda>i. m (a + 1 + i)) [0..<length bs]"
    by (simp add: upt_conv_Cons map_Suc_upt [symmetric] comp_def del: upt_Suc)
  then show ?case using Cons.IH [of "a + 1"] Cons.prems by (simp add: load_def del: upt_Suc)
qed (simp add: load_def)

text \<open>An array whose extent and whose numbering of heap nodes fit in \<open>size_t\<close>.\<close>

definition fits :: "nat \<Rightarrow> nat \<Rightarrow> bool" where
  "fits cnt sz \<longleftrightarrow> cnt * sz < 2 ^ 32 \<and> 2 * cnt + 1 < 2 ^ 32"

lemma elem_addr_eq: "fits cnt sz \<Longrightarrow> 1 \<le> k \<Longrightarrow> k \<le> cnt \<Longrightarrow> elem_addr array k sz = array + (k - 1) * sz"
proof -
  assume a: "fits cnt sz" "1 \<le> k" "k \<le> cnt"
  have "(k - 1) * sz \<le> cnt * sz" using a(3) by (intro mult_le_mono1) simp
  also have "\<dots> < 2 ^ 32" using a(1) by (simp add: fits_def)
  finally have "sz_mul (k - 1) sz = (k - 1) * sz" by (rule sz_mul_id)
  then show ?thesis using a by (simp add: elem_addr_def sz_sub_id fits_def)
qed

lemma load_elem:
  assumes "elems m array sz xs" "fits (length xs) sz" "1 \<le> k" "k \<le> length xs"
  shows "load m (elem_addr array k sz) sz = Some (at xs k)"
  using assms load_bytes_at [of m "array + (k - 1) * sz" "xs ! (k - 1)"] by (auto simp: elem_addr_eq elems_def at_def)

lemma larger_ok:
  assumes "elems m array sz xs" "fits (length xs) sz" "1 \<le> child" "1 \<le> mx" "mx \<le> cnt" "cnt \<le> length xs"
  shows "larger array child mx cnt sz cmp m = Some (pick cmp cnt xs child mx)"
  using assms(3-6) load_elem [OF assms(1,2)] by (simp add: larger_def do_compare_def pick_def)

text \<open>Exchanging two blocks that do not overlap.\<close>

lemma swap_bytes:
  assumes "bytes_at m a x" "bytes_at m b y" "length x = n" "length y = n" "a + n \<le> b \<or> b + n \<le> a"
  shows "\<exists>m'. for_upto 0 n (\<lambda>i m. do { t \<leftarrow> m (a + i); v \<leftarrow> m (b + i); m \<leftarrow> store m (a + i) v; store m (b + i) t }) m = Some m'
    \<and> bytes_at m' a y \<and> bytes_at m' b x \<and> (\<forall>c. c \<notin> {a..<a + n} \<longrightarrow> c \<notin> {b..<b + n} \<longrightarrow> m' c = m c)"
proof -
  let ?P = "\<lambda>i m'. (\<forall>k < n. m' (a + k) = Some (if k < i then y ! k else x ! k)) \<and>
    (\<forall>k < n. m' (b + k) = Some (if k < i then x ! k else y ! k)) \<and>
    (\<forall>c. c \<notin> {a..<a + n} \<longrightarrow> c \<notin> {b..<b + n} \<longrightarrow> m' c = m c)"
  have "\<exists>m'. for_upto 0 n (\<lambda>i m. do { t \<leftarrow> m (a + i); v \<leftarrow> m (b + i); m \<leftarrow> store m (a + i) v; store m (b + i) t }) m = Some m' \<and> ?P n m'"
  proof (rule for_upto_rule [where P = ?P])
    show "?P 0 m" using assms(1-4) by (simp add: bytes_at_def)
    fix i m1 assume i: "i < n" and P: "?P i m1"
    let ?m2 = "m1(a + i \<mapsto> y ! i, b + i \<mapsto> x ! i)"
    have "?m2 (a + k) = Some (if k < Suc i then y ! k else x ! k)" "?m2 (b + k) = Some (if k < Suc i then x ! k else y ! k)"
      if k: "k < n" for k
    proof -
      have ne: "a + k \<noteq> b + i" "b + k \<noteq> a + i" using assms(5) i k by auto
      show "?m2 (a + k) = Some (if k < Suc i then y ! k else x ! k)"
        using P k ne(1) by (cases "k = i") (auto simp: less_Suc_eq)
      show "?m2 (b + k) = Some (if k < Suc i then x ! k else y ! k)"
        using P k ne(2) by (cases "k = i") (auto simp: less_Suc_eq)
    qed
    moreover have "?m2 c = m c" if "c \<notin> {a..<a + n}" "c \<notin> {b..<b + n}" for c
      using P that i by auto
    ultimately have "?P (Suc i) ?m2" by blast
    moreover have "a + i \<noteq> b + i" using assms(5) i by auto
    ultimately show "\<exists>m'. do { t \<leftarrow> m1 (a + i); v \<leftarrow> m1 (b + i); m \<leftarrow> store m1 (a + i) v; store m (b + i) t } = Some m' \<and> ?P (Suc i) m'"
      using P i by (auto simp: store_Some)
  qed simp
  then show ?thesis using assms by (auto simp: bytes_at_def)
qed

lemma blocks_apart: "(i::nat) \<noteq> j \<Longrightarrow> i * sz + sz \<le> j * sz \<or> j * sz + sz \<le> i * sz"
  by (metis add.commute linorder_neqE_nat mult_Suc mult_le_mono1 Suc_leI)

lemma do_swap_ok:
  assumes "elems m array sz xs" "fits (length xs) sz" "1 \<le> i" "i \<le> length xs" "1 \<le> j" "j \<le> length xs" "i \<noteq> j"
  shows "\<exists>m'. do_swap array i j sz m = Some m' \<and> elems m' array sz (swap1 xs i j) \<and> same_outside m m' array (length xs * sz)"
proof -
  let ?a = "array + (i - 1) * sz" and ?b = "array + (j - 1) * sz"
  have e: "elem_addr array i sz = ?a" "elem_addr array j sz = ?b" using assms(3-6) by (simp_all add: elem_addr_eq [OF assms(2)])
  have "bytes_at m ?a (at xs i)" "bytes_at m ?b (at xs j)" "length (at xs i) = sz" "length (at xs j) = sz"
    using assms by (auto simp: elems_def at_def)
  moreover have "?a + sz \<le> ?b \<or> ?b + sz \<le> ?a" using blocks_apart [of "i - 1" "j - 1" sz] assms(3,5,7) by auto
  ultimately obtain m' where m': "do_swap array i j sz m = Some m'" "bytes_at m' ?a (at xs j)" "bytes_at m' ?b (at xs i)"
    "\<And>c. c \<notin> {?a..<?a + sz} \<Longrightarrow> c \<notin> {?b..<?b + sz} \<Longrightarrow> m' c = m c"
    using swap_bytes [of m ?a "at xs i" ?b "at xs j" sz] unfolding do_swap_def Let_def e by blast
  have "elems m' array sz (swap1 xs i j)" unfolding elems_def
  proof (intro allI impI)
    fix k assume k: "k < length (swap1 xs i j)"
    have s: "swap1 xs i j ! k = (if k = i - 1 then at xs j else if k = j - 1 then at xs i else xs ! k)"
      using at_swap1 [of i xs j "Suc k"] k assms(3-6) by (auto simp: at_def)
    show "length (swap1 xs i j ! k) = sz \<and> bytes_at m' (array + k * sz) (swap1 xs i j ! k)"
    proof (cases "k = i - 1 \<or> k = j - 1")
      case True
      then show ?thesis using s m' assms by (auto simp: elems_def at_def)
    next
      case False
      have "m' (array + k * sz + c) = m (array + k * sz + c)" if "c < sz" for c
        using False that blocks_apart [of k "i - 1" sz] blocks_apart [of k "j - 1" sz] by (intro m'(4)) auto
      then show ?thesis using False s assms(1) k by (auto simp: elems_def bytes_at_def)
    qed
  qed
  moreover have "same_outside m m' array (length xs * sz)" unfolding same_outside_def
  proof (intro allI impI)
    fix c assume c: "c \<notin> {array..<array + length xs * sz}"
    have "(i - 1) * sz + sz \<le> length xs * sz" "(j - 1) * sz + sz \<le> length xs * sz"
      using mult_le_mono1 [of i "length xs" sz] mult_le_mono1 [of j "length xs" sz] assms(3-6)
      by (simp_all add: mult_eq_if)
    then show "m' c = m c" using c by (intro m'(4)) auto
  qed
  ultimately show ?thesis using m'(1) by blast
qed

lemma heapify_ok:
  assumes "elems m array sz xs" "fits (length xs) sz" "1 \<le> i" "i \<le> cnt" "cnt \<le> length xs"
  shows "\<exists>m'. heapify array i cnt sz cmp m = Some m' \<and> elems m' array sz (sift cmp i cnt xs) \<and> same_outside m m' array (length xs * sz)"
  using assms
proof (induction cmp i cnt xs arbitrary: m rule: sift.induct)
  case (1 cmp i cnt xs)
  let ?l = "largest cmp i cnt xs"
  have sz: "sz_mul 2 i = 2 * i" "sz_add (2 * i) 1 = 2 * i + 1"
    using 1(3,5,6) by (simp_all add: fits_def sz_mul_id sz_add_id)
  have p: "pick cmp cnt xs (2 * i) i \<le> cnt" "1 \<le> pick cmp cnt xs (2 * i) i" using 1(4,5) by (auto simp: pick_def)
  have lg: "larger array (2 * i) i cnt sz cmp m = Some (pick cmp cnt xs (2 * i) i)"
    "larger array (2 * i + 1) (pick cmp cnt xs (2 * i) i) cnt sz cmp m = Some ?l"
    using 1(4-6) p larger_ok [OF 1(2,3), of _ _ cnt cmp] by (simp_all add: largest_def)
  show ?case
  proof (cases "?l = i")
    case True
    then show ?thesis using 1(2) sz lg by (subst heapify.simps) (simp add: sift.simps)
  next
    case False
    then have l: "1 \<le> ?l" "?l \<le> cnt" using largest_cases [of cmp i cnt xs] 1(4) by auto
    then obtain m1 where m1: "do_swap array i ?l sz m = Some m1" "elems m1 array sz (swap1 xs i ?l)" "same_outside m m1 array (length xs * sz)"
      using do_swap_ok [of m array sz xs i ?l] 1(2-6) False by auto
    obtain m2 where m2: "heapify array ?l cnt sz cmp m1 = Some m2" "elems m2 array sz (sift cmp ?l cnt (swap1 xs i ?l))"
      "same_outside m1 m2 array (length xs * sz)"
      using 1(1) [of m1] False m1(2) 1(3,4,6) l by auto
    have "heapify array i cnt sz cmp m = Some m2" using False sz lg m1(1) m2(1) by (subst heapify.simps) simp
    moreover have "sift cmp i cnt xs = sift cmp ?l cnt (swap1 xs i ?l)" using False 1(4) by (subst sift.simps) auto
    ultimately show ?thesis using m2 m1(3) same_outside_trans by auto
  qed
qed

subsection \<open>The two loops of the sort\<close>

lemma length_sift [simp]: "length (sift cmp i cnt xs) = length xs"
  by (induction cmp i cnt xs rule: sift.induct) (subst sift.simps, simp)

lemma build_heap_ok:
  assumes "strcmp_type cmp" "fits (length xs) sz"
  shows "elems m array sz xs \<Longrightarrow> heap cmp (Suc i) (length xs) xs \<Longrightarrow> i \<le> length xs \<Longrightarrow>
    \<exists>m' ys. build_heap array i (length xs) sz cmp m = Some m' \<and> elems m' array sz ys \<and> heap cmp 1 (length xs) ys
      \<and> mset ys = mset xs \<and> same_outside m m' array (length xs * sz)"
  using assms(2)
proof (induction i arbitrary: m xs)
  case 0
  then show ?case by auto
next
  case (Suc i)
  let ?ys = "sift cmp (Suc i) (length xs) xs"
  obtain m1 where m1: "heapify array (Suc i) (length xs) sz cmp m = Some m1" "elems m1 array sz ?ys" "same_outside m m1 array (length xs * sz)"
    using heapify_ok [of m array sz xs "Suc i" "length xs" cmp] Suc.prems by auto
  have "heap_but cmp (Suc i) (Suc i) (length xs) xs" using Suc.prems(2) by (auto simp: heap_but_def heap_def)
  then have h: "heap cmp (Suc i) (length xs) ?ys" "mset ?ys = mset xs"
    using sift_heap [OF assms(1), of "Suc i" "Suc i" "length xs" xs] Suc.prems(3) by auto
  then obtain m2 zs where "build_heap array i (length xs) sz cmp m1 = Some m2" "elems m2 array sz zs" "heap cmp 1 (length xs) zs"
      "mset zs = mset ?ys" "same_outside m1 m2 array (length xs * sz)"
    using Suc.IH [of m1 ?ys] m1(2) Suc.prems(3,4) by auto
  then show ?case using m1 h(2) by (auto simp: same_outside_def intro!: exI [of _ m2] exI [of _ zs])
qed

lemma sort_heap_ok:
  assumes "strcmp_type cmp"
  shows "elems m array sz xs \<Longrightarrow> parted cmp i xs \<Longrightarrow> fits (length xs) sz \<Longrightarrow>
    \<exists>m' ys. sort_heap array i sz cmp m = Some m' \<and> elems m' array sz ys \<and> sorted_wrt (\<lambda>x y. cmp x y \<le> 0) ys
      \<and> mset ys = mset xs \<and> same_outside m m' array (length xs * sz)"
proof (induction i arbitrary: m xs)
  case 0
  then show ?case by (auto simp: parted_def)
next
  case (Suc n)
  show ?case
  proof (cases n)
    case 0
    then have "sorted_wrt (\<lambda>x y. cmp x y \<le> 0) (take 1 xs @ drop 1 xs)"
      using Suc.prems(2) unfolding sorted_wrt_append parted_def by (cases xs) auto
    then show ?thesis using 0 Suc.prems(1) by auto
  next
    case (Suc j)
    let ?ys = "swap1 xs 1 (Suc n)" and ?zs = "sift cmp 1 n (swap1 xs 1 (Suc n))"
    have n: "1 \<le> n" "Suc n \<le> length xs" using Suc Suc.prems(2) by (auto simp: parted_def)
    obtain m1 where m1: "do_swap array 1 (Suc n) sz m = Some m1" "elems m1 array sz ?ys" "same_outside m m1 array (length xs * sz)"
      using do_swap_ok [of m array sz xs 1 "Suc n"] Suc.prems(1,3) n by auto
    obtain m2 where m2: "heapify array 1 n sz cmp m1 = Some m2" "elems m2 array sz ?zs" "same_outside m1 m2 array (length xs * sz)"
      using heapify_ok [OF m1(2), of 1 n cmp] Suc.prems(3) n by auto
    have p: "parted cmp n ?zs" "mset ?zs = mset xs" using parted_step [OF assms Suc.prems(2) n(1)] by auto
    obtain m3 us where "sort_heap array n sz cmp m2 = Some m3" "elems m3 array sz us" "sorted_wrt (\<lambda>x y. cmp x y \<le> 0) us"
      "mset us = mset ?zs" "same_outside m2 m3 array (length xs * sz)"
      using Suc.IH [OF m2(2) p(1)] Suc.prems(3) by auto
    then show ?thesis
      using Suc m1 m2 p(2) by (auto simp: same_outside_def intro!: exI [of _ m3] exI [of _ us])
  qed
qed

text \<open>C26: \<open>sort\<close> (and so \<open>qsort\<close>) on an array of \<open>cnt\<close> elements of \<open>size\<close> bytes, with a comparison function of the
  \<open>strcmp\<close> type, returns; the array then holds the same elements with the same multiplicities in ascending order, and no byte outside
  the array has changed. The array and the numbers of its heap nodes must fit in \<open>size_t\<close>.\<close>
theorem sort_array_correct:
  assumes "strcmp_type compare" and "elems m array sz xs" and "fits (length xs) sz" and "0 < sz" and "array \<noteq> 0"
  shows "\<exists>m' ys. sort_array array (length xs) sz compare m = Some m' \<and> qsort array (length xs) sz compare m = Some m' \<and>
    elems m' array sz ys \<and> mset ys = mset xs \<and> sorted_wrt (\<lambda>x y. compare x y \<le> 0) ys \<and>
    (\<forall>a. a \<notin> {array..<array + length xs * sz} \<longrightarrow> m' a = m a)"
proof -
  have "heap compare (Suc (length xs div 2)) (length xs) xs" by (auto simp: heap_def dest: div_le_mono)
  then obtain m1 ys where 1: "build_heap array (length xs div 2) (length xs) sz compare m = Some m1" "elems m1 array sz ys"
      "heap compare 1 (length xs) ys" "mset ys = mset xs" "same_outside m m1 array (length xs * sz)"
    using build_heap_ok [OF assms(1,3,2), of "length xs div 2"] by auto
  have len: "length ys = length xs" using 1(4) by (metis mset_eq_length)
  then have "parted compare (length xs) ys" using 1(3) by (simp add: parted_def)
  then obtain m2 zs where 2: "sort_heap array (length xs) sz compare m1 = Some m2" "elems m2 array sz zs"
      "sorted_wrt (\<lambda>x y. compare x y \<le> 0) zs" "mset zs = mset ys" "same_outside m1 m2 array (length xs * sz)"
    using sort_heap_ok [OF assms(1) 1(2), of "length xs"] assms(3) len by auto
  have "sort_array array (length xs) sz compare m = Some m2" using 1(1) 2(1) assms(4,5) by (simp add: sort_array_def)
  then show ?thesis using 1 2 by (auto simp: qsort_def same_outside_def)
qed


definition byte_compare :: compare_fn where
  "byte_compare x y = int (unat (hd x)) - int (unat (hd y))"

theorem sort_array_correct_witness:
  "\<exists>m' ys. sort_array 100 3 2 byte_compare (mem100 [3, 0, 1, 7, 2, 9]) = Some m' \<and> elems m' 100 2 ys \<and>
     mset ys = {#[3, 0], [1, 7], [2, 9]#} \<and> sorted_wrt (\<lambda>x y. byte_compare x y \<le> 0) ys"
proof -
  have "strcmp_type byte_compare" by (auto simp: strcmp_type_def byte_compare_def)
  moreover have "elems (mem100 [3, 0, 1, 7, 2, 9]) 100 2 [[3, 0], [1, 7], [2, 9]]"
    by (simp add: elems_def mem100_def All_less_Suc)
  moreover have "fits 3 2" by (simp add: fits_def)
  ultimately show ?thesis
    using sort_array_correct [of byte_compare "mem100 [3, 0, 1, 7, 2, 9]" 100 2 "[[3, 0], [1, 7], [2, 9]]"]
    by (simp add: numeral_3_eq_3) blast
qed

subsection \<open>Binary search\<close>

lemma search_loop_ok:
  fixes array sz :: nat
  assumes "elems m array sz xs" and "0 < sz"
    and "sorted_wrt (\<lambda>x y. (f x < 0 \<longrightarrow> f y < 0) \<and> (0 < f y \<longrightarrow> 0 < f x)) xs"
  shows "lo \<le> hi \<Longrightarrow> hi \<le> length xs \<Longrightarrow> \<forall>k < lo. 0 < f (xs ! k) \<Longrightarrow> \<forall>k. hi \<le> k \<longrightarrow> k < length xs \<longrightarrow> f (xs ! k) < 0 \<Longrightarrow>
    (\<exists>k < length xs. f (xs ! k) = 0 \<and> search_loop (array + lo * sz) (array + hi * sz) sz f m = Some (Some (array + k * sz))) \<or>
    (\<forall>k < length xs. f (xs ! k) \<noteq> 0) \<and> search_loop (array + lo * sz) (array + hi * sz) sz f m = Some None"
proof (induction "hi - lo" arbitrary: lo hi rule: less_induct)
  case less
  show ?case
  proof (cases "lo < hi")
    case False
    then have "search_loop (array + lo * sz) (array + hi * sz) sz f m = Some None"
      using less.prems(1) by (subst search_loop.simps) simp
    moreover have "f (xs ! k) \<noteq> 0" if "k < length xs" for k
      using less.prems(3,4) False that by (metis less_irrefl linorder_not_less order_less_le_trans)
    ultimately show ?thesis by blast
  next
    case True
    let ?mid = "lo + (hi - lo) div 2"
    have mid: "lo \<le> ?mid" "?mid < hi" using True by auto
    have e: "array + lo * sz + (array + hi * sz - (array + lo * sz)) div sz div 2 * sz = array + ?mid * sz"
      using assms(2) by (simp add: diff_mult_distrib [symmetric] add_mult_distrib)
    have ld: "load m (array + ?mid * sz) sz = Some (xs ! ?mid)"
      using assms(1) mid(2) less.prems(2) load_bytes_at [of m "array + ?mid * sz" "xs ! ?mid"] by (simp add: elems_def)
    have sm: "array + Suc ?mid * sz = array + ?mid * sz + sz" by simp
    have lt: "array + lo * sz < array + hi * sz" using True assms(2) by simp
    have "search_loop (array + lo * sz) (array + hi * sz) sz f m =
      (if f (xs ! ?mid) < 0 then search_loop (array + lo * sz) (array + ?mid * sz) sz f m
       else if 0 < f (xs ! ?mid) then search_loop (array + Suc ?mid * sz) (array + hi * sz) sz f m
       else Some (Some (array + ?mid * sz)))"
      unfolding sm by (subst search_loop.simps, unfold Let_def e) (use lt assms(2) ld in simp)
    note st = this
    have srt: "(f (xs ! i) < 0 \<longrightarrow> f (xs ! j) < 0) \<and> (0 < f (xs ! j) \<longrightarrow> 0 < f (xs ! i))" if "i < j" "j < length xs" for i j
      using assms(3) that sorted_wrt_nth_less by blast
    consider "f (xs ! ?mid) < 0" | "0 < f (xs ! ?mid)" | "f (xs ! ?mid) = 0" by linarith
    then show ?thesis
    proof cases
      case 1
      then have "\<forall>k. ?mid \<le> k \<longrightarrow> k < length xs \<longrightarrow> f (xs ! k) < 0" using srt [of ?mid] by (metis le_neq_implies_less)
      then show ?thesis using less.hyps [of ?mid lo] mid less.prems 1 st by auto
    next
      case 2
      then have "\<forall>k < Suc ?mid. 0 < f (xs ! k)" using srt [of _ ?mid] mid less.prems(2) by (metis less_Suc_eq order_less_le_trans)
      then show ?thesis using less.hyps [of hi "Suc ?mid"] mid less.prems 2 st by auto
    next
      case 3
      then have "f (xs ! ?mid) = 0 \<and> search_loop (array + lo * sz) (array + hi * sz) sz f m = Some (Some (array + ?mid * sz))"
        using st by simp
      moreover have "?mid < length xs" using mid less.prems(2) by linarith
      ultimately show ?thesis by blast
    qed
  qed
qed



end
