(* ===== verification/Fixed_Point.thy ===== *)
theory Fixed_Point
  imports Prelude "HOL-Library.Signed_Division"
begin

text \<open>
  The fixed-point numbers of \<open>threads/fixed-point.h\<close>: an \<open>int\<close> that counts units of 1/65536. A failed \<open>ASSERT\<close>, a
  division by zero and a signed overflow have no result; the conversion of a \<open>long long\<close> to an \<open>int\<close> keeps the low
  32 bits.
\<close>

record fixed_point_t =
  fx :: int

definition FIX_P :: nat where
  "FIX_P = 16"

definition FIX_Q :: nat where
  "FIX_Q = 16"

definition FIX_F :: int where
  "FIX_F = 2 ^ FIX_Q"

definition FIX_MAX_INT :: int where
  "FIX_MAX_INT = 2 ^ FIX_P - 1"

definition FIX_MIN_INT :: int where
  "FIX_MIN_INT = - FIX_MAX_INT"

definition mk_fix :: "int \<Rightarrow> fixed_point_t" where
  "mk_fix v = \<lparr>fx = v\<rparr>"

text \<open>Signed 32-bit arithmetic, and the conversion from 64 bits.\<close>

definition int_res :: "int \<Rightarrow> int option" where
  "int_res v = (if int_ok v then Some v else None)"

definition int_of_ll :: "int \<Rightarrow> int" where
  "int_of_ll v = signed_take_bit 31 v"

definition fix_int :: "int \<Rightarrow> fixed_point_t option" where
  "fix_int n = do {
     guard (FIX_MIN_INT \<le> n \<and> n \<le> FIX_MAX_INT);
     v \<leftarrow> int_res (n * FIX_F);
     Some (mk_fix v) }"

definition fix_frac :: "int \<Rightarrow> int \<Rightarrow> fixed_point_t option" where
  "fix_frac n d = do {
     guard (d \<noteq> 0);
     q \<leftarrow> int_res (n sdiv d);
     guard (FIX_MIN_INT \<le> q \<and> q \<le> FIX_MAX_INT);
     Some (mk_fix (int_of_ll (n * FIX_F sdiv d))) }"

definition fix_round :: "fixed_point_t \<Rightarrow> int option" where
  "fix_round x = do {
     v \<leftarrow> int_res (fx x + FIX_F sdiv 2);
     Some (v sdiv FIX_F) }"

definition fix_trunc :: "fixed_point_t \<Rightarrow> int" where
  "fix_trunc x = fx x sdiv FIX_F"

definition fix_add :: "fixed_point_t \<Rightarrow> fixed_point_t \<Rightarrow> fixed_point_t option" where
  "fix_add x y = do { v \<leftarrow> int_res (fx x + fx y); Some (mk_fix v) }"

definition fix_sub :: "fixed_point_t \<Rightarrow> fixed_point_t \<Rightarrow> fixed_point_t option" where
  "fix_sub x y = do { v \<leftarrow> int_res (fx x - fx y); Some (mk_fix v) }"

definition fix_mul :: "fixed_point_t \<Rightarrow> fixed_point_t \<Rightarrow> fixed_point_t" where
  "fix_mul x y = mk_fix (int_of_ll (fx x * fx y sdiv FIX_F))"

definition fix_scale :: "fixed_point_t \<Rightarrow> int \<Rightarrow> fixed_point_t option" where
  "fix_scale x n = do {
     guard (0 \<le> n);
     v \<leftarrow> int_res (fx x * n);
     Some (mk_fix v) }"

definition fix_div :: "fixed_point_t \<Rightarrow> fixed_point_t \<Rightarrow> fixed_point_t option" where
  "fix_div x y = do {
     guard (fx y \<noteq> 0);
     Some (mk_fix (int_of_ll (fx x * FIX_F sdiv fx y))) }"

definition fix_unscale :: "fixed_point_t \<Rightarrow> int \<Rightarrow> fixed_point_t option" where
  "fix_unscale x n = do {
     guard (0 < n);
     Some (mk_fix (fx x sdiv n)) }"

definition fix_inv :: "fixed_point_t \<Rightarrow> fixed_point_t option" where
  "fix_inv x = do { one \<leftarrow> fix_int 1; fix_div one x }"

definition fix_compare :: "fixed_point_t \<Rightarrow> fixed_point_t \<Rightarrow> int" where
  "fix_compare x y = (if fx x < fx y then - 1 else if fx y < fx x then 1 else 0)"

lemmas fix_consts = FIX_F_def FIX_Q_def FIX_P_def FIX_MAX_INT_def FIX_MIN_INT_def

lemma int_of_ll_id: "int_ok v \<Longrightarrow> int_of_ll v = v"
  by (simp add: int_of_ll_def int_ok_def signed_take_bit_int_eq_self)

lemma fix_int_eq: "fix_int n = (if - 32768 \<le> n \<and> n \<le> 32767 then Some \<lparr>fx = n * 65536\<rparr> else None)"
  by (auto simp: fix_int_def fix_consts int_res_def int_ok_def mk_fix_def)

lemma sdiv_sdiv: "(a::int) sdiv b sdiv c = a sdiv (b * c)"
proof (cases "\<bar>a\<bar> div \<bar>b\<bar> = 0")
  case True
  then show ?thesis by (simp add: signed_divide_int_def abs_mult zdiv_zmult2_eq)
next
  case False
  moreover have "0 \<le> \<bar>a\<bar> div \<bar>b\<bar>" by (simp add: div_int_pos_iff)
  ultimately have "0 < \<bar>a\<bar> div \<bar>b\<bar>" by linarith
  moreover have "a \<noteq> 0" "b \<noteq> 0" using False by auto
  ultimately have e: "\<bar>sgn a * sgn b * (\<bar>a\<bar> div \<bar>b\<bar>)\<bar> = \<bar>a\<bar> div \<bar>b\<bar>" "sgn (sgn a * sgn b * (\<bar>a\<bar> div \<bar>b\<bar>)) = sgn a * sgn b"
    by (simp_all add: abs_mult sgn_mult)
  have "a sdiv b sdiv c = sgn a * sgn b * sgn c * (\<bar>a\<bar> div \<bar>b\<bar> div \<bar>c\<bar>)"
    unfolding signed_divide_int_def e ..
  also have "\<dots> = a sdiv (b * c)"
    by (simp add: signed_divide_int_def abs_mult sgn_mult zdiv_zmult2_eq mult.assoc)
  finally show ?thesis .
qed

lemma sdiv_cancel: "c \<noteq> 0 \<Longrightarrow> (a * c) sdiv (b * c) = (a::int) sdiv b"
  by (simp add: signed_divide_int_def abs_mult sgn_mult)

lemma sdiv_exact: "c \<noteq> 0 \<Longrightarrow> (a * c) sdiv c = (a::int)"
  using sdiv_cancel [of c a 1] by (simp add: signed_divide_int_def sgn_mult_abs)

lemma quotient_ok:
  assumes "- 32768 \<le> a" "a \<le> 32767" "b \<noteq> 0" "a * b \<le> 32767"
  shows "int_ok (a * 65536 sdiv b)"
proof -
  consider "b = 1" | "b = - 1" | "2 \<le> \<bar>b\<bar>" using assms(3) by linarith
  then show ?thesis
  proof cases
    case 3
    have "\<bar>a * 65536\<bar> div \<bar>b\<bar> \<le> \<bar>a * 65536\<bar> div 2" using 3 by (intro zdiv_mono2) auto
    also have "\<dots> \<le> 2 ^ 31 div 2" using assms(1,2) by (intro zdiv_mono1) auto
    finally have q: "\<bar>a * 65536\<bar> div \<bar>b\<bar> \<le> 2 ^ 30" by simp
    moreover have "0 \<le> \<bar>a * 65536\<bar> div \<bar>b\<bar>" by (simp add: div_int_pos_iff)
    moreover have "\<bar>a * 65536 sdiv b\<bar> \<le> \<bar>a * 65536\<bar> div \<bar>b\<bar>"
      using calculation(2) by (simp add: signed_divide_int_def abs_mult sgn_if)
    ultimately show ?thesis by (simp add: int_ok_def abs_le_iff)
  qed (use assms in \<open>simp_all add: int_ok_def signed_divide_int_def sgn_if abs_if\<close>)
qed






end
