(* ===== verification/Intq.thy ===== *)
theory Intq
  imports Bytes
begin

text \<open>
  The interrupt queue of \<open>devices/intq.c\<close>: a ring of 64 bytes between an interrupt handler and kernel
  threads. All operations run with interrupts off. \<open>intq_getc\<close> and \<open>intq_putc\<close> are given as one attempt: either
  the operation is done, and names the thread it wakes, or the thread goes to sleep (for the
  queue's lock, or as the registered waiter) and attempts the operation again when it resumes.
\<close>

definition INTQ_BUFSIZE :: nat where
  "INTQ_BUFSIZE = 64"

record intq =
  lock :: "nat option"
  not_full :: "nat option"
  not_empty :: "nat option"
  buf :: bytes
  head :: nat
  tail :: nat

text \<open>The contents of the buffer are left as they are.\<close>

definition intq_init :: "intq \<Rightarrow> intq" where
  "intq_init q = q\<lparr>lock := None, not_full := None, not_empty := None, head := 0, tail := 0\<rparr>"

definition intq_next :: "nat \<Rightarrow> nat" where
  "intq_next pos = (pos + 1) mod INTQ_BUFSIZE"

definition intq_empty :: "intq \<Rightarrow> bool" where
  "intq_empty q \<longleftrightarrow> head q = tail q"

definition intq_full :: "intq \<Rightarrow> bool" where
  "intq_full q \<longleftrightarrow> intq_next (head q) = tail q"

text \<open>\<open>Sleep\<close>: blocked as a waiter, holding the lock; \<open>Lock_wait\<close>: blocked in \<open>lock_acquire\<close>.\<close>

datatype 'a attempt = Done 'a intq "nat option" | Sleep intq | Lock_wait

text \<open>\<open>wait\<close> asserts that the condition does hold and that no interrupt is being handled.\<close>

definition wait_empty :: "bool \<Rightarrow> nat \<Rightarrow> intq \<Rightarrow> intq option" where
  "wait_empty intr_context cur q = do {
     guard (\<not> intr_context);
     guard (intq_empty q);
     Some (q\<lparr>not_empty := Some cur\<rparr>) }"

definition wait_full :: "bool \<Rightarrow> nat \<Rightarrow> intq \<Rightarrow> intq option" where
  "wait_full intr_context cur q = do {
     guard (\<not> intr_context);
     guard (intq_full q);
     Some (q\<lparr>not_full := Some cur\<rparr>) }"

text \<open>\<open>signal\<close> returns the thread to unblock.\<close>

definition signal_not_empty :: "intq \<Rightarrow> (nat option \<times> intq) option" where
  "signal_not_empty q = do {
     guard (\<not> intq_empty q);
     Some (not_empty q, q\<lparr>not_empty := None\<rparr>) }"

definition signal_not_full :: "intq \<Rightarrow> (nat option \<times> intq) option" where
  "signal_not_full q = do {
     guard (\<not> intq_full q);
     Some (not_full q, q\<lparr>not_full := None\<rparr>) }"

definition intq_getc :: "bool \<Rightarrow> nat \<Rightarrow> intq \<Rightarrow> u8 attempt option" where
  "intq_getc intr_context cur q =
     (if intq_empty q then do {
        guard (\<not> intr_context);
        guard (lock q \<noteq> Some cur);
        if lock q \<noteq> None then Some Lock_wait
        else do {
          q \<leftarrow> wait_empty intr_context cur (q\<lparr>lock := Some cur\<rparr>);
          Some (Sleep q) } }
      else do {
        byte \<leftarrow> array_get (buf q) (tail q);
        let q = q\<lparr>tail := intq_next (tail q)\<rparr>;
        (w, q) \<leftarrow> signal_not_full q;
        Some (Done byte q w) })"

definition intq_putc :: "bool \<Rightarrow> nat \<Rightarrow> u8 \<Rightarrow> intq \<Rightarrow> unit attempt option" where
  "intq_putc intr_context cur byte q =
     (if intq_full q then do {
        guard (\<not> intr_context);
        guard (lock q \<noteq> Some cur);
        if lock q \<noteq> None then Some Lock_wait
        else do {
          q \<leftarrow> wait_full intr_context cur (q\<lparr>lock := Some cur\<rparr>);
          Some (Sleep q) } }
      else do {
        b \<leftarrow> array_set (buf q) (head q) byte;
        let q = q\<lparr>buf := b, head := intq_next (head q)\<rparr>;
        (w, q) \<leftarrow> signal_not_empty q;
        Some (Done () q w) })"

text \<open>What a sleeper does when it is resumed, before the next attempt: \<open>lock_release\<close>.\<close>

definition intq_resume :: "nat \<Rightarrow> intq \<Rightarrow> intq option" where
  "intq_resume cur q = do {
     guard (lock q = Some cur);
     Some (q\<lparr>lock := None\<rparr>) }"

subsection \<open>The queue as a sequence\<close>

definition intq_holds :: "intq \<Rightarrow> bytes \<Rightarrow> bool" where
  "intq_holds q xs \<longleftrightarrow> length (buf q) = INTQ_BUFSIZE \<and> tail q < INTQ_BUFSIZE \<and> length xs < INTQ_BUFSIZE \<and>
     head q = (tail q + length xs) mod INTQ_BUFSIZE \<and>
     (\<forall>i < length xs. buf q ! ((tail q + i) mod INTQ_BUFSIZE) = xs ! i)"

definition intq_room :: "intq \<Rightarrow> bytes \<Rightarrow> bytes \<Rightarrow> bool" where
  "intq_room q xs bs \<longleftrightarrow> length xs + length bs < INTQ_BUFSIZE"

text \<open>The two operations as an interrupt handler calls them: they may not sleep.\<close>

definition intq_handler_put :: "u8 \<Rightarrow> intq \<Rightarrow> intq option" where
  "intq_handler_put b q = (case intq_putc True 0 b q of Some (Done _ q' _) \<Rightarrow> Some q' | _ \<Rightarrow> None)"

definition intq_handler_get :: "intq \<Rightarrow> (u8 \<times> intq) option" where
  "intq_handler_get q = (case intq_getc True 0 q of Some (Done b q' _) \<Rightarrow> Some (b, q') | _ \<Rightarrow> None)"

lemma ring_mod: "(t::nat) < n \<Longrightarrow> i \<le> n \<Longrightarrow> (t + i) mod n = (if t + i < n then t + i else t + i - n)"
  by (auto simp: mod_if)

lemma ring_inj: "(t::nat) < n \<Longrightarrow> i < n \<Longrightarrow> j < n \<Longrightarrow> (t + i) mod n = (t + j) mod n \<longleftrightarrow> i = j"
  by (auto simp: ring_mod split: if_splits)

lemma intq_next_ring: "intq_next ((t + i) mod INTQ_BUFSIZE) = (t + Suc i) mod INTQ_BUFSIZE"
  by (simp add: intq_next_def mod_simps)

lemma intq_empty_holds: "intq_holds q xs \<Longrightarrow> intq_empty q \<longleftrightarrow> xs = []"
  using ring_inj [of "tail q" INTQ_BUFSIZE "length xs" 0] by (auto simp: intq_holds_def intq_empty_def)

lemma intq_full_holds: "intq_holds q xs \<Longrightarrow> intq_full q \<longleftrightarrow> length xs + 1 = INTQ_BUFSIZE"
proof -
  assume "intq_holds q xs"
  then have h: "head q = (tail q + length xs) mod INTQ_BUFSIZE" "tail q < INTQ_BUFSIZE" "Suc (length xs) \<le> INTQ_BUFSIZE"
    by (simp_all add: intq_holds_def)
  have "intq_full q \<longleftrightarrow> (tail q + Suc (length xs)) mod INTQ_BUFSIZE = tail q" by (simp only: intq_full_def h(1) intq_next_ring)
  then show ?thesis unfolding ring_mod [OF h(2,3)] using h(2,3) by auto
qed

lemma intq_putc_ok:
  assumes "intq_holds q xs" "length xs + 1 < INTQ_BUFSIZE"
  shows "\<exists>q'. intq_putc ctx cur b q = Some (Done () q' (not_empty q)) \<and> intq_holds q' (xs @ [b]) \<and> not_empty q' = None"
proof -
  let ?q = "q\<lparr>buf := (buf q)[head q := b], head := intq_next (head q)\<rparr>"
  have h: "head q = (tail q + length xs) mod INTQ_BUFSIZE" "length (buf q) = INTQ_BUFSIZE" "tail q < INTQ_BUFSIZE"
    using assms(1) by (simp_all add: intq_holds_def)
  have hb: "head q < length (buf q)" unfolding h(1,2) by (simp add: INTQ_BUFSIZE_def)
  have "intq_holds ?q (xs @ [b])" unfolding intq_holds_def
  proof (intro conjI allI impI)
    fix i assume i: "i < length (xs @ [b])"
    show "buf ?q ! ((tail ?q + i) mod INTQ_BUFSIZE) = (xs @ [b]) ! i"
    proof (cases "i = length xs")
      case True
      then show ?thesis using hb h(1) by simp
    next
      case False
      then have "(tail q + i) mod INTQ_BUFSIZE \<noteq> head q" using ring_inj [of "tail q" INTQ_BUFSIZE i "length xs"] i assms(2) h(1,3) by auto
      then show ?thesis using False i assms(1) by (auto simp: intq_holds_def nth_append)
    qed
  qed (use assms h in \<open>auto simp: intq_next_ring\<close>)
  then have q: "intq_holds ?q (xs @ [b])" .
  then have "intq_holds (?q\<lparr>not_empty := None\<rparr>) (xs @ [b])" by (simp add: intq_holds_def)
  moreover have "intq_putc ctx cur b q = Some (Done () (?q\<lparr>not_empty := None\<rparr>) (not_empty q))"
    using intq_full_holds [OF assms(1)] assms(2) hb intq_empty_holds [OF q] by (simp add: intq_putc_def signal_not_empty_def Let_def)
  ultimately show ?thesis by auto
qed

lemma intq_getc_ok:
  assumes "intq_holds q (b # xs)"
  shows "\<exists>q'. intq_getc ctx cur q = Some (Done b q' (not_full q)) \<and> intq_holds q' xs \<and> not_full q' = None"
proof -
  let ?q = "q\<lparr>tail := intq_next (tail q)\<rparr>"
  have h: "head q = (tail q + Suc (length xs)) mod INTQ_BUFSIZE" "length (buf q) = INTQ_BUFSIZE" "tail q < INTQ_BUFSIZE" "Suc (length xs) < INTQ_BUFSIZE"
    "\<And>i. i < Suc (length xs) \<Longrightarrow> buf q ! ((tail q + i) mod INTQ_BUFSIZE) = (b # xs) ! i"
    using assms by (simp_all add: intq_holds_def)
  have sh: "(intq_next (tail q) + i) mod INTQ_BUFSIZE = (tail q + Suc i) mod INTQ_BUFSIZE" for i
    by (simp add: intq_next_def mod_simps)
  have q: "intq_holds ?q xs" unfolding intq_holds_def
    using h sh h(5) [of "Suc _"] by (auto simp: intq_next_def INTQ_BUFSIZE_def)
  then have "intq_holds (?q\<lparr>not_full := None\<rparr>) xs" by (simp add: intq_holds_def)
  moreover have "buf q ! tail q = b" using h(5) [of 0] h(3) by simp
  then have "intq_getc ctx cur q = Some (Done b (?q\<lparr>not_full := None\<rparr>) (not_full q))"
    using intq_empty_holds [OF assms] intq_full_holds [OF q] h by (simp add: intq_getc_def signal_not_full_def Let_def)
  ultimately show ?thesis by auto
qed

interpretation iq: fifo intq_holds intq_room intq_handler_put intq_handler_get
proof
  show "\<exists>s'. intq_handler_put a s = Some s' \<and> intq_holds s' (xs @ [a]) \<and> intq_room s' (xs @ [a]) as"
    if "intq_holds s xs" "intq_room s xs (a # as)" for s xs a as
    using intq_putc_ok [OF that(1), of True 0 a] that(2) by (auto simp: intq_handler_put_def intq_room_def)
  show "\<exists>s'. intq_handler_get s = Some (a, s') \<and> intq_holds s' xs" if "intq_holds s (a # xs)" for s a xs
    using intq_getc_ok [OF that, of True 0] by (auto simp: intq_handler_get_def)
qed



end
