(* ===== verification/Rc4_Random.thy ===== *)
theory Rc4_Random
  imports Bytes "HOL-Library.Multiset"
begin

text \<open>
  The pseudo-random numbers of \<open>lib/random.c\<close>: the RC4 generator. The state is the three static variables and
  the initialisation flag; bytes are words of 8 bits, so the indexes wrap around by themselves.
\<close>

record rc4 =
  rc4_s :: bytes
  s_i :: u8
  s_j :: u8
  inited :: bool

definition swap_byte :: "bytes \<Rightarrow> nat \<Rightarrow> nat \<Rightarrow> bytes option" where
  "swap_byte s a b = do {
     t \<leftarrow> array_get s a;
     v \<leftarrow> array_get s b;
     s \<leftarrow> array_set s a v;
     array_set s b t }"

definition random_init :: "u32 \<Rightarrow> rc4 \<Rightarrow> rc4 option" where
  "random_init seed st = do {
     let seedp = to_le32 seed;
     s \<leftarrow> for_upto 0 256 (\<lambda>i s. array_set s i (of_nat i)) (rc4_s st);
     (s, j) \<leftarrow> for_upto 0 256 (\<lambda>i (s, j). do {
       si \<leftarrow> array_get s i;
       sp \<leftarrow> array_get seedp (i mod 4);
       let j = j + (si + sp);
       s \<leftarrow> swap_byte s i (unat j);
       Some (s, j) }) (s, 0 :: u8);
     Some (st\<lparr>rc4_s := s, s_i := 0, s_j := 0, inited := True\<rparr>) }"

definition random_byte :: "rc4 \<Rightarrow> (u8 \<times> rc4) option" where
  "random_byte st = do {
     let i = s_i st + 1;
     si \<leftarrow> array_get (rc4_s st) (unat i);
     let j = s_j st + si;
     s \<leftarrow> swap_byte (rc4_s st) (unat i) (unat j);
     x \<leftarrow> array_get s (unat i);
     y \<leftarrow> array_get s (unat j);
     b \<leftarrow> array_get s (unat (x + y));
     Some (b, st\<lparr>rc4_s := s, s_i := i, s_j := j\<rparr>) }"

definition random_bytes :: "nat \<Rightarrow> rc4 \<Rightarrow> (bytes \<times> rc4) option" where
  "random_bytes sz st = do {
     st \<leftarrow> (if inited st then Some st else random_init 0 st);
     for_upto 0 sz (\<lambda>_ (bs, st). do {
       (b, st) \<leftarrow> random_byte st;
       Some (bs @ [b], st) }) ([], st) }"

definition random_ulong :: "rc4 \<Rightarrow> (u32 \<times> rc4) option" where
  "random_ulong st = do {
     (bs, st) \<leftarrow> random_bytes 4 st;
     w \<leftarrow> get_le32 bs 0;
     Some (w, st) }"

subsection \<open>The table stays a permutation\<close>

abbreviation all_bytes :: "u8 multiset" where
  "all_bytes \<equiv> mset (map of_nat [0..<256])"

lemma unat_256 [simp]: "unat (j :: u8) < 256"
  using unat_less_len [of j] by simp

lemma swap_byte_ok:
  assumes "a < length s" "b < length s"
  shows "\<exists>s'. swap_byte s a b = Some s' \<and> mset s' = mset s \<and> length s' = length s"
  using assms mset_swap [of b s a] by (simp add: swap_byte_def)

definition rc4_ok :: "rc4 \<Rightarrow> bool" where
  "rc4_ok st \<longleftrightarrow> length (rc4_s st) = 256 \<and> (inited st \<longrightarrow> mset (rc4_s st) = all_bytes)"

lemma random_init_ok:
  assumes "length (rc4_s st) = 256"
  shows "\<exists>st'. random_init seed st = Some st' \<and> rc4_ok st' \<and> inited st'"
proof -
  have "\<exists>s. for_upto 0 256 (\<lambda>i s. array_set s i (of_nat i)) (rc4_s st) = Some s \<and>
      (length s = 256 \<and> take 256 s = map of_nat [0..<256])"
    by (rule for_upto_rule [where P = "\<lambda>i s. length s = 256 \<and> take i s = map of_nat [0..<i]"])
      (use assms in \<open>auto simp: take_Suc_conv_app_nth\<close>)
  then obtain s where s: "for_upto 0 256 (\<lambda>i s. array_set s i (of_nat i)) (rc4_s st) = Some s"
    "length s = 256" "s = map of_nat [0..<256]" by auto
  let ?body = "\<lambda>i (s, j). do {
       si \<leftarrow> array_get s i;
       sp \<leftarrow> array_get (to_le32 seed) (i mod 4);
       let j = j + (si + sp);
       s \<leftarrow> swap_byte s i (unat j);
       Some (s, j) }"
  have "\<exists>p. for_upto 0 256 ?body (s, 0 :: u8) = Some p \<and> (length (fst p) = 256 \<and> mset (fst p) = all_bytes)"
  proof (rule for_upto_rule [where P = "\<lambda>_ p. length (fst p) = 256 \<and> mset (fst p) = all_bytes"])
    fix i :: nat and p :: "bytes \<times> u8" assume i: "i < 256" "length (fst p) = 256 \<and> mset (fst p) = all_bytes"
    obtain t j where p: "p = (t, j)" by force
    then show "\<exists>p'. ?body i p = Some p' \<and> length (fst p') = 256 \<and> mset (fst p') = all_bytes"
      using i swap_byte_ok [of i t "unat (j + (t ! i + to_le32 seed ! (i mod 4)))"] by (auto simp: Let_def)
  qed (use s in auto)
  then show ?thesis using s by (auto simp: random_init_def rc4_ok_def Let_def)
qed

lemma random_byte_ok:
  assumes "rc4_ok st" "inited st"
  shows "\<exists>b st'. random_byte st = Some (b, st') \<and> rc4_ok st' \<and> inited st'"
  using assms swap_byte_ok [of "unat (s_i st + 1)" "rc4_s st" "unat (s_j st + rc4_s st ! unat (s_i st + 1))"]
  by (auto simp: random_byte_def rc4_ok_def Let_def)

lemma random_bytes_ok:
  assumes "rc4_ok st"
  shows "\<exists>bs st'. random_bytes n st = Some (bs, st') \<and> length bs = n \<and> rc4_ok st' \<and> inited st'"
proof -
  let ?body = "\<lambda>_ (bs, st). do { (b, st) \<leftarrow> random_byte st; Some (bs @ [b], st) }"
  obtain st1 where st1: "(if inited st then Some st else random_init 0 st) = Some st1" "rc4_ok st1" "inited st1"
    using random_init_ok [of st 0] assms by (cases "inited st") (auto simp: rc4_ok_def)
  have "\<exists>p. for_upto 0 n ?body ([], st1) = Some p \<and> (length (fst p) = n \<and> rc4_ok (snd p) \<and> inited (snd p))"
    by (rule for_upto_rule [where P = "\<lambda>i p. length (fst p) = i \<and> rc4_ok (snd p) \<and> inited (snd p)"])
      (use st1 random_byte_ok in force)+
  then show ?thesis using st1(1) by (auto simp: random_bytes_def)
qed

text \<open>C33: The random generator never reads or writes outside its table and keeps it a permutation of the 256
  byte values: from a state with that property, or from one not yet initialised, \<open>random_bytes\<close> returns exactly the
  number of bytes asked for, \<open>random_ulong\<close> returns a number, and \<open>random_init\<close> re-establishes the property
  for every seed.\<close>
theorem random_permutation:
  assumes "length (rc4_s st) = 256" and "inited st \<longrightarrow> mset (rc4_s st) = mset (map of_nat [0..<256])"
  shows "(\<exists>bs st'. random_bytes n st = Some (bs, st') \<and> length bs = n \<and> length (rc4_s st') = 256 \<and>
      mset (rc4_s st') = mset (map of_nat [0..<256])) \<and>
    (\<exists>w st'. random_ulong st = Some (w, st') \<and> mset (rc4_s st') = mset (map of_nat [0..<256])) \<and>
    (\<exists>st'. random_init seed st = Some st' \<and> inited st' \<and> mset (rc4_s st') = mset (map of_nat [0..<256]))"
proof -
  have ok: "rc4_ok st" using assms by (simp add: rc4_ok_def)
  obtain bs st' where "random_bytes 4 st = Some (bs, st')" "length bs = 4" "rc4_ok st'" "inited st'"
    using random_bytes_ok [OF ok] by blast
  then show ?thesis using random_bytes_ok [OF ok, of n] random_init_ok [OF assms(1), of seed]
    by (auto simp: random_ulong_def get_le32_def rc4_ok_def)
qed

theorem random_permutation_witness:
  "\<exists>bs st'. random_bytes 3 \<lparr>rc4_s = replicate 256 0, s_i = 0, s_j = 0, inited = False\<rparr> = Some (bs, st') \<and> length bs = 3"
  using random_permutation [of "\<lparr>rc4_s = replicate 256 0, s_i = 0, s_j = 0, inited = False\<rparr>" 3 0] by simp blast

end
