(* ===== verification/Kthread.thy ===== *)
theory Kthread
  imports Cstring
begin

text \<open>
  Threads and the scheduler: \<open>threads/thread.c\<close>, with the interrupt level of \<open>threads/interrupt.c\<close>. The state is the
  kernel's: thread structures by the address of their page, the ready list, the list of all threads, the semaphores, locks
  and condition variables (operated on in \<open>Synch\<close>), and the processor's interrupt flag. Lists of threads are
  sequences of addresses, which is what \<open>list.c\<close> implements (theory \<open>Klist\<close>).

  A function that switches to another thread ends, for the caller, only when the caller is scheduled again; its model ends
  with the switch: \<open>cur\<close> is the thread that runs next, and the interrupt level is the one that thread restores. The level a thread
  keeps in its local variable \<open>old_level\<close> while it does not run is part of its structure here.
\<close>

subsection \<open>Data\<close>

datatype thread_status = THREAD_RUNNING | THREAD_READY | THREAD_BLOCKED | THREAD_DYING

definition PRI_MIN :: int where "PRI_MIN = 0"
definition PRI_DEFAULT :: int where "PRI_DEFAULT = 31"
definition PRI_MAX :: int where "PRI_MAX = 63"
definition THREAD_MAGIC :: u32 where "THREAD_MAGIC = 0xcd6abf4b"
definition TIME_SLICE :: nat where "TIME_SLICE = 4"
definition PGSIZE :: nat where "PGSIZE = 4096"
definition TID_ERROR :: int where "TID_ERROR = - 1"

text \<open>Semaphores and locks are named by the object they are part of: a thread's \<open>setup\<close>, a share's \<open>sig\<close>,
  \<open>successload\<close> and \<open>lock\<close>, the waiter on the stack of a thread in \<open>cond_wait\<close>, or an object of a client.\<close>

datatype lock_id = Lock nat | Tid_lock | Share_lock nat

datatype sema_id = Sema nat | Lock_sema lock_id | Waiter nat | Setup nat | Sig nat | Successload nat

record thread =
  tid :: int
  status :: thread_status
  tname :: bytes
  stack :: nat
  priority :: int
  child_share :: "nat list"
  parent_share :: "nat option"
  rvalue :: int
  pagedir :: "nat option"
  fds :: "nat list"
  closed_files :: "nat list"
  exe :: "nat option"
  magic :: u32
  old_level :: bool

record process_share =
  ps_tid :: int
  ps_rvalue :: int
  refcount :: int
  loaded :: bool

record semaphore =
  sval :: nat
  waiters :: "nat list"

record kst =
  threads :: "nat \<Rightarrow> thread option"
  ready_list :: "nat list"
  all_list :: "nat list"
  idle_thread :: "nat option"
  initial_thread :: nat
  cur :: nat
  idle_ticks :: nat
  kernel_ticks :: nat
  user_ticks :: nat
  thread_ticks :: nat
  next_tid :: int
  intr_on :: bool
  in_external_intr :: bool
  yield_on_return :: bool
  semas :: "sema_id \<Rightarrow> semaphore"
  holder :: "lock_id \<Rightarrow> nat option"
  conds :: "nat \<Rightarrow> sema_id list"
  shares :: "nat \<Rightarrow> process_share option"

definition upd_thread :: "nat \<Rightarrow> (thread \<Rightarrow> thread) \<Rightarrow> kst \<Rightarrow> kst option" where
  "upd_thread t f k = do { th \<leftarrow> threads k t; Some (k\<lparr>threads := (threads k)(t \<mapsto> f th)\<rparr>) }"

subsection \<open>The interrupt level\<close>

definition intr_get_level :: "kst \<Rightarrow> bool" where
  "intr_get_level k = intr_on k"

definition intr_context :: "kst \<Rightarrow> bool" where
  "intr_context k = in_external_intr k"

definition intr_enable :: "kst \<Rightarrow> (bool \<times> kst) option" where
  "intr_enable k = do {
     guard (\<not> intr_context k);
     Some (intr_on k, k\<lparr>intr_on := True\<rparr>) }"

definition intr_disable :: "kst \<Rightarrow> bool \<times> kst" where
  "intr_disable k = (intr_on k, k\<lparr>intr_on := False\<rparr>)"

definition intr_set_level :: "bool \<Rightarrow> kst \<Rightarrow> kst option" where
  "intr_set_level level k = (if level then map_option snd (intr_enable k) else Some (snd (intr_disable k)))"

definition intr_yield_on_return :: "kst \<Rightarrow> kst option" where
  "intr_yield_on_return k = do {
     guard (intr_context k);
     Some (k\<lparr>yield_on_return := True\<rparr>) }"

text \<open>\<open>old_level = intr_disable ()\<close> of the running thread, and the \<open>intr_set_level (old_level)\<close> of the thread that runs when
  the switch is over.\<close>

definition save_level :: "kst \<Rightarrow> kst option" where
  "save_level k = do {
     let (old, k) = intr_disable k;
     upd_thread (cur k) (\<lambda>th. th\<lparr>old_level := old\<rparr>) k }"

definition restore_level :: "kst \<Rightarrow> kst option" where
  "restore_level k = do {
     th \<leftarrow> threads k (cur k);
     intr_set_level (old_level th) k }"

subsection \<open>Scheduling\<close>

definition is_thread :: "nat \<Rightarrow> kst \<Rightarrow> bool" where
  "is_thread t k = (case threads k t of Some th \<Rightarrow> magic th = THREAD_MAGIC | None \<Rightarrow> False)"

definition thread_current :: "kst \<Rightarrow> nat option" where
  "thread_current k = do {
     guard (is_thread (cur k) k);
     th \<leftarrow> threads k (cur k);
     guard (status th = THREAD_RUNNING);
     Some (cur k) }"

definition next_thread_to_run :: "kst \<Rightarrow> nat option \<times> kst" where
  "next_thread_to_run k =
     (case ready_list k of [] \<Rightarrow> (idle_thread k, k) | t # ts \<Rightarrow> (Some t, k\<lparr>ready_list := ts\<rparr>))"

text \<open>\<open>palloc_free_page\<close> of a dying thread: its structure is gone. Page tables are activated in \<open>Process\<close>.\<close>

definition thread_schedule_tail :: "nat option \<Rightarrow> kst \<Rightarrow> kst option" where
  "thread_schedule_tail prev k = do {
     guard (\<not> intr_get_level k);
     k \<leftarrow> upd_thread (cur k) (\<lambda>th. th\<lparr>status := THREAD_RUNNING\<rparr>) k;
     let k = k\<lparr>thread_ticks := 0\<rparr>;
     case prev of
       None \<Rightarrow> Some k
     | Some p \<Rightarrow> do {
         th \<leftarrow> threads k p;
         if status th = THREAD_DYING \<and> p \<noteq> initial_thread k then do {
           guard (p \<noteq> cur k);
           Some (k\<lparr>threads := (threads k)(p := None)\<rparr>) }
         else Some k } }"

definition schedule :: "kst \<Rightarrow> kst option" where
  "schedule k = do {
     let c = cur k;
     let (nxt, k) = next_thread_to_run k;
     guard (\<not> intr_get_level k);
     th \<leftarrow> threads k c;
     guard (status th \<noteq> THREAD_RUNNING);
     n \<leftarrow> nxt;
     guard (is_thread n k);
     if c \<noteq> n then thread_schedule_tail (Some c) (k\<lparr>cur := n\<rparr>)
     else thread_schedule_tail None k }"

definition thread_block :: "kst \<Rightarrow> kst option" where
  "thread_block k = do {
     guard (\<not> intr_context k);
     guard (\<not> intr_get_level k);
     t \<leftarrow> thread_current k;
     k \<leftarrow> upd_thread t (\<lambda>th. th\<lparr>status := THREAD_BLOCKED\<rparr>) k;
     schedule k }"

definition thread_unblock :: "nat \<Rightarrow> kst \<Rightarrow> kst option" where
  "thread_unblock t k = do {
     guard (is_thread t k);
     let (old, k) = intr_disable k;
     th \<leftarrow> threads k t;
     guard (status th = THREAD_BLOCKED);
     let k = k\<lparr>ready_list := ready_list k @ [t]\<rparr>;
     k \<leftarrow> upd_thread t (\<lambda>th. th\<lparr>status := THREAD_READY\<rparr>) k;
     intr_set_level old k }"

definition thread_yield :: "kst \<Rightarrow> kst option" where
  "thread_yield k = do {
     t \<leftarrow> thread_current k;
     guard (\<not> intr_context k);
     k \<leftarrow> save_level k;
     let k = (if idle_thread k \<noteq> Some t then k\<lparr>ready_list := ready_list k @ [t]\<rparr> else k);
     k \<leftarrow> upd_thread t (\<lambda>th. th\<lparr>status := THREAD_READY\<rparr>) k;
     k \<leftarrow> schedule k;
     restore_level k }"

text \<open>The end of \<open>thread_exit\<close>, after \<open>process_exit\<close>.\<close>

definition thread_exit_tail :: "kst \<Rightarrow> kst option" where
  "thread_exit_tail k = do {
     let (_, k) = intr_disable k;
     t \<leftarrow> thread_current k;
     let k = k\<lparr>all_list := remove1 t (all_list k)\<rparr>;
     k \<leftarrow> upd_thread t (\<lambda>th. th\<lparr>status := THREAD_DYING\<rparr>) k;
     k \<leftarrow> schedule k;
     restore_level k }"

text \<open>One round of the loop of the idle thread; it wakes up with interrupts on.\<close>

definition idle_round :: "kst \<Rightarrow> kst option" where
  "idle_round k = do {
     let (_, k) = intr_disable k;
     k \<leftarrow> upd_thread (cur k) (\<lambda>th. th\<lparr>old_level := True\<rparr>) k;
     k \<leftarrow> thread_block k;
     restore_level k }"

subsection \<open>Timer ticks\<close>

definition thread_tick :: "kst \<Rightarrow> kst option" where
  "thread_tick k = do {
     t \<leftarrow> thread_current k;
     th \<leftarrow> threads k t;
     let k = (if idle_thread k = Some t then k\<lparr>idle_ticks := idle_ticks k + 1\<rparr>
              else if pagedir th \<noteq> None then k\<lparr>user_ticks := user_ticks k + 1\<rparr>
              else k\<lparr>kernel_ticks := kernel_ticks k + 1\<rparr>);
     let k = k\<lparr>thread_ticks := thread_ticks k + 1\<rparr>;
     if TIME_SLICE \<le> thread_ticks k then intr_yield_on_return k else Some k }"

text \<open>\<open>intr_handler\<close> for an external interrupt: the processor has cleared the interrupt flag of the interrupted
  thread, which the return from the interrupt restores.\<close>

definition intr_handler_external :: "(kst \<Rightarrow> kst option) \<Rightarrow> kst \<Rightarrow> kst option" where
  "intr_handler_external handler k = do {
     guard (intr_get_level k);
     k \<leftarrow> Some (k\<lparr>intr_on := False\<rparr>);
     guard (\<not> intr_context k);
     let k = k\<lparr>in_external_intr := True, yield_on_return := False\<rparr>;
     k \<leftarrow> handler k;
     guard (\<not> intr_get_level k);
     guard (intr_context k);
     let k = k\<lparr>in_external_intr := False\<rparr>;
     if yield_on_return k then thread_yield (k\<lparr>intr_on := True\<rparr>)
     else Some (k\<lparr>intr_on := True\<rparr>) }"

subsection \<open>Access to the running thread, and the list of all threads\<close>

definition thread_name :: "kst \<Rightarrow> bytes option" where
  "thread_name k = do { t \<leftarrow> thread_current k; th \<leftarrow> threads k t; Some (tname th) }"

definition thread_tid :: "kst \<Rightarrow> int option" where
  "thread_tid k = do { t \<leftarrow> thread_current k; th \<leftarrow> threads k t; Some (tid th) }"

definition thread_get_priority :: "kst \<Rightarrow> int option" where
  "thread_get_priority k = do { t \<leftarrow> thread_current k; th \<leftarrow> threads k t; Some (priority th) }"

definition thread_set_priority :: "int \<Rightarrow> kst \<Rightarrow> kst option" where
  "thread_set_priority p k = do { t \<leftarrow> thread_current k; upd_thread t (\<lambda>th. th\<lparr>priority := p\<rparr>) k }"

fun find_tid :: "int \<Rightarrow> nat list \<Rightarrow> kst \<Rightarrow> nat option option" where
  "find_tid i [] k = Some None"
| "find_tid i (t # ts) k = do {
     th \<leftarrow> threads k t;
     if tid th = i then Some (Some t) else find_tid i ts k }"

definition get_thread :: "int \<Rightarrow> kst \<Rightarrow> nat option option" where
  "get_thread i k = find_tid i (all_list k) k"

fun foreach_in :: "nat list \<Rightarrow> (nat \<Rightarrow> kst \<Rightarrow> kst option) \<Rightarrow> kst \<Rightarrow> kst option" where
  "foreach_in [] func k = Some k"
| "foreach_in (t # ts) func k = do { k \<leftarrow> func t k; foreach_in ts func k }"

definition thread_foreach :: "(nat \<Rightarrow> kst \<Rightarrow> kst option) \<Rightarrow> kst \<Rightarrow> kst option" where
  "thread_foreach func k = do {
     guard (\<not> intr_get_level k);
     foreach_in (all_list k) func k }"

text \<open>\<open>strlcpy\<close> into a field of 16 bytes, zeroed before; a new thread starts with interrupts enabled by \<open>kernel_thread\<close>.\<close>

definition init_thread :: "nat \<Rightarrow> bytes \<Rightarrow> int \<Rightarrow> kst \<Rightarrow> kst option" where
  "init_thread t nm prio k = do {
     guard (t \<noteq> 0);
     guard (PRI_MIN \<le> prio \<and> prio \<le> PRI_MAX);
     let th = \<lparr>tid = 0, status = THREAD_BLOCKED, tname = take 15 nm, stack = t + PGSIZE, priority = prio,
               child_share = [], parent_share = None, rvalue = 0, pagedir = None, fds = [],
               closed_files = replicate 128 0, exe = None, magic = THREAD_MAGIC, old_level = True\<rparr>;
     Some (k\<lparr>threads := (threads k)(t \<mapsto> th), all_list := all_list k @ [t]\<rparr>) }"

definition alloc_frame :: "nat \<Rightarrow> nat \<Rightarrow> kst \<Rightarrow> (nat \<times> kst) option" where
  "alloc_frame t sz k = do {
     guard (is_thread t k);
     guard (sz mod 4 = 0);
     k \<leftarrow> upd_thread t (\<lambda>th. th\<lparr>stack := stack th - sz\<rparr>) k;
     th \<leftarrow> threads k t;
     Some (stack th, k) }"

end
