(* ===== verification/Synch.thy ===== *)
theory Synch
  imports Kthread
begin

text \<open>
  Semaphores, locks and condition variables: \<open>threads/synch.c\<close>, and the parts of \<open>threads/thread.c\<close> that use them.
  \<open>sema_down\<close> is one pass of its loop: it has decremented the semaphore, or the thread sleeps and will come back to
  the test. Operations that sleep in the middle are sequences of atomic steps (\<open>micro\<close>), so that other threads can run between any
  two of them; interrupts are off only inside the steps.
\<close>

subsection \<open>Semaphores\<close>

definition set_sema :: "sema_id \<Rightarrow> semaphore \<Rightarrow> kst \<Rightarrow> kst" where
  "set_sema s v k = k\<lparr>semas := (semas k)(s := v)\<rparr>"

definition sema_init :: "sema_id \<Rightarrow> nat \<Rightarrow> kst \<Rightarrow> kst" where
  "sema_init s v k = set_sema s \<lparr>sval = v, waiters = []\<rparr> k"

definition sema_down :: "sema_id \<Rightarrow> kst \<Rightarrow> (bool \<times> kst) option" where
  "sema_down s k = do {
     guard (\<not> intr_context k);
     k \<leftarrow> save_level k;
     if sval (semas k s) = 0 then do {
       t \<leftarrow> thread_current k;
       let k = set_sema s ((semas k s)\<lparr>waiters := waiters (semas k s) @ [t]\<rparr>) k;
       k \<leftarrow> thread_block k;
       k \<leftarrow> restore_level k;
       Some (False, k) }
     else do {
       let k = set_sema s ((semas k s)\<lparr>sval := sval (semas k s) - 1\<rparr>) k;
       k \<leftarrow> restore_level k;
       Some (True, k) } }"

definition sema_try_down :: "sema_id \<Rightarrow> kst \<Rightarrow> (bool \<times> kst) option" where
  "sema_try_down s k = do {
     let (old, k) = intr_disable k;
     let (ok, k) = (if 0 < sval (semas k s) then (True, set_sema s ((semas k s)\<lparr>sval := sval (semas k s) - 1\<rparr>) k)
                    else (False, k));
     k \<leftarrow> intr_set_level old k;
     Some (ok, k) }"

definition sema_up :: "sema_id \<Rightarrow> kst \<Rightarrow> kst option" where
  "sema_up s k = do {
     let (old, k) = intr_disable k;
     k \<leftarrow> (case waiters (semas k s) of
             [] \<Rightarrow> Some k
           | w # ws \<Rightarrow> thread_unblock w (set_sema s ((semas k s)\<lparr>waiters := ws\<rparr>) k));
     let k = set_sema s ((semas k s)\<lparr>sval := sz_add (sval (semas k s)) 1\<rparr>) k;
     intr_set_level old k }"

subsection \<open>Locks\<close>

definition set_holder :: "lock_id \<Rightarrow> nat option \<Rightarrow> kst \<Rightarrow> kst" where
  "set_holder l h k = k\<lparr>holder := (holder k)(l := h)\<rparr>"

definition lock_init :: "lock_id \<Rightarrow> kst \<Rightarrow> kst" where
  "lock_init l k = sema_init (Lock_sema l) 1 (set_holder l None k)"

definition lock_held_by_current_thread :: "lock_id \<Rightarrow> kst \<Rightarrow> bool option" where
  "lock_held_by_current_thread l k = do {
     t \<leftarrow> thread_current k;
     Some (holder k l = Some t) }"

definition lock_try_acquire :: "lock_id \<Rightarrow> kst \<Rightarrow> (bool \<times> kst) option" where
  "lock_try_acquire l k = do {
     h \<leftarrow> lock_held_by_current_thread l k;
     guard (\<not> h);
     (ok, k) \<leftarrow> sema_try_down (Lock_sema l) k;
     if ok then do { t \<leftarrow> thread_current k; Some (True, set_holder l (Some t) k) }
     else Some (False, k) }"

definition cond_init :: "nat \<Rightarrow> kst \<Rightarrow> kst" where
  "cond_init c k = k\<lparr>conds := (conds k)(c := [])\<rparr>"

subsection \<open>The steps of the operations that may sleep\<close>

datatype micro =
    Down sema_id | Up sema_id
  | Check_held lock_id | Check_not_held lock_id | Hold lock_id | Unhold lock_id
  | Try_lock lock_id
  | Push_waiter nat | Signal nat | Broadcast nat lock_id
  | Yield | Exit | Idle

definition lock_acquire :: "lock_id \<Rightarrow> micro list" where
  "lock_acquire l = [Check_not_held l, Down (Lock_sema l), Hold l]"

definition lock_release :: "lock_id \<Rightarrow> micro list" where
  "lock_release l = [Check_held l, Unhold l, Up (Lock_sema l)]"

text \<open>Of the thread \<open>t\<close>, on whose stack the waiter is.\<close>

definition cond_wait :: "nat \<Rightarrow> nat \<Rightarrow> lock_id \<Rightarrow> micro list" where
  "cond_wait t c l = [Check_held l, Push_waiter c] @ lock_release l @ [Down (Waiter t)] @ lock_acquire l"

definition cond_signal :: "nat \<Rightarrow> lock_id \<Rightarrow> micro list" where
  "cond_signal c l = [Check_held l, Signal c]"

definition cond_broadcast :: "nat \<Rightarrow> lock_id \<Rightarrow> micro list" where
  "cond_broadcast c l = [Broadcast c l]"

text \<open>One step of the running thread: what remains to be done in its place, and the new state.\<close>

fun exec :: "micro \<Rightarrow> kst \<Rightarrow> (micro list \<times> kst) option" where
  "exec (Down s) k = do { (done, k) \<leftarrow> sema_down s k; Some (if done then [] else [Down s], k) }"
| "exec (Up s) k = do { k \<leftarrow> sema_up s k; Some ([], k) }"
| "exec (Check_held l) k = do {
     guard (\<not> intr_context k);
     h \<leftarrow> lock_held_by_current_thread l k;
     guard h;
     Some ([], k) }"
| "exec (Check_not_held l) k = do {
     guard (\<not> intr_context k);
     h \<leftarrow> lock_held_by_current_thread l k;
     guard (\<not> h);
     Some ([], k) }"
| "exec (Hold l) k = do { t \<leftarrow> thread_current k; Some ([], set_holder l (Some t) k) }"
| "exec (Unhold l) k = Some ([], set_holder l None k)"
| "exec (Try_lock l) k = do {
     h \<leftarrow> lock_held_by_current_thread l k;
     guard (\<not> h);
     (ok, k) \<leftarrow> sema_try_down (Lock_sema l) k;
     Some (if ok then [Hold l] else [], k) }"
| "exec (Push_waiter c) k = do {
     t \<leftarrow> thread_current k;
     let k = sema_init (Waiter t) 0 k;
     Some ([], k\<lparr>conds := (conds k)(c := conds k c @ [Waiter t])\<rparr>) }"
| "exec (Signal c) k =
     (case conds k c of [] \<Rightarrow> Some ([], k) | w # ws \<Rightarrow> Some ([Up w], k\<lparr>conds := (conds k)(c := ws)\<rparr>))"
| "exec (Broadcast c l) k =
     (if conds k c = [] then Some ([], k) else Some (cond_signal c l @ [Broadcast c l], k))"
| "exec Yield k = do { k \<leftarrow> thread_yield k; Some ([], k) }"
| "exec Exit k = do { k \<leftarrow> thread_exit_tail k; Some ([], k) }"
| "exec Idle k = do { k \<leftarrow> idle_round k; Some ([Idle], k) }"

subsection \<open>Creating threads\<close>

text \<open>The lock for thread identifiers, taken and given back; a thread that finds it taken waits, which is
  the step \<open>Down\<close> above, so here the lock must be free.\<close>

definition allocate_tid :: "kst \<Rightarrow> (int \<times> kst) option" where
  "allocate_tid k = do {
     h \<leftarrow> lock_held_by_current_thread Tid_lock k;
     guard (\<not> h);
     (ok, k) \<leftarrow> sema_down (Lock_sema Tid_lock) k;
     guard ok;
     t \<leftarrow> thread_current k;
     let k = set_holder Tid_lock (Some t) k;
     let i = next_tid k;
     let k = k\<lparr>next_tid := i + 1\<rparr>;
     let k = set_holder Tid_lock None k;
     k \<leftarrow> sema_up (Lock_sema Tid_lock) k;
     Some (i, k) }"

definition thread_init :: "kst \<Rightarrow> kst option" where
  "thread_init k = do {
     guard (\<not> intr_get_level k);
     let k = lock_init Tid_lock k;
     let k = k\<lparr>ready_list := [], all_list := [], initial_thread := cur k\<rparr>;
     k \<leftarrow> init_thread (cur k) [109, 97, 105, 110] PRI_DEFAULT k;
     k \<leftarrow> upd_thread (cur k) (\<lambda>th. th\<lparr>status := THREAD_RUNNING\<rparr>) k;
     (i, k) \<leftarrow> allocate_tid k;
     upd_thread (cur k) (\<lambda>th. th\<lparr>tid := i, child_share := [], parent_share := None\<rparr>) k }"

text \<open>The part of \<open>thread_create\<close> that sets up the \<open>process_share\<close>, with what \<open>malloc\<close> returned; it is not tested.\<close>

definition setup_share :: "nat \<Rightarrow> int \<Rightarrow> nat option \<Rightarrow> kst \<Rightarrow> kst option" where
  "setup_share t i share k = do {
     k \<leftarrow> upd_thread t (\<lambda>th. th\<lparr>child_share := [], parent_share := share\<rparr>) k;
     p \<leftarrow> share;
     let k = k\<lparr>shares := (shares k)(p \<mapsto> \<lparr>ps_tid = i, ps_rvalue = 0, refcount = 2, loaded = True\<rparr>)\<rparr>;
     let k = sema_init (Sig p) 0 k;
     let k = lock_init (Share_lock p) k;
     let k = sema_init (Successload p) 0 k;
     sema_up (Setup t) k }"

text \<open>The stack frames of \<open>kernel_thread\<close>, \<open>switch_entry\<close> and \<open>switch_threads\<close>.\<close>

definition setup_frames :: "nat \<Rightarrow> kst \<Rightarrow> kst option" where
  "setup_frames t k = do {
     (_, k) \<leftarrow> alloc_frame t 12 k;
     (_, k) \<leftarrow> alloc_frame t 4 k;
     (_, k) \<leftarrow> alloc_frame t 28 k;
     Some k }"

text \<open>\<open>page\<close> is what \<open>palloc_get_page\<close> returns.\<close>

definition thread_create :: "bytes \<Rightarrow> int \<Rightarrow> nat option \<Rightarrow> nat option \<Rightarrow> kst \<Rightarrow> (int \<times> kst) option" where
  "thread_create nm prio page share k =
     (case page of
        None \<Rightarrow> Some (TID_ERROR, k)
      | Some t \<Rightarrow> do {
          k \<leftarrow> init_thread t nm prio k;
          let k = sema_init (Setup t) 0 k;
          (i, k) \<leftarrow> allocate_tid k;
          k \<leftarrow> upd_thread t (\<lambda>th. th\<lparr>tid := i, rvalue := - 1\<rparr>) k;
          k \<leftarrow> setup_share t i share k;
          k \<leftarrow> setup_frames t k;
          k \<leftarrow> thread_unblock t k;
          Some (i, k) })"

subsection \<open>Starting the scheduler\<close>

text \<open>The idle thread up to the first time it blocks; \<open>s\<close> is the semaphore it is passed.\<close>

definition idle_start :: "sema_id \<Rightarrow> kst \<Rightarrow> kst option" where
  "idle_start s k = do {
     t \<leftarrow> thread_current k;
     let k = k\<lparr>idle_thread := Some t\<rparr>;
     k \<leftarrow> sema_up s k;
     idle_round k }"

text \<open>\<open>thread_start\<close>: the main thread sleeps on \<open>idle_started\<close>, a variable on its stack (named \<open>Sema 0\<close>),
  the idle thread runs until it blocks, and the main thread goes on. No timer interrupt arrives meanwhile.\<close>

definition thread_start :: "nat option \<Rightarrow> nat option \<Rightarrow> kst \<Rightarrow> kst option" where
  "thread_start page share k = do {
     let k = sema_init (Sema 0) 0 k;
     (i, k) \<leftarrow> thread_create [105, 100, 108, 101] PRI_MIN page share k;
     (_, k) \<leftarrow> intr_enable k;
     (ok, k) \<leftarrow> sema_down (Sema 0) k;
     guard (\<not> ok);
     k \<leftarrow> idle_start (Sema 0) k;
     (ok, k) \<leftarrow> sema_down (Sema 0) k;
     guard ok;
     found \<leftarrow> get_thread i k;
     t \<leftarrow> found;
     (ok, k) \<leftarrow> sema_down (Setup t) k;
     guard ok;
     th \<leftarrow> threads k t;
     p \<leftarrow> parent_share th;
     c \<leftarrow> thread_current k;
     upd_thread c (\<lambda>th. th\<lparr>child_share := child_share th @ [p]\<rparr>) k }"

end
