(* ===== verification/Sched.thy ===== *)
theory Sched
  imports Synch
begin

text \<open>
  What the scheduler and the synchronisation operations keep, over all interleavings of threads and timer interrupts.
  \<open>sane\<close> is the part of the invariant that also holds inside the scheduler; \<open>kwf\<close> is the state between two steps.
\<close>

subsection \<open>The invariant of the scheduler\<close>

definition st :: "kst \<Rightarrow> nat \<Rightarrow> thread_status option" where
  "st k t = map_option status (threads k t)"

definition alive :: "kst \<Rightarrow> nat \<Rightarrow> bool" where
  "alive k t \<longleftrightarrow> st k t \<in> {Some THREAD_RUNNING, Some THREAD_READY, Some THREAD_BLOCKED}"

definition queued :: "kst \<Rightarrow> bool" where
  "queued k \<longleftrightarrow>
     distinct (ready_list k) \<and> (\<forall>t \<in> set (ready_list k). st k t = Some THREAD_READY \<and> idle_thread k \<noteq> Some t) \<and>
     (\<forall>t. st k t = Some THREAD_READY \<longrightarrow> t \<in> set (ready_list k) \<or> idle_thread k = Some t) \<and>
     (\<forall>s. distinct (waiters (semas k s))) \<and>
     (\<forall>s. \<forall>t \<in> set (waiters (semas k s)). st k t = Some THREAD_BLOCKED \<and> idle_thread k \<noteq> Some t) \<and>
     (\<forall>s s' t. t \<in> set (waiters (semas k s)) \<longrightarrow> t \<in> set (waiters (semas k s')) \<longrightarrow> s = s')"

definition sane :: "kst \<Rightarrow> bool" where
  "sane k \<longleftrightarrow> queued k \<and>
     (\<forall>t th. threads k t = Some th \<longrightarrow> magic th = THREAD_MAGIC \<and> (t \<noteq> cur k \<longrightarrow> status th \<noteq> THREAD_DYING \<longrightarrow> old_level th)) \<and>
     distinct (all_list k) \<and> (\<forall>t. t \<in> set (all_list k) \<longleftrightarrow> alive k t) \<and>
     (\<exists>i. idle_thread k = Some i \<and> alive k i) \<and> \<not> in_external_intr k"

definition kwf :: "kst \<Rightarrow> bool" where
  "kwf k \<longleftrightarrow> sane k \<and> intr_on k \<and> (\<forall>t. st k t = Some THREAD_RUNNING \<longleftrightarrow> t = cur k)"

text \<open>The running thread has stepped down and is about to call \<open>schedule\<close>.\<close>

definition leaving :: "kst \<Rightarrow> bool" where
  "leaving k \<longleftrightarrow> sane k \<and> \<not> intr_on k \<and> (\<forall>t. st k t \<noteq> Some THREAD_RUNNING) \<and>
     (\<exists>th. threads k (cur k) = Some th \<and> (status th \<noteq> THREAD_DYING \<longrightarrow> old_level th))"

lemma st_Some: "st k t = Some s \<longleftrightarrow> (\<exists>th. threads k t = Some th \<and> status th = s)"
  by (auto simp: st_def)

lemma upd_thread_eq: "threads k t = Some th \<Longrightarrow> upd_thread t f k = Some (k\<lparr>threads := (threads k)(t \<mapsto> f th)\<rparr>)"
  by (simp add: upd_thread_def)

lemma queuedD:
  assumes "queued k"
  shows "distinct (ready_list k)"
    "t \<in> set (ready_list k) \<Longrightarrow> st k t = Some THREAD_READY"
    "t \<in> set (ready_list k) \<Longrightarrow> idle_thread k \<noteq> Some t"
    "st k t = Some THREAD_READY \<Longrightarrow> t \<in> set (ready_list k) \<or> idle_thread k = Some t"
    "distinct (waiters (semas k s))"
    "t \<in> set (waiters (semas k s)) \<Longrightarrow> st k t = Some THREAD_BLOCKED"
    "t \<in> set (waiters (semas k s)) \<Longrightarrow> idle_thread k \<noteq> Some t"
    "t \<in> set (waiters (semas k s)) \<Longrightarrow> t \<in> set (waiters (semas k s')) \<Longrightarrow> s = s'"
  using assms unfolding queued_def by blast+

lemma saneD:
  assumes "sane k"
  shows "queued k"
    "threads k t = Some th \<Longrightarrow> magic th = THREAD_MAGIC"
    "threads k t = Some th \<Longrightarrow> t \<noteq> cur k \<Longrightarrow> status th \<noteq> THREAD_DYING \<Longrightarrow> old_level th"
    "distinct (all_list k)"
    "t \<in> set (all_list k) \<longleftrightarrow> alive k t"
    "\<exists>i. idle_thread k = Some i \<and> alive k i"
    "\<not> in_external_intr k"
  using assms unfolding sane_def by blast+

text \<open>The state after a switch to \<open>n\<close>, with \<open>rl\<close> left on the ready list.\<close>

definition freed :: "kst \<Rightarrow> nat \<Rightarrow> bool" where
  "freed k t \<longleftrightarrow> t = cur k \<and> st k t = Some THREAD_DYING \<and> t \<noteq> initial_thread k"

definition switched :: "nat \<Rightarrow> nat list \<Rightarrow> kst \<Rightarrow> kst" where
  "switched n rl k = k\<lparr>ready_list := rl,
     threads := (\<lambda>t. if t = n then map_option (\<lambda>th. th\<lparr>status := THREAD_RUNNING\<rparr>) (threads k n)
                     else if freed k t then None else threads k t),
     cur := n, thread_ticks := 0, intr_on := True\<rparr>"

definition chosen :: "kst \<Rightarrow> nat \<Rightarrow> nat list \<Rightarrow> bool" where
  "chosen k n rl \<longleftrightarrow> ready_list k = n # rl \<or> ready_list k = [] \<and> rl = [] \<and> idle_thread k = Some n"

lemma leavingD:
  assumes "leaving k" "chosen k n rl"
  shows "\<exists>th. threads k n = Some th \<and> magic th = THREAD_MAGIC \<and> old_level th"
proof -
  have sn: "sane k" using assms(1) by (simp add: leaving_def)
  have "alive k n"
  proof (cases "ready_list k = []")
    case True
    then show ?thesis using assms(2) saneD(6) [OF sn] by (auto simp: chosen_def)
  next
    case False
    then have "n \<in> set (ready_list k)" using assms(2) by (auto simp: chosen_def)
    then show ?thesis using queuedD(2) [OF saneD(1) [OF sn]] by (simp add: alive_def)
  qed
  then obtain th where th: "threads k n = Some th" "status th \<noteq> THREAD_DYING" by (auto simp: alive_def st_Some)
  moreover have "magic th = THREAD_MAGIC" "n \<noteq> cur k \<Longrightarrow> old_level th" using saneD(2,3) [OF sn th(1)] th(2) by auto
  moreover have "n = cur k \<Longrightarrow> old_level th" using assms(1) th by (auto simp: leaving_def)
  ultimately show ?thesis by blast
qed

lemma schedule_switched:
  assumes "leaving k" "chosen k n rl"
  shows "do { k \<leftarrow> schedule k; restore_level k } = Some (switched n rl k)"
proof -
  obtain th where th: "threads k n = Some th" "magic th = THREAD_MAGIC" "old_level th" using leavingD [OF assms] by blast
  obtain tc where tc: "threads k (cur k) = Some tc" using assms(1) by (auto simp: leaving_def)
  have nr: "status tc \<noteq> THREAD_RUNNING" "\<not> intr_on k" "\<not> in_external_intr k"
    using assms(1) tc saneD(7) [of k] by (simp_all add: leaving_def) (metis st_Some)
  have nxt: "next_thread_to_run k = (Some n, k\<lparr>ready_list := rl\<rparr>)"
    using assms(2) by (auto simp: chosen_def next_thread_to_run_def split: list.splits)
  show ?thesis
  proof (cases "cur k = n")
    case True
    have "switched n rl k = k\<lparr>ready_list := rl, threads := (threads k)(n \<mapsto> th\<lparr>status := THREAD_RUNNING\<rparr>), thread_ticks := 0, intr_on := True\<rparr>"
      using True th by (auto simp: switched_def freed_def intro!: ext kst.equality)
    then show ?thesis using True th tc nr nxt
      by (simp add: schedule_def Let_def thread_schedule_tail_def is_thread_def upd_thread_def restore_level_def
          intr_get_level_def intr_set_level_def intr_enable_def intr_context_def)
  next
    case False
    have f: "freed k t \<longleftrightarrow> t = cur k \<and> status tc = THREAD_DYING \<and> t \<noteq> initial_thread k" for t
      using tc by (auto simp: freed_def st_Some)
    show ?thesis using False th tc nr nxt
      by (auto simp: schedule_def Let_def thread_schedule_tail_def is_thread_def upd_thread_def restore_level_def
          intr_get_level_def intr_set_level_def intr_enable_def intr_context_def switched_def f fun_eq_iff intro!: kst.equality)
  qed
qed

lemma st_switched:
  assumes "leaving k" "chosen k n rl"
  shows "st (switched n rl k) t = (if t = n then Some THREAD_RUNNING else if freed k t then None else st k t)"
  using leavingD [OF assms] by (auto simp: switched_def st_def)

lemma switched_sel [simp]:
  "ready_list (switched n rl k) = rl" "semas (switched n rl k) = semas k" "idle_thread (switched n rl k) = idle_thread k"
  "cur (switched n rl k) = n" "all_list (switched n rl k) = all_list k" "intr_on (switched n rl k)"
  "in_external_intr (switched n rl k) = in_external_intr k" "holder (switched n rl k) = holder k" "conds (switched n rl k) = conds k"
  "initial_thread (switched n rl k) = initial_thread k"
  by (simp_all add: switched_def)

lemma freed_not: "st k t \<noteq> Some THREAD_DYING \<Longrightarrow> \<not> freed k t"
  by (simp add: freed_def)

lemma alive_status: "alive k t \<Longrightarrow> st k t \<noteq> Some THREAD_DYING" "st k t = Some THREAD_READY \<Longrightarrow> alive k t"
  "st k t = Some THREAD_BLOCKED \<Longrightarrow> alive k t" "st k t = Some THREAD_RUNNING \<Longrightarrow> alive k t"
  by (auto simp: alive_def)

lemma chosen_alive:
  assumes "sane k" "chosen k n rl"
  shows "alive k n" "set rl = set (ready_list k) - {n}" "distinct rl" "n \<notin> set rl" "n \<notin> set (waiters (semas k s))"
    "st k n = Some THREAD_READY \<or> idle_thread k = Some n"
proof -
  note q = saneD(1) [OF assms(1)]
  consider "ready_list k = n # rl" | "ready_list k = []" "rl = []" "idle_thread k = Some n" using assms(2) by (auto simp: chosen_def)
  then have "alive k n \<and> set rl = set (ready_list k) - {n} \<and> distinct rl \<and> n \<notin> set rl \<and> n \<notin> set (waiters (semas k s)) \<and>
    (st k n = Some THREAD_READY \<or> idle_thread k = Some n)"
  proof cases
    case 1
    then have "st k n = Some THREAD_READY" using queuedD(2) [OF q, of n] by simp
    then show ?thesis using 1 queuedD(1) [OF q] queuedD(6) [OF q, of n s] by (auto simp: alive_status)
  next
    case 2
    then show ?thesis using saneD(6) [OF assms(1)] queuedD(7) [OF q, of n s] by auto
  qed
  then show "alive k n" "set rl = set (ready_list k) - {n}" "distinct rl" "n \<notin> set rl" "n \<notin> set (waiters (semas k s))"
    "st k n = Some THREAD_READY \<or> idle_thread k = Some n" by blast+
qed

lemma switched_kwf:
  assumes "leaving k" "chosen k n rl"
  shows "kwf (switched n rl k)"
proof -
  let ?k = "switched n rl k"
  have sn: "sane k" and nr: "\<And>t. st k t \<noteq> Some THREAD_RUNNING" using assms(1) by (simp_all add: leaving_def)
  note q = saneD(1) [OF sn] and ch = chosen_alive [OF sn assms(2)] and st = st_switched [OF assms]
  have al: "alive ?k t \<longleftrightarrow> alive k t" for t
    using ch(1) alive_status(1) [of k t] by (auto simp: alive_def st freed_def)
  have "queued ?k" unfolding queued_def switched_sel
  proof (intro conjI allI ballI impI)
    show "distinct rl" by (rule ch(3))
    show "st ?k t = Some THREAD_READY" if "t \<in> set rl" for t
      using that ch(2) queuedD(2) [OF q, of t] by (auto simp: st freed_def)
    show "idle_thread k \<noteq> Some t" if "t \<in> set rl" for t using that ch(2) queuedD(3) [OF q, of t] by auto
    show "t \<in> set rl \<or> idle_thread k = Some t" if "st ?k t = Some THREAD_READY" for t
      using that ch(2) queuedD(4) [OF q, of t] by (auto simp: st split: if_splits)
    show "distinct (waiters (semas k s))" for s by (rule queuedD(5) [OF q])
    show "st ?k t = Some THREAD_BLOCKED" if "t \<in> set (waiters (semas k s))" for s t
      using that ch(5) [of s] queuedD(6) [OF q, of t s] by (auto simp: st freed_def)
    show "idle_thread k \<noteq> Some t" if "t \<in> set (waiters (semas k s))" for s t using that by (rule queuedD(7) [OF q])
    show "s = s'" if "t \<in> set (waiters (semas k s))" "t \<in> set (waiters (semas k s'))" for s s' t using that by (rule queuedD(8) [OF q])
  qed
  moreover have "magic th = THREAD_MAGIC \<and> (t \<noteq> n \<longrightarrow> status th \<noteq> THREAD_DYING \<longrightarrow> old_level th)" if "threads ?k t = Some th" for t th
  proof -
    have "\<exists>th0. threads k t = Some th0 \<and> magic th = magic th0 \<and> (t \<noteq> n \<longrightarrow> th = th0)"
      using that by (auto simp: switched_def split: if_splits)
    then obtain th0 where th0: "threads k t = Some th0" "magic th = magic th0" "t \<noteq> n \<Longrightarrow> th = th0" by blast
    have "t = cur k \<Longrightarrow> status th0 \<noteq> THREAD_DYING \<Longrightarrow> old_level th0" using th0(1) assms(1) by (auto simp: leaving_def)
    then show ?thesis using th0 saneD(2,3) [OF sn th0(1)] by auto
  qed
  moreover have "distinct (all_list k)" "\<forall>t. t \<in> set (all_list k) \<longleftrightarrow> alive k t" using saneD(4,5) [OF sn] by auto
  moreover have "\<exists>i. idle_thread k = Some i \<and> alive k i" "\<not> in_external_intr k" using saneD(6,7) [OF sn] by auto
  ultimately have "sane ?k" unfolding sane_def switched_sel al by blast
  moreover have "st ?k t = Some THREAD_RUNNING \<longleftrightarrow> t = cur ?k" for t using nr by (simp add: st)
  ultimately show ?thesis by (simp add: kwf_def)
qed

subsection \<open>Stepping down\<close>

lemma kwfD:
  assumes "kwf k"
  shows "sane k" "intr_on k" "st k t = Some THREAD_RUNNING \<longleftrightarrow> t = cur k" "\<not> in_external_intr k"
    "\<exists>th. threads k (cur k) = Some th \<and> status th = THREAD_RUNNING \<and> magic th = THREAD_MAGIC"
    "cur k \<notin> set (ready_list k)" "cur k \<notin> set (waiters (semas k s))" "alive k (cur k)"
proof -
  show sn: "sane k" and "intr_on k" and st: "st k t = Some THREAD_RUNNING \<longleftrightarrow> t = cur k" for t using assms by (auto simp: kwf_def)
  have c: "st k (cur k) = Some THREAD_RUNNING" using st by simp
  then obtain th where th: "threads k (cur k) = Some th" "status th = THREAD_RUNNING" by (auto simp: st_Some)
  then show "\<exists>th. threads k (cur k) = Some th \<and> status th = THREAD_RUNNING \<and> magic th = THREAD_MAGIC"
    using saneD(2) [OF sn] by blast
  show "\<not> in_external_intr k" using saneD(7) [OF sn] .
  note q = saneD(1) [OF sn]
  show "cur k \<notin> set (ready_list k)" using queuedD(2) [OF q, of "cur k"] c by auto
  show "cur k \<notin> set (waiters (semas k s))" using queuedD(6) [OF q, of "cur k" s] c by auto
  show "alive k (cur k)" using c by (simp add: alive_def)
qed

text \<open>The running thread has the status \<open>S\<close>, and is put on the ready list or among the waiters of \<open>W\<close>.\<close>

definition stepped :: "thread_status \<Rightarrow> nat list \<Rightarrow> nat list \<Rightarrow> (sema_id \<Rightarrow> semaphore) \<Rightarrow> kst \<Rightarrow> kst" where
  "stepped S rl al sm k = k\<lparr>threads := (threads k)(cur k := map_option (\<lambda>th. th\<lparr>old_level := S \<noteq> THREAD_DYING \<or> old_level th, status := S\<rparr>) (threads k (cur k))),
     intr_on := False, ready_list := rl, all_list := al, semas := sm\<rparr>"

lemma stepped_sel [simp]:
  "ready_list (stepped S rl al sm k) = rl" "semas (stepped S rl al sm k) = sm" "idle_thread (stepped S rl al sm k) = idle_thread k"
  "cur (stepped S rl al sm k) = cur k" "all_list (stepped S rl al sm k) = al" "\<not> intr_on (stepped S rl al sm k)"
  "in_external_intr (stepped S rl al sm k) = in_external_intr k" "holder (stepped S rl al sm k) = holder k"
  "conds (stepped S rl al sm k) = conds k" "initial_thread (stepped S rl al sm k) = initial_thread k"
  by (simp_all add: stepped_def)

lemma st_stepped: "kwf k \<Longrightarrow> st (stepped S rl al sm k) t = (if t = cur k then Some S else st k t)"
  using kwfD(5) [of k] by (auto simp: st_def stepped_def)

lemma leaving_stepped:
  assumes kwf: "kwf k" and S: "S \<noteq> THREAD_RUNNING"
    and rl: "rl = (if S = THREAD_READY \<and> idle_thread k \<noteq> Some (cur k) then ready_list k @ [cur k] else ready_list k)"
    and al: "al = (if S = THREAD_DYING then remove1 (cur k) (all_list k) else all_list k)"
    and ws: "\<And>s. waiters (sm s) = (if W = Some s then waiters (semas k s) @ [cur k] else waiters (semas k s))"
    and W: "W \<noteq> None \<Longrightarrow> S = THREAD_BLOCKED \<and> idle_thread k \<noteq> Some (cur k)"
    and X: "S = THREAD_DYING \<Longrightarrow> idle_thread k \<noteq> Some (cur k)"
  shows "leaving (stepped S rl al sm k)"
proof -
  let ?k = "stepped S rl al sm k"
  note sn = kwfD(1) [OF kwf] and st = st_stepped [OF kwf]
  note q = saneD(1) [OF sn]
  have q': "queued ?k" unfolding queued_def stepped_sel
  proof (intro conjI allI ballI impI)
    show "distinct rl" using rl queuedD(1) [OF q] kwfD(6) [OF kwf] by auto
    show "st ?k t = Some THREAD_READY" if "t \<in> set rl" for t
      using that rl queuedD(2) [OF q, of t] kwfD(6) [OF kwf] by (auto simp: st split: if_splits)
    show "idle_thread k \<noteq> Some t" if "t \<in> set rl" for t using that rl queuedD(3) [OF q, of t] by (auto split: if_splits)
    show "t \<in> set rl \<or> idle_thread k = Some t" if "st ?k t = Some THREAD_READY" for t
      using that rl queuedD(4) [OF q, of t] by (auto simp: st split: if_splits)
    show "distinct (waiters (sm s))" for s using ws [of s] queuedD(5) [OF q, of s] kwfD(7) [OF kwf, of s] by auto
    show "st ?k t = Some THREAD_BLOCKED" if "t \<in> set (waiters (sm s))" for s t
      using that ws [of s] W queuedD(6) [OF q, of t s] kwfD(7) [OF kwf, of s] by (auto simp: st split: if_splits)
    show "idle_thread k \<noteq> Some t" if "t \<in> set (waiters (sm s))" for s t
      using that ws [of s] W queuedD(7) [OF q, of t s] by (auto split: if_splits)
    show "s = s'" if "t \<in> set (waiters (sm s))" "t \<in> set (waiters (sm s'))" for s s' t
      using that ws [of s] ws [of s'] queuedD(8) [OF q, of t s s'] kwfD(7) [OF kwf, of s] kwfD(7) [OF kwf, of s'] by (auto split: if_splits)
  qed
  have al': "alive ?k t \<longleftrightarrow> (if t = cur k then S \<noteq> THREAD_DYING else alive k t)" for t
    using S by (cases S) (auto simp: alive_def st)
  have "t \<in> set al \<longleftrightarrow> alive ?k t" for t
    using al al' [of t] saneD(4) [OF sn] saneD(5) [OF sn, of t] kwfD(8) [OF kwf] by (auto simp: set_remove1_eq)
  moreover have "distinct al" using al saneD(4) [OF sn] by (simp add: distinct_remove1)
  moreover have "\<exists>i. idle_thread k = Some i \<and> alive ?k i" using saneD(6) [OF sn] al' X by metis
  moreover have "magic th = THREAD_MAGIC \<and> (t \<noteq> cur k \<longrightarrow> status th \<noteq> THREAD_DYING \<longrightarrow> old_level th)" if "threads ?k t = Some th" for t th
    using that saneD(2,3) [OF sn, of t] by (auto simp: stepped_def split: if_splits)
  ultimately have "sane ?k" unfolding sane_def stepped_sel using q' kwfD(4) [OF kwf] by blast
  moreover have "st ?k t \<noteq> Some THREAD_RUNNING" for t using S kwfD(3) [OF kwf, of t] by (simp add: st)
  moreover have "\<exists>th. threads ?k (cur ?k) = Some th \<and> (status th \<noteq> THREAD_DYING \<longrightarrow> old_level th)"
    using kwfD(5) [OF kwf] by (auto simp: stepped_def)
  ultimately show ?thesis by (simp add: leaving_def)
qed

lemma chosen_exists: "sane k \<Longrightarrow> \<exists>n rl. chosen k n rl"
  using saneD(6) [of k] by (cases "ready_list k") (auto simp: chosen_def)

text \<open>What a switch away from a thread that stepped down to \<open>S\<close> leaves.\<close>

definition moved :: "thread_status \<Rightarrow> (sema_id \<Rightarrow> semaphore) \<Rightarrow> kst \<Rightarrow> kst \<Rightarrow> bool" where
  "moved S sm k k' \<longleftrightarrow> kwf k' \<and> semas k' = sm \<and> holder k' = holder k \<and> conds k' = conds k \<and> idle_thread k' = idle_thread k \<and>
     initial_thread k' = initial_thread k \<and> (\<forall>t. alive k' t \<longleftrightarrow> (if t = cur k then S \<noteq> THREAD_DYING else alive k t)) \<and>
     ((if cur k' = cur k then S = THREAD_READY else st k (cur k') = Some THREAD_READY) \<or> idle_thread k = Some (cur k')) \<and>
     (\<forall>t. st k' t = (if t = cur k' then Some THREAD_RUNNING
                     else if t = cur k then if S = THREAD_DYING \<and> t \<noteq> initial_thread k then None else Some S
                     else st k t))"

lemma moved_schedule:
  assumes "kwf k" "leaving (stepped S rl al sm k)"
  shows "\<exists>k'. do { k \<leftarrow> schedule (stepped S rl al sm k); restore_level k } = Some k' \<and> moved S sm k k'"
proof -
  let ?k = "stepped S rl al sm k"
  obtain n r where c: "chosen ?k n r" using chosen_exists assms(2) unfolding leaving_def by blast
  note ss = st_switched [OF assms(2) c] and sd = st_stepped [OF assms(1), of S rl al sm]
  have sn: "sane ?k" and nr: "S \<noteq> THREAD_RUNNING" using assms(2) sd [of "cur k"] unfolding leaving_def by auto
  note ch = chosen_alive [OF sn c]
  have al: "alive (switched n r ?k) t \<longleftrightarrow> (if t = cur k then S \<noteq> THREAD_DYING else alive k t)" for t
  proof -
    have n: "if n = cur k then S \<noteq> THREAD_DYING else alive k n" using ch(1) nr by (auto simp: alive_def sd)
    show ?thesis
    proof (cases "t = n")
      case True
      then show ?thesis using n by (auto simp: alive_def ss)
    next
      case False
      then have "st (switched n r ?k) t = (if t = cur k then if S = THREAD_DYING \<and> t \<noteq> initial_thread k then None else Some S else st k t)"
        by (simp add: ss sd freed_def)
      then show ?thesis using nr by (cases S) (simp_all add: alive_def)
    qed
  qed
  have "moved S sm k (switched n r ?k)" unfolding moved_def switched_sel stepped_sel
    using switched_kwf [OF assms(2) c] al ch(6) by (auto simp: ss sd freed_def split: if_splits)
  then show ?thesis using schedule_switched [OF assms(2) c] by blast
qed

lemma thread_current_kwf: "kwf k \<Longrightarrow> thread_current k = Some (cur k)"
  using kwfD(5) [of k] by (auto simp: thread_current_def is_thread_def)

lemma schedule_cong: "k = k' \<Longrightarrow> Option.bind (schedule k) f = Option.bind (schedule k') f"
  by simp

lemma thread_yield_ok:
  assumes "kwf k"
  shows "\<exists>k'. thread_yield k = Some k' \<and> moved THREAD_READY (semas k) k k'"
proof -
  let ?rl = "if idle_thread k \<noteq> Some (cur k) then ready_list k @ [cur k] else ready_list k"
  have l: "leaving (stepped THREAD_READY ?rl (all_list k) (semas k) k)"
    by (rule leaving_stepped [OF assms, where W = None]) auto
  obtain th where th: "threads k (cur k) = Some th" using kwfD(5) [OF assms] by blast
  have "thread_yield k = do { k \<leftarrow> schedule (stepped THREAD_READY ?rl (all_list k) (semas k) k); restore_level k }"
    using th kwfD(2,4) [OF assms] by (auto simp: thread_yield_def thread_current_kwf [OF assms] intr_context_def save_level_def Let_def
      intr_disable_def upd_thread_def stepped_def intro!: schedule_cong kst.equality)
  then show ?thesis using moved_schedule [OF assms l] by simp
qed

lemma idle_round_ok:
  assumes "kwf k"
  shows "\<exists>k'. idle_round k = Some k' \<and> moved THREAD_BLOCKED (semas k) k k'"
proof -
  have l: "leaving (stepped THREAD_BLOCKED (ready_list k) (all_list k) (semas k) k)"
    by (rule leaving_stepped [OF assms, where W = None]) auto
  obtain th where th: "threads k (cur k) = Some th" "status th = THREAD_RUNNING" "magic th = THREAD_MAGIC" using kwfD(5) [OF assms] by blast
  have "idle_round k = do { k \<leftarrow> schedule (stepped THREAD_BLOCKED (ready_list k) (all_list k) (semas k) k); restore_level k }"
    using th kwfD(2,4) [OF assms] by (auto simp: idle_round_def thread_block_def thread_current_def is_thread_def intr_context_def intr_get_level_def Let_def
      intr_disable_def upd_thread_def stepped_def intro!: schedule_cong kst.equality)
  then show ?thesis using moved_schedule [OF assms l] by simp
qed

lemma thread_exit_tail_ok:
  assumes "kwf k" "idle_thread k \<noteq> Some (cur k)"
  shows "\<exists>k'. thread_exit_tail k = Some k' \<and> moved THREAD_DYING (semas k) k k'"
proof -
  have l: "leaving (stepped THREAD_DYING (ready_list k) (remove1 (cur k) (all_list k)) (semas k) k)"
    by (rule leaving_stepped [OF assms(1), where W = None]) (use assms(2) in auto)
  obtain th where th: "threads k (cur k) = Some th" "status th = THREAD_RUNNING" "magic th = THREAD_MAGIC" using kwfD(5) [OF assms(1)] by blast
  have "thread_exit_tail k = do { k \<leftarrow> schedule (stepped THREAD_DYING (ready_list k) (remove1 (cur k) (all_list k)) (semas k) k); restore_level k }"
    using th kwfD(2,4) [OF assms(1)] by (auto simp: thread_exit_tail_def thread_current_def is_thread_def Let_def
      intr_disable_def upd_thread_def stepped_def intro!: schedule_cong kst.equality)
  then show ?thesis using moved_schedule [OF assms(1) l] by simp
qed

subsection \<open>Semaphores\<close>

text \<open>An operation that does not switch: only queues and statuses of other threads may have changed.\<close>

definition kept :: "(sema_id \<Rightarrow> semaphore) \<Rightarrow> nat option \<Rightarrow> kst \<Rightarrow> kst \<Rightarrow> bool" where
  "kept sm w k k' \<longleftrightarrow> kwf k' \<and> cur k' = cur k \<and> semas k' = sm \<and> holder k' = holder k \<and> conds k' = conds k \<and>
     idle_thread k' = idle_thread k \<and> initial_thread k' = initial_thread k \<and>
     (\<forall>t. st k' t = (if w = Some t then Some THREAD_READY else st k t))"

definition add_waiter :: "sema_id \<Rightarrow> nat \<Rightarrow> kst \<Rightarrow> (sema_id \<Rightarrow> semaphore)" where
  "add_waiter s t k = (semas k)(s := (semas k s)\<lparr>waiters := waiters (semas k s) @ [t]\<rparr>)"

definition take_one :: "sema_id \<Rightarrow> kst \<Rightarrow> (sema_id \<Rightarrow> semaphore)" where
  "take_one s k = (semas k)(s := (semas k s)\<lparr>sval := sval (semas k s) - 1\<rparr>)"

definition give_one :: "sema_id \<Rightarrow> kst \<Rightarrow> (sema_id \<Rightarrow> semaphore)" where
  "give_one s k = (semas k)(s := \<lparr>sval = sz_add (sval (semas k s)) 1, waiters = tl (waiters (semas k s))\<rparr>)"

lemma sema_down_sleeps:
  assumes "kwf k" "idle_thread k \<noteq> Some (cur k)" "sval (semas k s) = 0"
  shows "\<exists>k'. sema_down s k = Some (False, k') \<and> moved THREAD_BLOCKED (add_waiter s (cur k) k) k k'"
proof -
  let ?k = "stepped THREAD_BLOCKED (ready_list k) (all_list k) (add_waiter s (cur k) k) k"
  have l: "leaving ?k"
    by (rule leaving_stepped [OF assms(1), where W = "Some s"]) (use assms(2) in \<open>auto simp: add_waiter_def\<close>)
  obtain th where th: "threads k (cur k) = Some th" "status th = THREAD_RUNNING" "magic th = THREAD_MAGIC" using kwfD(5) [OF assms(1)] by blast
  have d: "sema_down s k = do { k \<leftarrow> do { k \<leftarrow> schedule ?k; restore_level k }; Some (False, k) }"
    using th kwfD(2,4) [OF assms(1)] assms(3) by (auto simp: sema_down_def thread_block_def thread_current_def is_thread_def intr_context_def
      intr_get_level_def save_level_def set_sema_def add_waiter_def Let_def intr_disable_def upd_thread_def stepped_def
      intro!: schedule_cong kst.equality)
  obtain k' where "do { k \<leftarrow> schedule ?k; restore_level k } = Some k'" "moved THREAD_BLOCKED (add_waiter s (cur k) k) k k'"
    using moved_schedule [OF assms(1) l] by blast
  then show ?thesis unfolding d by simp
qed

lemma kwf_keep:
  assumes "kwf k" "cur k' = cur k" "ready_list k' = ready_list k" "all_list k' = all_list k" "idle_thread k' = idle_thread k"
    "\<And>s. set (waiters (semas k' s)) \<subseteq> set (waiters (semas k s)) \<and> distinct (waiters (semas k' s))"
    "intr_on k'" "in_external_intr k' = in_external_intr k"
    "\<And>t. t \<noteq> cur k \<Longrightarrow> threads k' t = threads k t"
    "\<exists>th. threads k' (cur k) = Some th \<and> status th = THREAD_RUNNING \<and> magic th = THREAD_MAGIC"
  shows "kwf k'" "st k' = st k"
proof -
  note sn = kwfD(1) [OF assms(1)]
  note q = saneD(1) [OF sn]
  show st: "st k' = st k"
  proof
    fix t show "st k' t = st k t"
      using assms(9) [of t] assms(10) kwfD(3) [OF assms(1), of "cur k"] by (cases "t = cur k") (auto simp: st_def)
  qed
  have al: "alive k' = alive k" by (simp add: alive_def st fun_eq_iff)
  have "queued k'" unfolding queued_def assms(3,5) st
    using q assms(6) unfolding queued_def by blast
  moreover have "magic th = THREAD_MAGIC \<and> (t \<noteq> cur k \<longrightarrow> status th \<noteq> THREAD_DYING \<longrightarrow> old_level th)" if "threads k' t = Some th" for t th
    using that saneD(2,3) [OF sn, of t th] assms(9) [of t] assms(10) by (cases "t = cur k") auto
  ultimately have "sane k'" using sn unfolding sane_def assms(2,4,5,8) al by blast
  then show "kwf k'" using assms(1,2,7) by (simp add: kwf_def st)
qed

lemma sema_down_takes:
  assumes "kwf k" "0 < sval (semas k s)"
  shows "\<exists>k'. sema_down s k = Some (True, k') \<and> kept (take_one s k) None k k'"
proof -
  obtain th where th: "threads k (cur k) = Some th" "status th = THREAD_RUNNING" "magic th = THREAD_MAGIC" using kwfD(5) [OF assms(1)] by blast
  let ?k = "k\<lparr>threads := (threads k)(cur k \<mapsto> th\<lparr>old_level := True\<rparr>), semas := take_one s k, intr_on := True\<rparr>"
  have "sema_down s k = Some (True, ?k)"
    using th kwfD(2,4) [OF assms(1)] assms(2) by (auto simp: sema_down_def intr_context_def save_level_def restore_level_def set_sema_def
      take_one_def Let_def intr_disable_def intr_set_level_def intr_enable_def upd_thread_def intro!: kst.equality)
  moreover have "kwf ?k" "st ?k = st k"
    by (rule kwf_keep [OF assms(1)]; use th queuedD(5) [OF saneD(1) [OF kwfD(1) [OF assms(1)]]] in \<open>auto simp: take_one_def\<close>)+
  ultimately show ?thesis by (auto simp: kept_def)
qed

lemma kwf_woken:
  assumes "kwf k" and b: "st k w = Some THREAD_BLOCKED" "idle_thread k \<noteq> Some w" and th: "threads k w = Some th"
    and sub: "\<And>x t. t \<in> set (waiters (sm x)) \<Longrightarrow> t \<in> set (waiters (semas k x)) \<and> t \<noteq> w" and d: "\<And>x. distinct (waiters (sm x))"
    and k': "k' = k\<lparr>threads := (threads k)(w \<mapsto> th\<lparr>status := THREAD_READY\<rparr>), ready_list := ready_list k @ [w], semas := sm\<rparr>"
  shows "kept sm (Some w) k k'"
proof -
  note sn = kwfD(1) [OF assms(1)]
  note q = saneD(1) [OF sn]
  have nr: "w \<notin> set (ready_list k)" "w \<noteq> cur k" using queuedD(2) [OF q, of w] b(1) kwfD(3) [OF assms(1), of w] by auto
  have st: "st k' t = (if t = w then Some THREAD_READY else st k t)" for t by (simp add: k' st_def)
  have sel: "ready_list k' = ready_list k @ [w]" "idle_thread k' = idle_thread k" "all_list k' = all_list k" "cur k' = cur k"
    "in_external_intr k' = in_external_intr k" "intr_on k' = intr_on k" "semas k' = sm" by (simp_all add: k')
  have "queued k'" unfolding queued_def sel
  proof (intro conjI allI ballI impI)
    show "distinct (ready_list k @ [w])" using nr queuedD(1) [OF q] by simp
    show "st k' t = Some THREAD_READY" if "t \<in> set (ready_list k @ [w])" for t using that queuedD(2) [OF q, of t] by (auto simp: st)
    show "idle_thread k \<noteq> Some t" if "t \<in> set (ready_list k @ [w])" for t using that b(2) queuedD(3) [OF q, of t] by auto
    show "t \<in> set (ready_list k @ [w]) \<or> idle_thread k = Some t" if "st k' t = Some THREAD_READY" for t
      using that queuedD(4) [OF q, of t] by (auto simp: st split: if_splits)
    show "distinct (waiters (sm x))" for x by (rule d)
    show "st k' t = Some THREAD_BLOCKED" if "t \<in> set (waiters (sm x))" for x t
      using sub [OF that] queuedD(6) [OF q, of t x] by (auto simp: st)
    show "idle_thread k \<noteq> Some t" if "t \<in> set (waiters (sm x))" for x t using sub [OF that] queuedD(7) [OF q, of t x] by blast
    show "x = y" if "t \<in> set (waiters (sm x))" "t \<in> set (waiters (sm y))" for x y t
      using sub [OF that(1)] sub [OF that(2)] queuedD(8) [OF q, of t x y] by blast
  qed
  moreover have al: "alive k' t = alive k t" for t using b(1) by (auto simp: alive_def st)
  moreover have "magic z = THREAD_MAGIC \<and> (t \<noteq> cur k \<longrightarrow> status z \<noteq> THREAD_DYING \<longrightarrow> old_level z)" if "threads k' t = Some z" for t z
    using that saneD(2,3) [OF sn, of t] th b(1) by (cases "t = w") (auto simp: k' st_Some)
  ultimately have "sane k'" using sn unfolding sane_def sel al by blast
  moreover have "st k' t = Some THREAD_RUNNING \<longleftrightarrow> t = cur k'" for t using kwfD(3) [OF assms(1), of t] nr(2) by (auto simp: st sel)
  ultimately have "kwf k'" using kwfD(2) [OF assms(1)] by (simp add: kwf_def sel)
  then show ?thesis by (simp add: kept_def st) (simp add: k')
qed

lemma sema_up_ok:
  assumes "kwf k"
  shows "\<exists>k'. sema_up s k = Some k' \<and> kept (give_one s k) (case waiters (semas k s) of [] \<Rightarrow> None | w # _ \<Rightarrow> Some w) k k'"
proof (cases "waiters (semas k s)")
  case Nil
  let ?k = "k\<lparr>semas := give_one s k\<rparr>"
  have "sema_up s k = Some ?k"
    using Nil kwfD(2,4) [OF assms(1)] by (auto simp: sema_up_def set_sema_def give_one_def Let_def intr_disable_def intr_set_level_def
        intr_enable_def intr_context_def fun_eq_iff intro!: kst.equality semaphore.equality)
  moreover have "kwf ?k" "st ?k = st k"
    by (rule kwf_keep [OF assms(1)]; use kwfD(2,5) [OF assms(1)] queuedD(5) [OF saneD(1) [OF kwfD(1) [OF assms(1)]]] Nil in \<open>auto simp: give_one_def\<close>)+
  ultimately show ?thesis using Nil by (auto simp: kept_def)
next
  case (Cons w ws)
  note q = saneD(1) [OF kwfD(1) [OF assms]]
  obtain th where th: "threads k w = Some th" "status th = THREAD_BLOCKED" using queuedD(6) [OF q, of w s] Cons by (auto simp: st_Some)
  let ?k = "k\<lparr>threads := (threads k)(w \<mapsto> th\<lparr>status := THREAD_READY\<rparr>), ready_list := ready_list k @ [w], semas := give_one s k\<rparr>"
  have "sema_up s k = Some ?k"
    using Cons th saneD(2) [OF kwfD(1) [OF assms] th(1)] kwfD(2,4) [OF assms]
    by (auto simp: sema_up_def set_sema_def give_one_def Let_def intr_disable_def intr_set_level_def thread_unblock_def is_thread_def upd_thread_def
        intr_enable_def intr_context_def fun_eq_iff intro!: kst.equality semaphore.equality)
  moreover have "t \<in> set (waiters (semas k x)) \<and> t \<noteq> w" if "t \<in> set (waiters (give_one s k x))" for x t
  proof (cases "x = s")
    case True
    then show ?thesis using that Cons queuedD(5) [OF q, of s] by (auto simp: give_one_def)
  next
    case False
    then show ?thesis using that Cons queuedD(8) [OF q, of w s x] by (auto simp: give_one_def)
  qed
  moreover have "distinct (waiters (give_one s k x))" for x
    using queuedD(5) [OF q, of x] by (auto simp: give_one_def intro: distinct_tl)
  moreover have "st k w = Some THREAD_BLOCKED" "idle_thread k \<noteq> Some w" using queuedD(6,7) [OF q, of w s] Cons by simp_all
  ultimately have "sema_up s k = Some ?k" "kept (give_one s k) (Some w) k ?k"
    using kwf_woken [OF assms _ _ th(1), of "give_one s k"] by blast+
  then show ?thesis using Cons by auto
qed

lemma sema_try_down_ok:
  assumes "kwf k"
  shows "\<exists>k'. sema_try_down s k = Some (0 < sval (semas k s), k') \<and> kept (if 0 < sval (semas k s) then take_one s k else semas k) None k k'"
proof -
  let ?k = "k\<lparr>semas := if 0 < sval (semas k s) then take_one s k else semas k\<rparr>"
  have "sema_try_down s k = Some (0 < sval (semas k s), ?k)"
    using kwfD(2,4) [OF assms(1)] by (auto simp: sema_try_down_def set_sema_def take_one_def Let_def intr_disable_def intr_set_level_def
        intr_enable_def intr_context_def intro!: kst.equality)
  moreover have "kwf ?k" "st ?k = st k"
    by (rule kwf_keep [OF assms(1)]; use kwfD(2,5) [OF assms(1)] queuedD(5) [OF saneD(1) [OF kwfD(1) [OF assms(1)]]] in \<open>auto simp: take_one_def\<close>)+
  ultimately show ?thesis by (auto simp: kept_def)
qed

end
