(* ===== verification/Sched_Step.thy ===== *)
theory Sched_Step
  imports Sched
begin

text \<open>
  The kernel as a machine of threads: in each step the running thread executes the next atomic step of the operation it is
  in, or calls a new operation, or creates a thread, or a timer interrupt arrives. Every interleaving keeps
  the invariant of the scheduler, and the scheduler never stops the kernel.
\<close>

subsection \<open>Operations that do not switch\<close>

lemma kwf_same:
  assumes "kwf k" "threads k' = threads k" "cur k' = cur k" "ready_list k' = ready_list k" "all_list k' = all_list k"
    "idle_thread k' = idle_thread k" "semas k' = semas k" "intr_on k'" "in_external_intr k' = in_external_intr k"
  shows "kwf k'" "st k' = st k"
  by (rule kwf_keep [OF assms(1)]; use assms kwfD(5) [OF assms(1)] queuedD(5) [OF saneD(1) [OF kwfD(1) [OF assms(1)]]] in simp)+

lemma kwf_set_holder: "kwf k \<Longrightarrow> kwf (set_holder l h k)" "kwf k \<Longrightarrow> st (set_holder l h k) = st k"
  by (rule kwf_same; use kwfD(2) [of k] in \<open>auto simp: set_holder_def\<close>)+

lemma kwf_sema_init:
  assumes "kwf k"
  shows "kwf (sema_init s v k)" "st (sema_init s v k) = st k"
  by (rule kwf_keep [OF assms]; use kwfD(2,5) [OF assms] queuedD(5) [OF saneD(1) [OF kwfD(1) [OF assms]]] in \<open>auto simp: sema_init_def set_sema_def\<close>)+

text \<open>A field of a thread other than its status, its mark and its saved level.\<close>

lemma kwf_upd_thread:
  assumes "kwf k" "threads k t = Some th" "status (f th) = status th" "magic (f th) = magic th" "old_level (f th) = old_level th"
  shows "kwf (k\<lparr>threads := (threads k)(t \<mapsto> f th)\<rparr>)" "st (k\<lparr>threads := (threads k)(t \<mapsto> f th)\<rparr>) = st k"
proof -
  let ?k = "k\<lparr>threads := (threads k)(t \<mapsto> f th)\<rparr>"
  show st: "st ?k = st k" using assms(2,3) by (auto simp: st_def)
  have al: "alive ?k = alive k" by (simp add: alive_def st fun_eq_iff)
  have q: "queued ?k = queued k" by (simp add: queued_def st)
  note sn = kwfD(1) [OF assms(1)]
  have "magic z = THREAD_MAGIC \<and> (u \<noteq> cur k \<longrightarrow> status z \<noteq> THREAD_DYING \<longrightarrow> old_level z)" if "threads ?k u = Some z" for u z
    using that saneD(2,3) [OF sn, of u] assms by (cases "u = t") auto
  then have "sane ?k" using sn unfolding sane_def by (simp add: q al)
  then show "kwf ?k" using assms(1) by (simp add: kwf_def st)
qed

text \<open>Making a blocked thread ready that waits for no semaphore.\<close>

lemma thread_unblock_ok:
  assumes "kwf k" "st k t = Some THREAD_BLOCKED" "idle_thread k \<noteq> Some t" "\<And>s. t \<notin> set (waiters (semas k s))"
  shows "\<exists>k'. thread_unblock t k = Some k' \<and> kept (semas k) (Some t) k k'"
proof -
  obtain th where th: "threads k t = Some th" "status th = THREAD_BLOCKED" using assms(2) by (auto simp: st_Some)
  let ?k' = "k\<lparr>threads := (threads k)(t \<mapsto> th\<lparr>status := THREAD_READY\<rparr>), ready_list := ready_list k @ [t]\<rparr>"
  have "kept (semas k) (Some t) k ?k'"
    using assms(4) th queuedD(5) [OF saneD(1) [OF kwfD(1) [OF assms(1)]]] by (intro kwf_woken [OF assms(1-3)]) auto
  moreover have "thread_unblock t k = Some ?k'"
    using th saneD(2) [OF kwfD(1) [OF assms(1)] th(1)] kwfD(2,4) [OF assms(1)]
    by (auto simp: thread_unblock_def is_thread_def upd_thread_def Let_def intr_disable_def intr_set_level_def intr_enable_def intr_context_def intro!: kst.equality)
  ultimately show ?thesis by blast
qed

subsection \<open>Creating a thread\<close>

lemma init_thread_ok:
  assumes "kwf k" "threads k t = None" "t \<noteq> 0" "PRI_MIN \<le> prio" "prio \<le> PRI_MAX"
  shows "\<exists>k'. init_thread t nm prio k = Some k' \<and> kwf k' \<and> st k' = (st k)(t \<mapsto> THREAD_BLOCKED) \<and>
    k' = k\<lparr>threads := threads k', all_list := all_list k'\<rparr> \<and> (\<forall>u. u \<noteq> t \<longrightarrow> threads k' u = threads k u)"
proof -
  obtain k' th where k': "init_thread t nm prio k = Some k'" "k' = k\<lparr>threads := (threads k)(t \<mapsto> th), all_list := all_list k @ [t]\<rparr>"
      "status th = THREAD_BLOCKED" "magic th = THREAD_MAGIC" "old_level th"
    using assms(3-5) by (auto simp: init_thread_def Let_def)
  have st: "st k' = (st k)(t \<mapsto> THREAD_BLOCKED)" using k'(2,3) by (auto simp: st_def)
  have none: "st k t = None" using assms(2) by (simp add: st_def)
  note sn = kwfD(1) [OF assms(1)]
  note q = saneD(1) [OF sn]
  have stu: "st k' u = (if u = t then Some THREAD_BLOCKED else st k u)" for u by (simp add: st)
  have sel: "ready_list k' = ready_list k" "idle_thread k' = idle_thread k" "semas k' = semas k" "cur k' = cur k"
      "in_external_intr k' = in_external_intr k" "intr_on k' = intr_on k" "all_list k' = all_list k @ [t]" by (simp_all add: k'(2))
  have nt: "t \<notin> set (ready_list k)" "t \<notin> set (waiters (semas k s))" "idle_thread k \<noteq> Some t" "t \<noteq> cur k" for s
    using queuedD(2) [OF q, of t] queuedD(6) [OF q, of t s] saneD(6) [OF sn] none kwfD(3) [OF assms(1), of t] by (auto simp: alive_def)
  have "queued k'" unfolding queued_def sel
  proof (intro conjI allI ballI impI)
    show "st k' u = Some THREAD_READY" "idle_thread k \<noteq> Some u" if "u \<in> set (ready_list k)" for u
      using that nt(1) queuedD(2,3) [OF q, of u] by (auto simp: stu)
    show "u \<in> set (ready_list k) \<or> idle_thread k = Some u" if "st k' u = Some THREAD_READY" for u
      using that queuedD(4) [OF q, of u] by (auto simp: stu split: if_splits)
    show "st k' u = Some THREAD_BLOCKED" "idle_thread k \<noteq> Some u" if "u \<in> set (waiters (semas k s))" for s u
      using queuedD(6,7) [OF q that] by (auto simp: stu)
    show "s = s'" if "u \<in> set (waiters (semas k s))" "u \<in> set (waiters (semas k s'))" for s s' u using that by (rule queuedD(8) [OF q])
  qed (rule queuedD [OF q])+
  moreover have al: "alive k' u \<longleftrightarrow> u = t \<or> alive k u" for u by (auto simp: alive_def stu)
  moreover have "t \<notin> set (all_list k)" using saneD(5) [OF sn, of t] none by (simp add: alive_def)
  moreover have "magic z = THREAD_MAGIC \<and> (u \<noteq> cur k \<longrightarrow> status z \<noteq> THREAD_DYING \<longrightarrow> old_level z)" if "threads k' u = Some z" for u z
    using that saneD(2,3) [OF sn, of u] k' by (cases "u = t") auto
  ultimately have "sane k'" using sn unfolding sane_def sel al by auto
  moreover have "st k' u = Some THREAD_RUNNING \<longleftrightarrow> u = cur k'" for u using kwfD(3) [OF assms(1), of u] nt(4) by (auto simp: stu sel)
  ultimately have "kwf k'" using kwfD(2) [OF assms(1)] by (simp add: kwf_def sel)
  then show ?thesis using k' st by auto
qed

text \<open>The lock for identifiers is free whenever no thread is inside \<open>allocate_tid\<close>.\<close>

definition tid_lock_free :: "kst \<Rightarrow> bool" where
  "tid_lock_free k \<longleftrightarrow> semas k (Lock_sema Tid_lock) = \<lparr>sval = 1, waiters = []\<rparr> \<and> holder k Tid_lock = None"

lemma allocate_tid_ok:
  assumes "kwf k" "tid_lock_free k"
  shows "\<exists>i k'. allocate_tid k = Some (i, k') \<and> kwf k' \<and> st k' = st k \<and> cur k' = cur k \<and> semas k' = semas k \<and> holder k' = holder k \<and>
    conds k' = conds k \<and> idle_thread k' = idle_thread k \<and> initial_thread k' = initial_thread k"
proof -
  let ?s = "Lock_sema Tid_lock"
  obtain k1 where k1: "sema_down ?s k = Some (True, k1)" "kept (take_one ?s k) None k k1"
    using sema_down_takes [OF assms(1), of ?s] assms(2) by (auto simp: tid_lock_free_def)
  then have w1: "kwf k1" "cur k1 = cur k" "st k1 = st k" by (auto simp: kept_def fun_eq_iff)
  let ?k2 = "set_holder Tid_lock None ((set_holder Tid_lock (Some (cur k)) k1)\<lparr>next_tid := next_tid k1 + 1\<rparr>)"
  have w2: "kwf ?k2" "st ?k2 = st k1" by (rule kwf_same [OF w1(1)]; use kwfD(2) [OF w1(1)] in \<open>simp add: set_holder_def\<close>)+
  obtain k3 where k3: "sema_up ?s ?k2 = Some k3" "kept (give_one ?s ?k2) (case waiters (semas ?k2 ?s) of [] \<Rightarrow> None | w # _ \<Rightarrow> Some w) ?k2 k3"
    using sema_up_ok [OF w2(1)] by blast
  have sm: "semas ?k2 = take_one ?s k" using k1(2) by (simp add: set_holder_def kept_def)
  have g: "give_one ?s ?k2 = semas k" using assms(2) unfolding give_one_def sm by (auto simp: take_one_def tid_lock_free_def sz_add_def)
  have wn: "waiters (semas ?k2 ?s) = []" unfolding sm using assms(2) by (simp add: take_one_def tid_lock_free_def)
  have "allocate_tid k = Some (next_tid k1, k3)"
    using k1(1) k3(1) assms(2) by (simp add: allocate_tid_def lock_held_by_current_thread_def thread_current_kwf [OF assms(1)]
        thread_current_kwf [OF w1(1)] w1(2) tid_lock_free_def Let_def set_holder_def)
  moreover have "st k3 = st k" using k3(2) wn w1(3) w2(2) by (auto simp: kept_def fun_eq_iff)
  moreover have "holder ?k2 = holder k" using k1(2) assms(2) by (auto simp: set_holder_def kept_def tid_lock_free_def fun_eq_iff)
  ultimately show ?thesis using k3(2) k1(2) w1 g by (auto simp: kept_def set_holder_def)
qed

lemma kept_upd:
  assumes "kwf k" "st k t \<noteq> None" "\<And>th. status (f th) = status th \<and> magic (f th) = magic th \<and> old_level (f th) = old_level th"
  shows "\<exists>k'. upd_thread t f k = Some k' \<and> kept (semas k) None k k'"
proof -
  obtain th where th: "threads k t = Some th" using assms(2) by (auto simp: st_def)
  then show ?thesis using kwf_upd_thread [OF assms(1) th, of f] assms(3) by (auto simp: upd_thread_def kept_def)
qed

lemma alloc_frame_ok:
  assumes "kwf k" "st k t \<noteq> None" "n mod 4 = 0"
  shows "\<exists>a k'. alloc_frame t n k = Some (a, k') \<and> kept (semas k) None k k'"
proof -
  obtain th where th: "threads k t = Some th" using assms(2) by (auto simp: st_def)
  obtain k' where k': "upd_thread t (\<lambda>th. th\<lparr>stack := stack th - n\<rparr>) k = Some k'" "kept (semas k) None k k'"
    using kept_upd [OF assms(1,2), of "\<lambda>th. th\<lparr>stack := stack th - n\<rparr>"] by auto
  then show ?thesis using th saneD(2) [OF kwfD(1) [OF assms(1)] th] assms(3) by (auto simp: alloc_frame_def is_thread_def upd_thread_def)
qed

definition new_semas :: "nat \<Rightarrow> nat \<Rightarrow> kst \<Rightarrow> (sema_id \<Rightarrow> semaphore)" where
  "new_semas t p k = (semas k)(Setup t := \<lparr>sval = 1, waiters = []\<rparr>, Sig p := \<lparr>sval = 0, waiters = []\<rparr>,
     Lock_sema (Share_lock p) := \<lparr>sval = 1, waiters = []\<rparr>, Successload p := \<lparr>sval = 0, waiters = []\<rparr>)"

text \<open>The state of a new thread between its registration and its being made ready.\<close>

definition built :: "nat \<Rightarrow> kst \<Rightarrow> kst \<Rightarrow> bool" where
  "built t k k' \<longleftrightarrow> kwf k' \<and> st k' = (st k)(t \<mapsto> THREAD_BLOCKED) \<and> cur k' = cur k \<and> conds k' = conds k \<and>
     idle_thread k' = idle_thread k \<and> initial_thread k' = initial_thread k"

lemma built_kept: "built t k k1 \<Longrightarrow> kept sm None k1 k2 \<Longrightarrow> built t k k2"
  by (auto simp: built_def kept_def fun_eq_iff)

lemma setup_frames_ok:
  assumes "built t k k1"
  shows "\<exists>k'. setup_frames t k1 = Some k' \<and> built t k k' \<and> semas k' = semas k1 \<and> holder k' = holder k1"
proof -
  have f: "\<exists>a k2. alloc_frame t n k1 = Some (a, k2) \<and> built t k k2 \<and> semas k2 = semas k1 \<and> holder k2 = holder k1"
    if b: "built t k k1" and n: "n mod 4 = 0" for k1 n
  proof -
    obtain a k2 where "alloc_frame t n k1 = Some (a, k2)" "kept (semas k1) None k1 k2"
      using alloc_frame_ok [of k1 t n] b n by (auto simp: built_def)
    then show ?thesis using built_kept [OF b] by (auto simp: kept_def)
  qed
  obtain a2 k2 where 2: "alloc_frame t 12 k1 = Some (a2, k2)" "built t k k2" "semas k2 = semas k1" "holder k2 = holder k1" using f [OF assms, of 12] by auto
  obtain a3 k3 where 3: "alloc_frame t 4 k2 = Some (a3, k3)" "built t k k3" "semas k3 = semas k2" "holder k3 = holder k2" using f [OF 2(2), of 4] by auto
  obtain a4 k4 where "alloc_frame t 28 k3 = Some (a4, k4)" "built t k k4" "semas k4 = semas k3" "holder k4 = holder k3" using f [OF 3(2), of 28] by auto
  then show ?thesis using 2 3 by (simp add: setup_frames_def)
qed

lemma setup_share_ok:
  assumes "built t k k3" "semas k3 = (semas k)(Setup t := \<lparr>sval = 0, waiters = []\<rparr>)" "holder k3 = holder k"
  shows "\<exists>k'. setup_share t i (Some p) k3 = Some k' \<and> built t k k' \<and> semas k' = new_semas t p k \<and> holder k' = (holder k)(Share_lock p := None)"
proof -
  let ?f = "\<lambda>th. th\<lparr>child_share := [], parent_share := Some p\<rparr>"
  have b3: "kwf k3" "st k3 t \<noteq> None" using assms(1) by (auto simp: built_def)
  obtain k4 where k4: "upd_thread t ?f k3 = Some k4" "kept (semas k3) None k3 k4" using kept_upd [OF b3, of ?f] by auto
  let ?k5 = "k4\<lparr>shares := (shares k4)(p \<mapsto> \<lparr>ps_tid = i, ps_rvalue = 0, refcount = 2, loaded = True\<rparr>)\<rparr>"
  let ?k6 = "sema_init (Successload p) 0 (lock_init (Share_lock p) (sema_init (Sig p) 0 ?k5))"
  have "built t k ?k5" using built_kept [OF assms(1) k4(2)] kwf_same [of k4 ?k5] kwfD(2) [of k4] by (simp add: built_def)
  then have b6: "built t k ?k6" by (simp add: built_def kwf_sema_init kwf_set_holder lock_init_def) (simp add: sema_init_def set_sema_def set_holder_def)
  obtain k7 where k7: "sema_up (Setup t) ?k6 = Some k7" "kept (give_one (Setup t) ?k6) (case waiters (semas ?k6 (Setup t)) of [] \<Rightarrow> None | w # _ \<Rightarrow> Some w) ?k6 k7"
    using sema_up_ok b6 unfolding built_def by blast
  have sm6: "semas ?k6 (Setup t) = \<lparr>sval = 0, waiters = []\<rparr>"
    using k4(2) assms(2) by (simp add: kept_def sema_init_def set_sema_def lock_init_def set_holder_def)
  have k7': "kept (give_one (Setup t) ?k6) None ?k6 k7" using k7(2) sm6 by simp
  have "semas k7 = new_semas t p k" "holder k7 = (holder k)(Share_lock p := None)"
    using k7' k4(2) assms(2,3)
    by (auto simp: kept_def give_one_def new_semas_def sema_init_def set_sema_def lock_init_def set_holder_def sz_add_def fun_eq_iff)
  moreover have "setup_share t i (Some p) k3 = Some k7" using k4(1) k7(1) by (simp add: setup_share_def Let_def)
  ultimately show ?thesis using built_kept [OF b6 k7'] by blast
qed

lemma thread_create_ok:
  assumes "kwf k" "tid_lock_free k" "threads k t = None" "t \<noteq> 0" "PRI_MIN \<le> prio" "prio \<le> PRI_MAX"
  shows "\<exists>i k'. thread_create nm prio (Some t) (Some p) k = Some (i, k') \<and> kwf k' \<and> st k' = (st k)(t \<mapsto> THREAD_READY) \<and> cur k' = cur k \<and>
    semas k' = new_semas t p k \<and> holder k' = (holder k)(Share_lock p := None) \<and> conds k' = conds k \<and>
    idle_thread k' = idle_thread k \<and> initial_thread k' = initial_thread k"
proof -
  obtain k1 where k1: "init_thread t nm prio k = Some k1" "kwf k1" "st k1 = (st k)(t \<mapsto> THREAD_BLOCKED)"
      "k1 = k\<lparr>threads := threads k1, all_list := all_list k1\<rparr>"
    using init_thread_ok [OF assms(1,3-6)] by blast
  have s1: "cur k1 = cur k" "conds k1 = conds k" "semas k1 = semas k" "holder k1 = holder k" "idle_thread k1 = idle_thread k" "initial_thread k1 = initial_thread k"
    by (subst k1(4), simp)+
  let ?k2 = "sema_init (Setup t) 0 k1"
  have b2: "built t k ?k2" using kwf_sema_init [OF k1(2), of "Setup t" 0] k1(3) s1 by (simp add: built_def sema_init_def set_sema_def)
  have "tid_lock_free ?k2" using assms(2) s1 by (simp add: tid_lock_free_def sema_init_def set_sema_def)
  then obtain i k3 where k3: "allocate_tid ?k2 = Some (i, k3)" "kwf k3" "st k3 = st ?k2" "cur k3 = cur ?k2" "semas k3 = semas ?k2" "holder k3 = holder ?k2"
      "conds k3 = conds ?k2" "idle_thread k3 = idle_thread ?k2" "initial_thread k3 = initial_thread ?k2"
    using allocate_tid_ok [of ?k2] b2 unfolding built_def by blast
  have b3: "built t k k3" "st k3 t \<noteq> None" using b2 k3 by (auto simp: built_def)
  let ?f = "\<lambda>th. th\<lparr>tid := i, rvalue := - 1\<rparr>"
  obtain k4 where k4: "upd_thread t ?f k3 = Some k4" "kept (semas k3) None k3 k4" using kept_upd [OF k3(2) b3(2), of ?f] by auto
  have "semas k4 = (semas k)(Setup t := \<lparr>sval = 0, waiters = []\<rparr>)" "holder k4 = holder k"
    using k4(2) k3(5,6) s1 by (simp_all add: kept_def sema_init_def set_sema_def)
  from setup_share_ok [OF built_kept [OF b3(1) k4(2)] this, of i p] obtain k5 where k5: "setup_share t i (Some p) k4 = Some k5" "built t k k5"
      "semas k5 = new_semas t p k" "holder k5 = (holder k)(Share_lock p := None)" by blast
  obtain k6 where k6: "setup_frames t k5 = Some k6" "built t k k6" "semas k6 = semas k5" "holder k6 = holder k5" using setup_frames_ok [OF k5(2)] by blast
  note sn = kwfD(1) [OF assms(1)]
  have no: "st k t = None" using assms(3) by (simp add: st_def)
  have "t \<notin> set (waiters (semas k6 s))" for s
    using queuedD(6) [OF saneD(1) [OF sn], of t s] no by (auto simp: k6(3) k5(3) new_semas_def)
  moreover have "idle_thread k6 \<noteq> Some t" using saneD(6) [OF sn] no k6(2) by (auto simp: alive_def built_def)
  ultimately obtain k7 where "thread_unblock t k6 = Some k7" "kept (semas k6) (Some t) k6 k7"
    using thread_unblock_ok [of k6 t] k6(2) by (auto simp: built_def)
  then show ?thesis using k1(1) k3(1) k4(1) k5 k6 by (auto simp: thread_create_def Let_def kept_def built_def fun_eq_iff)
qed

subsection \<open>The timer interrupt\<close>

definition same_but_ticks :: "kst \<Rightarrow> kst \<Rightarrow> bool" where
  "same_but_ticks k k' \<longleftrightarrow> threads k' = threads k \<and> cur k' = cur k \<and> ready_list k' = ready_list k \<and> all_list k' = all_list k \<and>
     idle_thread k' = idle_thread k \<and> initial_thread k' = initial_thread k \<and> semas k' = semas k \<and> holder k' = holder k \<and>
     conds k' = conds k \<and> intr_on k' = intr_on k \<and> in_external_intr k' = in_external_intr k"

lemma thread_tick_same:
  assumes "thread_current k = Some t" "threads k t = Some th" "in_external_intr k"
  shows "\<exists>k'. thread_tick k = Some k' \<and> same_but_ticks k k'"
  using assms by (auto simp: thread_tick_def Let_def same_but_ticks_def intr_yield_on_return_def intr_context_def)

lemma moved_same:
  assumes "st k1 = st k" "cur k1 = cur k" "holder k1 = holder k" "conds k1 = conds k" "idle_thread k1 = idle_thread k"
    "initial_thread k1 = initial_thread k" "moved S sm k1 k'"
  shows "moved S sm k k'"
  using assms(7) unfolding moved_def alive_def assms(1-6) .

lemma thread_tick_ok:
  assumes "kwf k"
  shows "\<exists>k'. intr_handler_external thread_tick k = Some k' \<and> (kept (semas k) None k k' \<or> moved THREAD_READY (semas k) k k')"
proof -
  obtain th where th: "threads k (cur k) = Some th" "status th = THREAD_RUNNING" "magic th = THREAD_MAGIC" using kwfD(5) [OF assms] by blast
  let ?h = "k\<lparr>intr_on := False, in_external_intr := True, yield_on_return := False\<rparr>"
  have "thread_current ?h = Some (cur k)" using th by (simp add: thread_current_def is_thread_def)
  then obtain k1 where k1: "thread_tick ?h = Some k1" "same_but_ticks ?h k1" using thread_tick_same [of ?h "cur k" th] th by auto
  let ?k2 = "k1\<lparr>in_external_intr := False, intr_on := True\<rparr>"
  have w2: "kwf ?k2" "st ?k2 = st k" by (rule kwf_same [OF assms]; use k1 kwfD(4) [OF assms] in \<open>simp add: same_but_ticks_def\<close>)+
  have e: "intr_handler_external thread_tick k = (if yield_on_return k1 then thread_yield ?k2 else Some ?k2)"
    using k1 kwfD(2,4) [OF assms] by (simp add: intr_handler_external_def intr_get_level_def intr_context_def Let_def same_but_ticks_def)
  obtain k3 where k3: "thread_yield ?k2 = Some k3" "moved THREAD_READY (semas ?k2) ?k2 k3" using thread_yield_ok [OF w2(1)] by blast
  have "kept (semas k) None k ?k2" using w2 k1 by (simp add: kept_def same_but_ticks_def)
  moreover have "moved THREAD_READY (semas k) k k3" by (rule moved_same [of ?k2]) (use k3(2) k1 w2(2) in \<open>simp_all add: same_but_ticks_def\<close>)
  ultimately show ?thesis using e k3(1) by (cases "yield_on_return k1") auto
qed

subsection \<open>Steps\<close>

datatype call =
    C_down nat | C_up nat | C_acquire nat | C_try_acquire nat | C_release nat
  | C_wait nat nat | C_signal nat nat | C_broadcast nat nat | C_yield | C_exit

fun code_of :: "nat \<Rightarrow> call \<Rightarrow> micro list" where
  "code_of t (C_down n) = [Down (Sema n)]"
| "code_of t (C_up n) = [Up (Sema n)]"
| "code_of t (C_acquire n) = lock_acquire (Lock n)"
| "code_of t (C_try_acquire n) = [Try_lock (Lock n)]"
| "code_of t (C_release n) = lock_release (Lock n)"
| "code_of t (C_wait c n) = cond_wait t c (Lock n)"
| "code_of t (C_signal c n) = cond_signal c (Lock n)"
| "code_of t (C_broadcast c n) = cond_broadcast c (Lock n)"
| "code_of t C_yield = [Yield]"
| "code_of t C_exit = [Exit]"

type_synonym machine = "kst \<times> (nat \<Rightarrow> micro list)"

inductive step :: "machine \<Rightarrow> machine \<Rightarrow> bool" where
  call: "ko (cur k) = [] \<Longrightarrow> idle_thread k \<noteq> Some (cur k) \<Longrightarrow> step (k, ko) (k, ko(cur k := code_of (cur k) c))"
| exec: "ko (cur k) = m # ms \<Longrightarrow> exec m k = Some (ms', k') \<Longrightarrow> step (k, ko) (k', ko(cur k := ms' @ ms))"
| tick: "intr_handler_external thread_tick k = Some k' \<Longrightarrow> step (k, ko) (k', ko)"
| create: "ko (cur k) = [] \<Longrightarrow> idle_thread k \<noteq> Some (cur k) \<Longrightarrow> threads k t = None \<Longrightarrow> t \<noteq> 0 \<Longrightarrow> PRI_MIN \<le> prio \<Longrightarrow> prio \<le> PRI_MAX \<Longrightarrow>
    thread_create nm prio (Some t) (Some p) k = Some (i, k') \<Longrightarrow> step (k, ko) (k', ko(t := []))"

end
