(* ===== verification/Sched_Inv.thy ===== *)
theory Sched_Inv
  imports Sched_Step
begin

text \<open>
  Invariants of the machine of threads: where a thread is when it does not run, who owns a lock, and that no wake-up is lost.
\<close>

subsection \<open>What remains to be done in an operation\<close>

text \<open>The continuations a thread \<open>t\<close> can have inside the operations of \<open>code_of\<close>.\<close>

fun okk :: "nat \<Rightarrow> micro list \<Rightarrow> bool" where
  "okk t [] \<longleftrightarrow> True"
| "okk t (Down s # ms) \<longleftrightarrow>
     (\<exists>n. s = Sema n \<and> ms = []) \<or> (\<exists>n. s = Lock_sema (Lock n) \<and> ms = [Hold (Lock n)]) \<or> (\<exists>n. s = Waiter t \<and> ms = lock_acquire (Lock n))"
| "okk t (Up s # ms) \<longleftrightarrow>
     (\<exists>n. s = Sema n \<and> ms = []) \<or> (\<exists>n. s = Lock_sema (Lock n) \<and> (ms = [] \<or> ms = Down (Waiter t) # lock_acquire (Lock n))) \<or>
     (\<exists>u c n. s = Waiter u \<and> (ms = [] \<or> ms = [Broadcast c (Lock n)]))"
| "okk t (Check_held l # ms) \<longleftrightarrow>
     (\<exists>n. l = Lock n \<and> (okk t ms \<and> (\<exists>ms'. ms = Unhold l # ms' \<or> (\<exists>c. ms = Push_waiter c # ms' \<or> ms = Signal c # ms'))))"
| "okk t (Check_not_held l # ms) \<longleftrightarrow> (\<exists>n. l = Lock n) \<and> ms = [Down (Lock_sema l), Hold l]"
| "okk t (Hold l # ms) \<longleftrightarrow> (\<exists>n. l = Lock n) \<and> ms = []"
| "okk t (Unhold l # ms) \<longleftrightarrow> (\<exists>n. l = Lock n) \<and> (\<exists>ms'. ms = Up (Lock_sema l) # ms') \<and> okk t ms"
| "okk t (Try_lock l # ms) \<longleftrightarrow> (\<exists>n. l = Lock n) \<and> ms = []"
| "okk t (Push_waiter c # ms) \<longleftrightarrow> okk t ms \<and> (\<exists>l ms'. ms = Check_held l # ms')"
| "okk t (Signal c # ms) \<longleftrightarrow> ms = [] \<or> (\<exists>n. ms = [Broadcast c (Lock n)])"
| "okk t (Broadcast c l # ms) \<longleftrightarrow> (\<exists>n. l = Lock n) \<and> ms = []"
| "okk t (Yield # ms) \<longleftrightarrow> ms = []"
| "okk t (Exit # ms) \<longleftrightarrow> ms = []"
| "okk t (Idle # ms) \<longleftrightarrow> False"

lemma okk_code: "okk t (code_of t c)"
  by (cases c) (simp_all add: lock_acquire_def lock_release_def cond_wait_def cond_signal_def cond_broadcast_def)

lemma okk_lock_acquire: "okk t (lock_acquire (Lock n))"
  by (simp add: lock_acquire_def)

lemma okk_tail: "okk t (m # ms) \<Longrightarrow> okk t ms"
  by (cases m) (auto simp: okk_lock_acquire)

subsection \<open>The effect of a step\<close>

text \<open>The lock whose semaphore a thread has taken without being its holder yet, or gives back while it is not its holder any more.\<close>

fun inside :: "micro list \<Rightarrow> lock_id option" where
  "inside (Hold l # ms) = Some l"
| "inside (Up (Lock_sema l) # ms) = Some l"
| "inside ms = None"

text \<open>The running thread goes on without taking or giving back a lock, or is where it was.\<close>

definition quiet :: "kst \<Rightarrow> micro list \<Rightarrow> micro list \<Rightarrow> bool" where
  "quiet k old new \<longleftrightarrow> old = new \<or>
     inside old = None \<and> inside new = None \<and> (\<forall>l ms. new = Unhold l # ms \<longrightarrow> holder k l = Some (cur k)) \<and> (\<forall>s ms. old \<noteq> Down s # ms)"

definition ok1 :: "kst \<Rightarrow> nat \<Rightarrow> micro list \<Rightarrow> bool" where
  "ok1 k t ms \<longleftrightarrow> (if idle_thread k = Some t then ms = [Idle] else okk t ms)"

text \<open>Nothing changes but the list of waiters of a condition variable, and the semaphore of a waiter.\<close>

definition unchanged :: "kst \<Rightarrow> kst \<Rightarrow> bool" where
  "unchanged k k' \<longleftrightarrow> kwf k' \<and> cur k' = cur k \<and> st k' = st k \<and> holder k' = holder k \<and> idle_thread k' = idle_thread k \<and>
     (\<forall>s. waiters (semas k' s) = waiters (semas k s) \<and> sval (semas k' s) \<le> sval (semas k s)) \<and>
     (\<forall>l. semas k' (Lock_sema l) = semas k (Lock_sema l)) \<and> (\<forall>c. \<forall>s \<in> set (conds k' c). \<exists>u. s = Waiter u)"

text \<open>The steps of the machine as changes of what the invariants are about.\<close>

inductive effect :: "machine \<Rightarrow> machine \<Rightarrow> bool" where
  quiet: "unchanged k k' \<Longrightarrow> quiet k (ko (cur k)) ms \<Longrightarrow> ok1 k (cur k) ms \<Longrightarrow> effect (k, ko) (k', ko(cur k := ms))"
| take: "ko (cur k) = m # r \<Longrightarrow> m = Down s \<or> (\<exists>l. m = Try_lock l \<and> s = Lock_sema l) \<Longrightarrow> 0 < sval (semas k s) \<Longrightarrow>
    kept (take_one s k) None k k' \<Longrightarrow> inside ms = (case s of Lock_sema l \<Rightarrow> Some l | _ \<Rightarrow> None) \<Longrightarrow> (\<forall>l r. ms \<noteq> Unhold l # r) \<Longrightarrow>
    (\<forall>l r. ms \<noteq> Up (Lock_sema l) # r) \<Longrightarrow> ok1 k (cur k) ms \<Longrightarrow> effect (k, ko) (k', ko(cur k := ms))"
| sleep: "ko (cur k) = Down s # ms \<Longrightarrow> sval (semas k s) = 0 \<Longrightarrow> moved THREAD_BLOCKED (add_waiter s (cur k) k) k k' \<Longrightarrow> effect (k, ko) (k', ko)"
| up: "ko (cur k) = Up s # ms \<Longrightarrow> kept (give_one s k) (case waiters (semas k s) of [] \<Rightarrow> None | w # _ \<Rightarrow> Some w) k k' \<Longrightarrow>
    effect (k, ko) (k', ko(cur k := ms))"
| hold: "ko (cur k) = Hold l # ms \<Longrightarrow> effect (k, ko) (set_holder l (Some (cur k)) k, ko(cur k := ms))"
| unhold: "ko (cur k) = Unhold l # ms \<Longrightarrow> effect (k, ko) (set_holder l None k, ko(cur k := ms))"
| preempt: "moved THREAD_READY (semas k) k k' \<Longrightarrow> quiet k (ko (cur k)) ms \<Longrightarrow> ok1 k (cur k) ms \<Longrightarrow> effect (k, ko) (k', ko(cur k := ms))"
| exit: "ko (cur k) = [Exit] \<Longrightarrow> moved THREAD_DYING (semas k) k k' \<Longrightarrow> effect (k, ko) (k', ko(cur k := []))"
| idle: "idle_thread k = Some (cur k) \<Longrightarrow> moved THREAD_BLOCKED (semas k) k k' \<Longrightarrow> effect (k, ko) (k', ko)"
| create: "threads k t = None \<Longrightarrow> kwf k' \<Longrightarrow> st k' = (st k)(t \<mapsto> THREAD_READY) \<Longrightarrow> cur k' = cur k \<Longrightarrow>
    semas k' = new_semas t p k \<Longrightarrow> holder k' = (holder k)(Share_lock p := None) \<Longrightarrow> conds k' = conds k \<Longrightarrow>
    idle_thread k' = idle_thread k \<Longrightarrow> effect (k, ko) (k', ko)"

definition minv :: "machine \<Rightarrow> bool" where
  "minv m \<longleftrightarrow> (case m of (k, ko) \<Rightarrow> kwf k \<and> tid_lock_free k \<and>
     (\<forall>t. \<not> alive k t \<longrightarrow> ko t = []) \<and> (\<forall>t. ok1 k t (ko t)) \<and>
     (\<forall>c. \<forall>s \<in> set (conds k c). \<exists>u. s = Waiter u) \<and>
     (\<forall>s. \<forall>t \<in> set (waiters (semas k s)). \<exists>ms. ko t = Down s # ms) \<and>
     (\<forall>t. st k t = Some THREAD_BLOCKED \<longrightarrow> idle_thread k = Some t \<or> (\<exists>s. t \<in> set (waiters (semas k s)))))"

lemma minvD:
  assumes "minv (k, ko)"
  shows "kwf k" "tid_lock_free k" "\<not> alive k t \<Longrightarrow> ko t = []" "ok1 k t (ko t)"
    "s \<in> set (conds k c) \<Longrightarrow> \<exists>u. s = Waiter u"
    "t \<in> set (waiters (semas k s)) \<Longrightarrow> \<exists>ms. ko t = Down s # ms"
    "st k t = Some THREAD_BLOCKED \<Longrightarrow> idle_thread k = Some t \<or> (\<exists>s. t \<in> set (waiters (semas k s)))"
  using assms unfolding minv_def by auto

lemma ok1_nonidle: "ok1 k t (m # ms) \<Longrightarrow> m \<noteq> Idle \<Longrightarrow> idle_thread k \<noteq> Some t \<and> okk t (m # ms)"
  by (auto simp: ok1_def split: if_splits)

lemma quiet_pass: "m \<notin> range Down \<Longrightarrow> inside (m # r) = None \<Longrightarrow> inside ms = None \<Longrightarrow> (\<And>l ms'. ms = Unhold l # ms' \<Longrightarrow> holder k l = Some (cur k)) \<Longrightarrow>
    quiet k (m # r) ms"
  by (auto simp: quiet_def)

text \<open>A semaphore of a waiter is waited on by its owner only.\<close>

lemma waiter_free:
  assumes i: "minv (k, ko)"
  shows "waiters (semas k (Waiter (cur k))) = []"
proof (rule ccontr)
  assume "waiters (semas k (Waiter (cur k))) \<noteq> []"
  then obtain t where t: "t \<in> set (waiters (semas k (Waiter (cur k))))" by (cases "waiters (semas k (Waiter (cur k)))") auto
  then obtain r where r: "ko t = Down (Waiter (cur k)) # r" using minvD(6) [OF i] by blast
  then have "t = cur k" using ok1_nonidle [of k t "Down (Waiter (cur k))" r] minvD(4) [OF i, of t] by auto
  then show False using t kwfD(7) [OF minvD(1) [OF i]] by blast
qed

lemma unchanged_refl: "minv (k, ko) \<Longrightarrow> unchanged k k"
  using minvD(1,5) [of k ko] by (auto simp: unchanged_def)

lemma unchanged_conds:
  assumes "minv (k, ko)" "\<And>d s. s \<in> set (cs d) \<Longrightarrow> \<exists>u. s = Waiter u"
  shows "unchanged k (k\<lparr>conds := cs\<rparr>)"
  using assms(2) kwf_same [OF minvD(1) [OF assms(1)], of "k\<lparr>conds := cs\<rparr>"] kwfD(2) [OF minvD(1) [OF assms(1)]] by (auto simp: unchanged_def)

lemma unchanged_push:
  assumes i: "minv (k, ko)"
  shows "unchanged k ((sema_init (Waiter (cur k)) 0 k)\<lparr>conds := (conds k)(c := conds k c @ [Waiter (cur k)])\<rparr>)"
proof -
  let ?k = "(sema_init (Waiter (cur k)) 0 k)\<lparr>conds := (conds k)(c := conds k c @ [Waiter (cur k)])\<rparr>"
  have "kwf ?k" "st ?k = st k"
    using kwf_same [OF kwf_sema_init(1) [OF minvD(1) [OF i]], of ?k "Waiter (cur k)" 0] kwf_sema_init(2) [OF minvD(1) [OF i]] kwfD(2) [OF minvD(1) [OF i]]
    by (simp_all add: sema_init_def set_sema_def)
  then show ?thesis using waiter_free [OF i] minvD(5) [OF i] by (auto simp: unchanged_def sema_init_def set_sema_def split: if_splits)
qed

lemma unchanged_kept: "minv (k, ko) \<Longrightarrow> kept (semas k) None k k' \<Longrightarrow> unchanged k k'"
  using minvD(5) [of k ko] by (auto simp: unchanged_def kept_def fun_eq_iff)

lemma quiet_step:
  assumes i: "minv (k, ko)" and m: "ko (cur k) = m # r" "m \<notin> insert Idle (range Down)" "inside (m # r) = None"
    and k': "unchanged k k'" and ms: "okk (cur k) ms" "inside ms = None" "\<And>l ms'. ms = Unhold l # ms' \<Longrightarrow> holder k l = Some (cur k)"
  shows "effect (k, ko) (k', ko(cur k := ms))"
proof (rule effect.quiet [OF k'])
  show "quiet k (ko (cur k)) ms" unfolding m(1) using m ms by (intro quiet_pass) auto
  show "ok1 k (cur k) ms" using ok1_nonidle [of k "cur k" m r] minvD(4) [OF i, of "cur k"] m ms(1) by (auto simp: ok1_def)
qed

text \<open>The steps of locks and condition variables that neither take nor give back a semaphore.\<close>

lemma exec_quiet:
  assumes i: "minv (k, ko)" and m: "ko (cur k) = m # ms" and e: "exec m k = Some (ms', k')"
    and q: "(\<exists>l. m = Check_held l \<or> m = Check_not_held l) \<or> (\<exists>c. m = Push_waiter c \<or> m = Signal c \<or> (\<exists>l. m = Broadcast c l))"
  shows "effect (k, ko) (k', ko(cur k := ms' @ ms))"
proof -
  note w = minvD(1) [OF i] and r = unchanged_refl [OF i]
  have ok: "okk (cur k) (m # ms)" using ok1_nonidle [of k "cur k" m ms] minvD(4) [OF i, of "cur k"] m q by auto
  have d: "m \<notin> insert Idle (range Down)" "inside (m # ms) = None" using q by auto
  note qs = quiet_step [OF i m d]
  show ?thesis
  proof (cases m)
    case (Check_held l)
    then have "k' = k" "ms' = []" "holder k l = Some (cur k)" using e by (auto simp: lock_held_by_current_thread_def thread_current_kwf [OF w] split: if_splits)
    then show ?thesis using qs [OF r, of ms] ok Check_held okk_tail [OF ok] by auto
  next
    case (Check_not_held l)
    then have "k' = k" "ms' = []" using e by (auto simp: lock_held_by_current_thread_def thread_current_kwf [OF w] split: if_splits)
    then show ?thesis using qs [OF r, of ms] ok Check_not_held by auto
  next
    case (Push_waiter c)
    then show ?thesis using e qs [OF unchanged_push [OF i], of ms c] ok by (auto simp: thread_current_kwf [OF w] Let_def sema_init_def set_sema_def)
  next
    case (Signal c)
    show ?thesis
    proof (cases "conds k c")
      case Nil
      then show ?thesis using qs [OF r, of ms] e ok Signal by auto
    next
      case (Cons x xs)
      then obtain u where u: "x = Waiter u" using minvD(5) [OF i, of x c] by auto
      have "unchanged k (k\<lparr>conds := (conds k)(c := xs)\<rparr>)"
      proof (rule unchanged_conds [OF i])
        show "\<exists>u. s = Waiter u" if "s \<in> set (((conds k)(c := xs)) d)" for d s
          using that minvD(5) [OF i, of s d] Cons by (cases "d = c") auto
      qed
      from qs [OF this, of "Up x # ms"] show ?thesis using e ok Signal Cons u by auto
    qed
  next
    case (Broadcast c l)
    then show ?thesis using qs [OF r, of ms] qs [OF r, of "cond_signal c l @ Broadcast c l # ms"] e ok by (auto simp: cond_signal_def split: if_splits)
  qed (use q in auto)
qed

lemma exec_take:
  assumes i: "minv (k, ko)" and m: "ko (cur k) = m # r" and t: "m = Down s \<or> (\<exists>l. m = Try_lock l \<and> s = Lock_sema l)"
    and p: "0 < sval (semas k s)" and k': "kept (take_one s k) None k k'" and ms: "ms = (if m = Down s then r else [Hold l])" "m = Down s \<or> s = Lock_sema l"
  shows "effect (k, ko) (k', ko(cur k := ms))"
proof -
  have ok: "idle_thread k \<noteq> Some (cur k)" "okk (cur k) (m # r)" using ok1_nonidle [of k "cur k" m r] minvD(4) [OF i, of "cur k"] m t by auto
  then have "okk (cur k) ms \<and> inside ms = (case s of Lock_sema l \<Rightarrow> Some l | _ \<Rightarrow> None) \<and> (\<forall>l r. ms \<noteq> Unhold l # r) \<and> (\<forall>l r. ms \<noteq> Up (Lock_sema l) # r)"
    using t ms by (auto simp: lock_acquire_def)
  then show ?thesis using effect.take [where ko = ko and k = k, OF m t p k', of ms] ok(1) by (simp add: ok1_def)
qed

lemma exec_effect:
  assumes i: "minv (k, ko)" and m: "ko (cur k) = m # ms" and e: "exec m k = Some (ms', k')"
  shows "effect (k, ko) (k', ko(cur k := ms' @ ms))"
proof -
  note w = minvD(1) [OF i] and o1 = minvD(4) [OF i, of "cur k", unfolded m]
  have idle: "idle_thread k \<noteq> Some (cur k)" "okk (cur k) (m # ms)" if "m \<noteq> Idle" using that ok1_nonidle [OF o1] by auto
  have same: "ko(cur k := m # ms) = ko" using m by (simp add: fun_upd_idem)
  show ?thesis
  proof (cases m)
    case (Down s)
    show ?thesis
    proof (cases "sval (semas k s) = 0")
      case True
      with sema_down_sleeps [OF w idle(1) True] Down e same effect.sleep [where ko = ko and k = k, OF m [unfolded Down] True] show ?thesis by auto
    next
      case False
      then have p: "0 < sval (semas k s)" by simp
      then show ?thesis using sema_down_takes [OF w p] Down e exec_take [OF i m, of s k' ms undefined] by auto
    qed
  next
    case (Up s)
    then show ?thesis using sema_up_ok [OF w, of s] e effect.up [where ko = ko and k = k, OF m [unfolded Up]] by auto
  next
    case (Hold l)
    then show ?thesis using e effect.hold [where ko = ko and k = k, OF m [unfolded Hold]] by (auto simp: thread_current_kwf [OF w])
  next
    case (Unhold l)
    then show ?thesis using e effect.unhold [where ko = ko and k = k, OF m [unfolded Unhold]] by auto
  next
    case (Try_lock l)
    have z: "ms = []" using idle(2) Try_lock by simp
    have d: "m \<notin> insert Idle (range Down)" "inside (m # ms) = None" using Try_lock by auto
    note t = sema_try_down_ok [OF w, of "Lock_sema l"]
    show ?thesis
    proof (cases "0 < sval (semas k (Lock_sema l))")
      case True
      then show ?thesis using t e Try_lock z exec_take [OF i m, of "Lock_sema l" k' "[Hold l]" l] by (auto split: bind_splits if_splits)
    next
      case False
      then show ?thesis using t e Try_lock z quiet_step [OF i m d unchanged_kept [OF i], of k' "[]"] by (auto split: bind_splits if_splits)
    qed
  next
    case Yield
    then have z: "quiet k (ko (cur k)) []" "ok1 k (cur k) []" using idle m by (auto simp: quiet_def ok1_def)
    then show ?thesis using thread_yield_ok [OF w] e Yield idle(2) effect.preempt [where ko = ko and k = k and k' = k', OF _ z] by auto
  next
    case Exit
    then show ?thesis using thread_exit_tail_ok [OF w idle(1)] e idle(2) m effect.exit [of ko k k'] by auto
  next
    case Idle
    then have "idle_thread k = Some (cur k)" using o1 by (auto simp: ok1_def split: if_splits)
    then show ?thesis using idle_round_ok [OF w] e same Idle effect.idle [of k k' ko] by auto
  qed (use exec_quiet [OF i m e] in auto)
qed

lemma step_effect:
  assumes i: "minv (k, ko)" and s: "step (k, ko) m"
  shows "effect (k, ko) m"
  using s
proof cases
  case (call c)
  have q: "quiet k (ko (cur k)) (code_of (cur k) c)"
    using call by (cases c) (auto simp: quiet_def lock_acquire_def lock_release_def cond_wait_def cond_signal_def cond_broadcast_def)
  show ?thesis unfolding call(1) by (rule effect.quiet [where ko = ko and k = k, OF unchanged_refl [OF i] q]) (use call okk_code in \<open>auto simp: ok1_def\<close>)
next
  case (exec m ms ms' k')
  then show ?thesis using exec_effect [OF i] by simp
next
  case (tick k')
  have q: "quiet k (ko (cur k)) (ko (cur k))" by (simp add: quiet_def)
  show ?thesis using tick thread_tick_ok [OF minvD(1) [OF i]] effect.quiet [where ko = ko and k = k and k' = k', OF unchanged_kept [OF i] q minvD(4) [OF i]]
      effect.preempt [where ko = ko and k = k and k' = k', OF _ q minvD(4) [OF i]] by auto
next
  case (create t prio nm p i' k')
  have "ko(t := []) = ko" using minvD(3) [OF i, of t] create by (simp add: alive_def st_def fun_upd_idem)
  then show ?thesis using create thread_create_ok [OF minvD(1,2) [OF i], of t prio nm p] by (auto intro!: effect.create)
qed

subsection \<open>Where a thread is\<close>

lemma minv_intro:
  assumes i: "minv (k, ko)" and k': "kwf k'" "tid_lock_free k'" "idle_thread k' = idle_thread k"
    and ko: "\<And>t. t \<noteq> cur k \<Longrightarrow> ko' t = ko t" "ok1 k (cur k) (ko' (cur k))"
    and al: "\<And>t. t \<noteq> cur k \<Longrightarrow> \<not> alive k' t \<Longrightarrow> \<not> alive k t" "\<not> alive k' (cur k) \<Longrightarrow> ko' (cur k) = []"
    and cd: "\<And>c s. s \<in> set (conds k' c) \<Longrightarrow> \<exists>u. s = Waiter u"
    and ws: "\<And>s t. t \<in> set (waiters (semas k' s)) \<Longrightarrow> t \<in> set (waiters (semas k s)) \<or> t = cur k \<and> (\<exists>ms. ko' t = Down s # ms)"
    and bl: "\<And>t. st k' t = Some THREAD_BLOCKED \<Longrightarrow> idle_thread k = Some t \<or> (\<exists>s. t \<in> set (waiters (semas k' s)))"
  shows "minv (k', ko')"
proof -
  note w = minvD(1) [OF i]
  have "ko' t = []" if "\<not> alive k' t" for t
    using that al minvD(3) [OF i, of t] ko(1) [of t] by (cases "t = cur k") auto
  moreover have "ok1 k' t (ko' t)" for t
    using ko minvD(4) [OF i, of t] k'(3) by (cases "t = cur k") (auto simp: ok1_def)
  moreover have "\<exists>ms. ko' t = Down s # ms" if "t \<in> set (waiters (semas k' s))" for s t
    using ws [OF that] ko(1) [of t] minvD(6) [OF i, of t s] kwfD(7) [OF w, of s] by (cases "t = cur k") auto
  ultimately show ?thesis using k' cd bl by (simp add: minv_def)
qed

text \<open>For a step that does not switch, and for one that does.\<close>

lemma minv_kept:
  assumes i: "minv (k, ko)" and kp: "kept sm w k k'" and tl: "sm (Lock_sema Tid_lock) = semas k (Lock_sema Tid_lock)"
    and ms: "ok1 k (cur k) ms"
    and ws: "\<And>s. set (waiters (sm s)) = set (waiters (semas k s)) - set_option w"
    and wk: "\<And>t. w = Some t \<Longrightarrow> st k t = Some THREAD_BLOCKED"
  shows "minv (k', ko(cur k := ms))"
proof -
  have s: "kwf k'" "semas k' = sm" "holder k' = holder k" "conds k' = conds k" "idle_thread k' = idle_thread k"
      "\<And>t. st k' t = (if w = Some t then Some THREAD_READY else st k t)"
    using kp by (auto simp: kept_def)
  have al: "alive k' t = alive k t" for t using wk [of t] by (simp add: alive_def s(6))
  show ?thesis
  proof (rule minv_intro [OF i s(1) _ s(5)])
    show "tid_lock_free k'" using minvD(2) [OF i] tl s by (simp add: tid_lock_free_def)
    show "\<not> alive k' (cur k) \<Longrightarrow> (ko(cur k := ms)) (cur k) = []" using kwfD(8) [OF minvD(1) [OF i]] by (simp add: al)
    show "idle_thread k = Some t \<or> (\<exists>s. t \<in> set (waiters (semas k' s)))" if "st k' t = Some THREAD_BLOCKED" for t
      using that minvD(7) [OF i, of t] by (auto simp: s ws split: if_splits)
  qed (use ms ws minvD(5) [OF i] in \<open>auto simp: s al\<close>)
qed

lemma minv_moved:
  assumes i: "minv (k, ko)" and mv: "moved S sm k k'" and tl: "sm (Lock_sema Tid_lock) = semas k (Lock_sema Tid_lock)"
    and ms: "ok1 k (cur k) ms"
    and ws: "\<And>s t. t \<in> set (waiters (sm s)) \<longleftrightarrow> t \<in> set (waiters (semas k s)) \<or> S = THREAD_BLOCKED \<and> t = cur k \<and> W = Some s \<and> (\<exists>r. ms = Down s # r)"
    and W: "S = THREAD_BLOCKED \<Longrightarrow> idle_thread k \<noteq> Some (cur k) \<Longrightarrow> \<exists>s r. W = Some s \<and> ms = Down s # r"
    and dy: "S = THREAD_DYING \<Longrightarrow> ms = []"
  shows "minv (k', ko(cur k := ms))"
proof -
  have s: "kwf k'" "semas k' = sm" "holder k' = holder k" "conds k' = conds k" "idle_thread k' = idle_thread k"
    and al: "\<And>t. alive k' t \<longleftrightarrow> (if t = cur k then S \<noteq> THREAD_DYING else alive k t)"
    and st: "\<And>t. st k' t = (if t = cur k' then Some THREAD_RUNNING
                     else if t = cur k then if S = THREAD_DYING \<and> t \<noteq> initial_thread k then None else Some S else st k t)"
    using mv unfolding moved_def by blast+
  show ?thesis
  proof (rule minv_intro [OF i s(1) _ s(5)])
    show "tid_lock_free k'" using minvD(2) [OF i] tl s by (simp add: tid_lock_free_def)
    show "idle_thread k = Some t \<or> (\<exists>s. t \<in> set (waiters (semas k' s)))" if b: "st k' t = Some THREAD_BLOCKED" for t
    proof (cases "t = cur k")
      case True
      then show ?thesis using b W ws unfolding st s(2) by (auto split: if_splits)
    next
      case False
      then show ?thesis using b minvD(7) [OF i, of t] ws unfolding st s(2) by (auto split: if_splits)
    qed
    show "t \<in> set (waiters (semas k s)) \<or> t = cur k \<and> (\<exists>r. (ko(cur k := ms)) t = Down s # r)" if "t \<in> set (waiters (semas k' s))" for s t
      using that ws unfolding s(2) by auto
  qed (use ms dy minvD(5) [OF i] in \<open>auto simp: s al\<close>)
qed

text \<open>For a step that leaves the threads as they are.\<close>

lemma minv_same:
  assumes i: "minv (k, ko)" and k': "kwf k'" "st k' = st k" "idle_thread k' = idle_thread k" "holder k' Tid_lock = holder k Tid_lock"
    and sm: "\<And>s. waiters (semas k' s) = waiters (semas k s)" "semas k' (Lock_sema Tid_lock) = semas k (Lock_sema Tid_lock)"
    and cd: "\<And>c s. s \<in> set (conds k' c) \<Longrightarrow> \<exists>u. s = Waiter u"
    and ms: "ok1 k (cur k) ms"
  shows "minv (k', ko(cur k := ms))"
proof (rule minv_intro [OF i k'(1) _ k'(3)])
  have al: "alive k' t = alive k t" for t by (simp add: alive_def k')
  show "tid_lock_free k'" using minvD(2) [OF i] k'(4) sm by (simp add: tid_lock_free_def)
  show "\<not> alive k' (cur k) \<Longrightarrow> (ko(cur k := ms)) (cur k) = []" using kwfD(8) [OF minvD(1) [OF i]] by (simp add: al)
  show "t \<noteq> cur k \<Longrightarrow> \<not> alive k' t \<Longrightarrow> \<not> alive k t" for t by (simp add: al)
qed (use ms minvD(7) [OF i] sm cd in \<open>auto simp: k'\<close>)

lemma minv_set_holder:
  assumes i: "minv (k, ko)" and m: "ko (cur k) = m # ms" "m = Hold l \<or> m = Unhold l"
  shows "minv (set_holder l h k, ko(cur k := ms))"
proof -
  have n: "idle_thread k \<noteq> Some (cur k)" "okk (cur k) (m # ms)" using ok1_nonidle [of k "cur k" m ms] minvD(4) [OF i, of "cur k"] m by auto
  then have "l \<noteq> Tid_lock" using m(2) by auto
  with n okk_tail [OF n(2)] show ?thesis
    by (intro minv_same [OF i kwf_set_holder [OF minvD(1) [OF i]]]) (use minvD(5) [OF i] in \<open>auto simp: set_holder_def ok1_def\<close>)
qed

lemma minv_up:
  assumes i: "minv (k, ko)" and m: "ko (cur k) = Up s # ms"
    and k': "kept (give_one s k) (case waiters (semas k s) of [] \<Rightarrow> None | w # _ \<Rightarrow> Some w) k k'"
  shows "minv (k', ko(cur k := ms))"
proof -
  note q = saneD(1) [OF kwfD(1) [OF minvD(1) [OF i]]]
  have n: "idle_thread k \<noteq> Some (cur k)" "okk (cur k) (Up s # ms)" using ok1_nonidle [of k "cur k" "Up s" ms] minvD(4) [OF i, of "cur k"] m by auto
  let ?w = "case waiters (semas k s) of [] \<Rightarrow> None | w # _ \<Rightarrow> Some w"
  have "set (waiters (give_one s k x)) = set (waiters (semas k x)) - set_option ?w" for x
  proof (cases "x = s")
    case True
    then show ?thesis using queuedD(5) [OF q, of s] by (auto simp: give_one_def split: list.splits)
  next
    case False
    then have "w \<notin> set (waiters (semas k x))" if "w \<in> set (waiters (semas k s))" for w using queuedD(8) [OF q that, of x] by auto
    then show ?thesis using False by (auto simp: give_one_def split: list.splits)
  qed
  moreover have "st k t = Some THREAD_BLOCKED" if "?w = Some t" for t using that queuedD(6) [OF q, of t s] by (auto split: list.splits)
  ultimately show ?thesis
    by (intro minv_kept [OF i k']) (use n okk_tail [OF n(2)] in \<open>auto simp: give_one_def ok1_def\<close>)
qed

lemma minv_create:
  assumes i: "minv (k, ko)" and t: "threads k t = None" and k': "kwf k'" "st k' = (st k)(t \<mapsto> THREAD_READY)"
    "semas k' = new_semas t p k" "holder k' = (holder k)(Share_lock p := None)" "conds k' = conds k" "idle_thread k' = idle_thread k"
  shows "minv (k', ko)"
proof (rule minv_intro [OF i k'(1) _ k'(6)])
  have al: "alive k' u \<longleftrightarrow> u = t \<or> alive k u" for u by (simp add: alive_def k'(2))
  show "tid_lock_free k'" using minvD(2) [OF i] k' by (simp add: tid_lock_free_def new_semas_def)
  show "\<not> alive k' (cur k) \<Longrightarrow> ko (cur k) = []" using kwfD(8) [OF minvD(1) [OF i]] by (simp add: al)
  show "u \<noteq> cur k \<Longrightarrow> \<not> alive k' u \<Longrightarrow> \<not> alive k u" for u by (simp add: al)
  have ws: "waiters (semas k' s) = waiters (semas k s)" for s
  proof (cases "s \<in> {Setup t, Sig p, Lock_sema (Share_lock p), Successload p}")
    case True
    have "u \<notin> set (waiters (semas k s))" for u
    proof
      assume "u \<in> set (waiters (semas k s))"
      then obtain r where r: "ko u = Down s # r" using minvD(6) [OF i] by blast
      then have "okk u (Down s # r)" using ok1_nonidle [of k u "Down s" r] minvD(4) [OF i, of u] by simp
      then show False using True by auto
    qed
    then have "waiters (semas k s) = []" by (metis list.set_intros(1) neq_Nil_conv)
    then show ?thesis using True k'(3) by (auto simp: new_semas_def)
  qed (auto simp: k'(3) new_semas_def)
  show "u \<in> set (waiters (semas k s)) \<or> u = cur k \<and> (\<exists>ms. ko u = Down s # ms)" if "u \<in> set (waiters (semas k' s))" for s u
    using that by (simp add: ws)
  show "idle_thread k = Some u \<or> (\<exists>s. u \<in> set (waiters (semas k' s)))" if "st k' u = Some THREAD_BLOCKED" for u
    using that minvD(7) [OF i, of u] by (auto simp: ws k'(2) split: if_splits)
qed (use minvD(4,5) [OF i] in \<open>auto simp: k'\<close>)

lemma minv_effect:
  assumes "effect m m'" "minv m"
  shows "minv m'"
  using assms
proof (induction rule: effect.induct)
  case (quiet k k' ko ms)
  then show ?case by (intro minv_same [OF quiet(4)]) (auto simp: unchanged_def)
next
  case (take ko k m r s k' ms)
  have "okk (cur k) (m # r)" using ok1_nonidle [of k "cur k" m r] minvD(4) [OF take(9), of "cur k"] take(1,2) by auto
  with take show ?case by (intro minv_kept [OF take(9) take(4)]) (auto simp: take_one_def)
next
  case (sleep ko k s ms k')
  have "idle_thread k \<noteq> Some (cur k)" "okk (cur k) (Down s # ms)"
    using ok1_nonidle [of k "cur k" "Down s" ms] minvD(4) [OF sleep(4), of "cur k"] sleep(1) by auto
  then have "minv (k', ko(cur k := Down s # ms))"
    by (intro minv_moved [OF sleep(4) sleep(3), where W = "Some s"]) (auto simp: add_waiter_def ok1_def split: if_splits)
  then show ?case using sleep by (simp add: fun_upd_idem)
next
  case (up ko k s ms k')
  show ?case by (rule minv_up [OF up(3) up(1,2)])
next
  case (hold ko k l ms)
  then show ?case by (intro minv_set_holder [OF hold(2) hold(1)]) simp
next
  case (unhold ko k l ms)
  then show ?case by (intro minv_set_holder [OF unhold(2) unhold(1)]) simp
next
  case (preempt k k' ko ms)
  then show ?case by (intro minv_moved [OF preempt(4) preempt(1), where W = None]) auto
next
  case (exit ko k k')
  have "idle_thread k \<noteq> Some (cur k)" using ok1_nonidle [of k "cur k" Exit "[]"] minvD(4) [OF exit(3), of "cur k"] exit(1) by auto
  then show ?case by (intro minv_moved [OF exit(3) exit(2), where W = None]) (auto simp: ok1_def)
next
  case (idle k k' ko)
  have "minv (k', ko(cur k := ko (cur k)))"
    using minvD(4) [OF idle(3), of "cur k"] idle(1) by (intro minv_moved [OF idle(3) idle(2), where W = None]) auto
  then show ?case by simp
next
  case (create k t k' p ko)
  show ?case by (rule minv_create [OF create(9,1,2,3,5,6,7,8)])
qed

end
