(* ===== verification/Sched_Lock.thy ===== *)
theory Sched_Lock
  imports Sched_Inv
begin

text \<open>
  Locks exclude each other's holders, and no wake-up is lost, over all interleavings.
\<close>

subsection \<open>Locks\<close>

text \<open>A thread owns a lock from the moment it has decremented the lock's semaphore until it increments it.\<close>

definition owns :: "kst \<Rightarrow> (nat \<Rightarrow> micro list) \<Rightarrow> nat \<Rightarrow> nat \<Rightarrow> bool" where
  "owns k ko t n \<longleftrightarrow> holder k (Lock n) = Some t \<or> inside (ko t) = Some (Lock n)"

definition lval :: "kst \<Rightarrow> nat \<Rightarrow> nat" where
  "lval k n = sval (semas k (Lock_sema (Lock n)))"

definition linv :: "machine \<Rightarrow> bool" where
  "linv m \<longleftrightarrow> (case m of (k, ko) \<Rightarrow>
     (\<forall>n. lval k n = 1 \<and> (\<forall>t. \<not> owns k ko t n) \<or> lval k n = 0 \<and> (\<exists>t. \<forall>u. owns k ko u n \<longleftrightarrow> u = t)) \<and>
     (\<forall>t n r. ko t = Unhold (Lock n) # r \<longrightarrow> holder k (Lock n) = Some t) \<and>
     (\<forall>t n r. ko t = Up (Lock_sema (Lock n)) # r \<longrightarrow> holder k (Lock n) = None))"

lemma linvD:
  assumes "linv (k, ko)"
  shows "lval k n = 1 \<and> (\<forall>t. \<not> owns k ko t n) \<or> lval k n = 0 \<and> (\<exists>t. \<forall>u. owns k ko u n \<longleftrightarrow> u = t)"
    "ko t = Unhold (Lock n) # r \<Longrightarrow> holder k (Lock n) = Some t" "ko t = Up (Lock_sema (Lock n)) # r \<Longrightarrow> holder k (Lock n) = None"
    "owns k ko t n \<Longrightarrow> lval k n = 0" "owns k ko t n \<Longrightarrow> owns k ko u n \<Longrightarrow> u = t"
proof -
  show *: "lval k n = 1 \<and> (\<forall>t. \<not> owns k ko t n) \<or> lval k n = 0 \<and> (\<exists>t. \<forall>u. owns k ko u n \<longleftrightarrow> u = t)" for n
    using assms unfolding linv_def by auto
  show "ko t = Unhold (Lock n) # r \<Longrightarrow> holder k (Lock n) = Some t" "ko t = Up (Lock_sema (Lock n)) # r \<Longrightarrow> holder k (Lock n) = None"
    using assms unfolding linv_def prod.case by blast+
  show "owns k ko t n \<Longrightarrow> lval k n = 0" "owns k ko t n \<Longrightarrow> owns k ko u n \<Longrightarrow> u = t" using * [of n] by auto
qed

lemma linv_frame:
  assumes i: "linv (k, ko)" and h: "\<And>n. holder k' (Lock n) = holder k (Lock n)" and v: "\<And>n. lval k' n = lval k n"
    and ko: "\<And>t. t \<noteq> cur k \<Longrightarrow> ko' t = ko t" "inside (ko' (cur k)) = inside (ko (cur k))"
      "\<And>n r. ko' (cur k) = Unhold (Lock n) # r \<Longrightarrow> holder k (Lock n) = Some (cur k)"
      "\<And>n r. ko' (cur k) = Up (Lock_sema (Lock n)) # r \<Longrightarrow> holder k (Lock n) = None"
  shows "linv (k', ko')"
proof -
  have "owns k' ko' t n = owns k ko t n" for t n using h ko(1,2) by (cases "t = cur k") (auto simp: owns_def)
  moreover have "holder k' (Lock n) = Some t" if "ko' t = Unhold (Lock n) # r" for t n r
    using that h ko(1) [of t] ko(3) linvD(2) [OF i, of t n r] by (cases "t = cur k") auto
  moreover have "holder k' (Lock n) = None" if "ko' t = Up (Lock_sema (Lock n)) # r" for t n r
    using that h ko(1) [of t] ko(4) linvD(3) [OF i, of t n r] by (cases "t = cur k") auto
  ultimately show ?thesis using linvD(1) [OF i] v by (simp add: linv_def) blast
qed

lemma linv_quiet:
  assumes i: "linv (k, ko)" and h: "\<And>n. holder k' (Lock n) = holder k (Lock n)" and v: "\<And>n. lval k' n = lval k n" and q: "quiet k (ko (cur k)) ms"
  shows "linv (k', ko(cur k := ms))"
  by (rule linv_frame [OF i h v]) (use q linvD(2,3) [OF i, of "cur k"] in \<open>auto simp: quiet_def\<close>)

text \<open>A change to what the running thread owns of one lock.\<close>

lemma linv_one:
  assumes i: "linv (k, ko)" and n: "lval k' n = 1 \<and> (\<forall>t. \<not> owns k' ko' t n) \<or> lval k' n = 0 \<and> (\<forall>t. owns k' ko' t n \<longleftrightarrow> t = cur k)"
    and o: "\<And>n'. n' \<noteq> n \<Longrightarrow> lval k' n' = lval k n' \<and> holder k' (Lock n') = holder k (Lock n')"
    and ko: "\<And>t. t \<noteq> cur k \<Longrightarrow> ko' t = ko t" "\<And>n'. n' \<noteq> n \<Longrightarrow> inside (ko (cur k)) \<noteq> Some (Lock n') \<and> inside (ko' (cur k)) \<noteq> Some (Lock n')"
      "\<And>n' r. ko' (cur k) = Unhold (Lock n') # r \<Longrightarrow> holder k' (Lock n') = Some (cur k)"
      "\<And>n' r. ko' (cur k) = Up (Lock_sema (Lock n')) # r \<Longrightarrow> holder k' (Lock n') = None"
      "\<And>t r. t \<noteq> cur k \<Longrightarrow> ko t \<noteq> Unhold (Lock n) # r \<and> ko t \<noteq> Up (Lock_sema (Lock n)) # r"
  shows "linv (k', ko')"
proof -
  have ow: "owns k' ko' t n' = owns k ko t n'" if "n' \<noteq> n" for t n' using that o [OF that] ko(1,2) by (cases "t = cur k") (auto simp: owns_def)
  have "lval k' n' = 1 \<and> (\<forall>t. \<not> owns k' ko' t n') \<or> lval k' n' = 0 \<and> (\<exists>t. \<forall>u. owns k' ko' u n' \<longleftrightarrow> u = t)" for n'
  proof (cases "n' = n")
    case True
    show ?thesis unfolding True using n by blast
  next
    case False
    then have v: "lval k' n' = lval k n'" using o by blast
    show ?thesis unfolding ow [OF False] v by (rule linvD(1) [OF i])
  qed
  moreover have "holder k' (Lock n') = Some t" if u: "ko' t = Unhold (Lock n') # r" for t n' r
  proof (cases "t = cur k")
    case True
    then show ?thesis using ko(3) u by simp
  next
    case False
    have e: "ko t = Unhold (Lock n') # r" using ko(1) [OF False] u by simp
    then have "n' \<noteq> n" using ko(5) [OF False, of r] by auto
    then show ?thesis using o [of n'] linvD(2) [OF i e] by simp
  qed
  moreover have "holder k' (Lock n') = None" if u: "ko' t = Up (Lock_sema (Lock n')) # r" for t n' r
  proof (cases "t = cur k")
    case True
    then show ?thesis using ko(4) u by simp
  next
    case False
    have e: "ko t = Up (Lock_sema (Lock n')) # r" using ko(1) [OF False] u by simp
    then have "n' \<noteq> n" using ko(5) [OF False, of r] by auto
    then show ?thesis using o [of n'] linvD(3) [OF i e] by simp
  qed
  ultimately show ?thesis unfolding linv_def prod.case by blast
qed

text \<open>No other thread gives the lock back while the running thread owns it, nor when nobody does.\<close>

lemma nobody_else:
  assumes i: "linv (k, ko)" and o: "owns k ko c n \<or> (\<forall>t. \<not> owns k ko t n)" and t: "t \<noteq> c"
  shows "ko t \<noteq> Unhold (Lock n) # r" "ko t \<noteq> Up (Lock_sema (Lock n)) # r"
proof -
  have "\<not> owns k ko t n" using o t linvD(5) [OF i, of c n t] by auto
  then show "ko t \<noteq> Unhold (Lock n) # r" "ko t \<noteq> Up (Lock_sema (Lock n)) # r"
    using linvD(2) [OF i, of t n r] by (auto simp: owns_def)
qed

lemma linv_take:
  assumes i: "linv (k, ko)" and m: "inside (ko (cur k)) = None" and p: "0 < lval k n" and k': "kept (take_one (Lock_sema (Lock n)) k) None k k'"
    and ms: "inside ms = Some (Lock n)" "\<forall>l r. ms \<noteq> Unhold l # r" "\<forall>l r. ms \<noteq> Up (Lock_sema l) # r"
  shows "linv (k', ko(cur k := ms))"
proof -
  have none: "lval k n = 1" "\<forall>t. \<not> owns k ko t n" using linvD(1) [OF i, of n] p by auto
  have s: "holder k' = holder k" "\<And>n'. lval k' n' = (if n' = n then lval k n - 1 else lval k n')"
    using k' by (auto simp: kept_def take_one_def lval_def)
  show ?thesis
  proof (rule linv_one [OF i, of _ n])
    have "owns k' (ko(cur k := ms)) t n \<longleftrightarrow> t = cur k" for t using none(2) ms(1) by (auto simp: owns_def s(1))
    then show "lval k' n = 1 \<and> (\<forall>t. \<not> owns k' (ko(cur k := ms)) t n) \<or> lval k' n = 0 \<and> (\<forall>t. owns k' (ko(cur k := ms)) t n \<longleftrightarrow> t = cur k)"
      using none(1) by (simp add: s(2))
    show "ko t \<noteq> Unhold (Lock n) # r \<and> ko t \<noteq> Up (Lock_sema (Lock n)) # r" if "t \<noteq> cur k" for t r using nobody_else [OF i _ that] none(2) by blast
  qed (use m ms s in auto)
qed

lemma linv_give:
  assumes i: "linv (k, ko)" and m: "ko (cur k) = Up (Lock_sema (Lock n)) # ms" and k': "kept (give_one (Lock_sema (Lock n)) k) w k k'"
    and ms: "inside ms = None" "\<forall>l r. ms \<noteq> Unhold l # r"
  shows "linv (k', ko(cur k := ms))"
proof -
  have o: "owns k ko (cur k) n" "holder k (Lock n) = None" using m linvD(3) [OF i m] by (auto simp: owns_def)
  have s: "holder k' = holder k" "\<And>n'. lval k' n' = (if n' = n then sz_add (lval k n) 1 else lval k n')"
    using k' by (auto simp: kept_def give_one_def lval_def)
  show ?thesis
  proof (rule linv_one [OF i, of _ n])
    have "\<not> owns k' (ko(cur k := ms)) t n" for t
      using linvD(5) [OF i o(1), of t] o(2) ms(1) by (cases "t = cur k") (auto simp: owns_def s(1))
    then show "lval k' n = 1 \<and> (\<forall>t. \<not> owns k' (ko(cur k := ms)) t n) \<or> lval k' n = 0 \<and> (\<forall>t. owns k' (ko(cur k := ms)) t n \<longleftrightarrow> t = cur k)"
      using linvD(4) [OF i o(1)] by (simp add: s(2) sz_add_def)
    show "ko t \<noteq> Unhold (Lock n) # r \<and> ko t \<noteq> Up (Lock_sema (Lock n)) # r" if "t \<noteq> cur k" for t r using nobody_else [OF i _ that] o(1) by blast
  qed (use m ms s in auto)
qed

lemma linv_hold:
  assumes i: "linv (k, ko)" and m: "ko (cur k) = Hold (Lock n) # ms" and ms: "inside ms = None" "\<forall>l r. ms \<noteq> Unhold l # r"
  shows "linv (set_holder (Lock n) (Some (cur k)) k, ko(cur k := ms))"
proof -
  let ?k = "set_holder (Lock n) (Some (cur k)) k"
  have o: "owns k ko (cur k) n" using m by (simp add: owns_def)
  show ?thesis
  proof (rule linv_one [OF i, of _ n])
    have "owns ?k (ko(cur k := ms)) t n \<longleftrightarrow> t = cur k" for t
      using linvD(5) [OF i o(1), of t] by (cases "t = cur k") (auto simp: owns_def set_holder_def)
    moreover have "lval ?k n = 0" using linvD(4) [OF i o(1)] by (simp add: lval_def set_holder_def)
    ultimately show "lval ?k n = 1 \<and> (\<forall>t. \<not> owns ?k (ko(cur k := ms)) t n) \<or> lval ?k n = 0 \<and> (\<forall>t. owns ?k (ko(cur k := ms)) t n \<longleftrightarrow> t = cur k)"
      by blast
    show "ko t \<noteq> Unhold (Lock n) # r \<and> ko t \<noteq> Up (Lock_sema (Lock n)) # r" if "t \<noteq> cur k" for t r using nobody_else [OF i _ that] o(1) by blast
  qed (use m ms in \<open>auto simp: lval_def set_holder_def\<close>)
qed

lemma linv_unhold:
  assumes i: "linv (k, ko)" and m: "ko (cur k) = Unhold (Lock n) # Up (Lock_sema (Lock n)) # r"
  shows "linv (set_holder (Lock n) None k, ko(cur k := Up (Lock_sema (Lock n)) # r))"
proof -
  let ?k = "set_holder (Lock n) None k" and ?ko = "ko(cur k := Up (Lock_sema (Lock n)) # r)"
  have o: "owns k ko (cur k) n" using linvD(2) [OF i m] by (simp add: owns_def)
  show ?thesis
  proof (rule linv_one [OF i, of _ n])
    have "owns ?k ?ko t n \<longleftrightarrow> t = cur k" for t
      using linvD(5) [OF i o(1), of t] by (cases "t = cur k") (auto simp: owns_def set_holder_def)
    moreover have "lval ?k n = 0" using linvD(4) [OF i o(1)] by (simp add: lval_def set_holder_def)
    ultimately show "lval ?k n = 1 \<and> (\<forall>t. \<not> owns ?k ?ko t n) \<or> lval ?k n = 0 \<and> (\<forall>t. owns ?k ?ko t n \<longleftrightarrow> t = cur k)"
      by blast
    show "ko t \<noteq> Unhold (Lock n) # r' \<and> ko t \<noteq> Up (Lock_sema (Lock n)) # r'" if "t \<noteq> cur k" for t r' using nobody_else [OF i _ that] o(1) by blast
  qed (use m in \<open>auto simp: lval_def set_holder_def\<close>)
qed

lemma linv_effect:
  assumes "effect m m'" "minv m" "linv m"
  shows "linv m'"
  using assms
proof (induction rule: effect.induct)
  case (quiet k k' ko ms)
  then show ?case by (intro linv_quiet [OF quiet(5)]) (auto simp: unchanged_def lval_def)
next
  case (take ko k m r s k' ms)
  have ok: "okk (cur k) (m # r)" using ok1_nonidle [of k "cur k" m r] minvD(4) [OF take(9), of "cur k"] take(1,2) by auto
  have h: "holder k' = holder k" "inside (ko (cur k)) = None" using take(1,2,4) by (auto simp: kept_def)
  show ?case
  proof (cases "\<exists>n. s = Lock_sema (Lock n)")
    case True
    then obtain n where n: "s = Lock_sema (Lock n)" by blast
    then show ?thesis using take h by (intro linv_take [OF take(10) h(2), of n]) (auto simp: lval_def)
  next
    case False
    then have "lval k' n = lval k n" for n using take(4) by (auto simp: kept_def take_one_def lval_def)
    moreover have "inside ms = None" using False take(2,5) ok by (auto split: sema_id.splits)
    ultimately show ?thesis using take h by (intro linv_frame [OF take(10)]) auto
  qed
next
  case (sleep ko k s ms k')
  then have "linv (k', ko(cur k := ko (cur k)))"
    by (intro linv_quiet [OF sleep(5)]) (auto simp: moved_def lval_def add_waiter_def quiet_def)
  then show ?case by simp
next
  case (up ko k s ms k')
  have ok: "okk (cur k) (Up s # ms)" using ok1_nonidle [of k "cur k" "Up s" ms] minvD(4) [OF up(3), of "cur k"] up(1) by auto
  then have ms: "inside ms = None" "\<forall>l r. ms \<noteq> Unhold l # r" "\<forall>l r. ms \<noteq> Up (Lock_sema l) # r" by (auto simp: lock_acquire_def)
  show ?case
  proof (cases "\<exists>n. s = Lock_sema (Lock n)")
    case True
    then show ?thesis using linv_give [OF up(4) _ _ ms(1,2)] up(1,2) by auto
  next
    case False
    then have "lval k' n = lval k n" "inside (ko (cur k)) = None" for n using up(1,2) ok by (auto simp: kept_def give_one_def lval_def)
    moreover have "holder k' = holder k" using up(2) by (simp add: kept_def)
    ultimately show ?thesis using ms by (intro linv_frame [OF up(4)]) auto
  qed
next
  case (hold ko k l ms)
  have "okk (cur k) (Hold l # ms)" using ok1_nonidle [of k "cur k" "Hold l" ms] minvD(4) [OF hold(2), of "cur k"] hold(1) by auto
  then show ?case using linv_hold [OF hold(3)] hold(1) by auto
next
  case (unhold ko k l ms)
  have "okk (cur k) (Unhold l # ms)" using ok1_nonidle [of k "cur k" "Unhold l" ms] minvD(4) [OF unhold(2), of "cur k"] unhold(1) by auto
  then show ?case using linv_unhold [OF unhold(3)] unhold(1) by auto
next
  case (preempt k k' ko ms)
  then show ?case by (intro linv_quiet [OF preempt(5)]) (auto simp: moved_def lval_def)
next
  case (exit ko k k')
  then show ?case by (intro linv_quiet [OF exit(4)]) (auto simp: moved_def lval_def quiet_def)
next
  case (idle k k' ko)
  then have "linv (k', ko(cur k := ko (cur k)))" by (intro linv_quiet [OF idle(4)]) (auto simp: moved_def lval_def quiet_def)
  then show ?case by simp
next
  case (create k t k' p ko)
  then have "linv (k', ko(cur k := ko (cur k)))" by (intro linv_quiet [OF create(10)]) (auto simp: lval_def new_semas_def quiet_def)
  then show ?case by simp
qed

subsection \<open>No wake-up is lost\<close>

text \<open>The threads that can run and whose next step is to try \<open>sema_down\<close> on the semaphore.\<close>

definition rdy :: "kst \<Rightarrow> (nat \<Rightarrow> micro list) \<Rightarrow> sema_id \<Rightarrow> nat set" where
  "rdy k ko s = {t. alive k t \<and> st k t \<noteq> Some THREAD_BLOCKED \<and> (\<exists>r. ko t = Down s # r)}"

text \<open>While threads sleep on a semaphore, every unit of its value is about to be taken.\<close>

definition claimed :: "kst \<Rightarrow> (nat \<Rightarrow> micro list) \<Rightarrow> sema_id \<Rightarrow> bool" where
  "claimed k ko s \<longleftrightarrow> (waiters (semas k s) \<noteq> [] \<longrightarrow> sval (semas k s) \<le> card (rdy k ko s))"

definition ninv :: "machine \<Rightarrow> bool" where
  "ninv m \<longleftrightarrow> (case m of (k, ko) \<Rightarrow> \<forall>s. claimed k ko s)"

lemma finite_rdy: "kwf k \<Longrightarrow> finite (rdy k ko s)"
  using saneD(5) [OF kwfD(1), of k] by (auto simp: rdy_def intro: finite_subset [of _ "set (all_list k)"])

lemma claimed_mono:
  assumes "claimed k ko s" "kwf k'" "rdy k ko s \<subseteq> rdy k' ko' s"
    "waiters (semas k' s) \<noteq> [] \<Longrightarrow> waiters (semas k s) \<noteq> [] \<and> sval (semas k' s) \<le> sval (semas k s)"
  shows "claimed k' ko' s"
  using assms card_mono [OF finite_rdy [OF assms(2)] assms(3)] by (auto simp: claimed_def)

lemma ninv_mono:
  assumes "ninv (k, ko)" "kwf k'" "\<And>s. rdy k ko s \<subseteq> rdy k' ko' s"
    "\<And>s. waiters (semas k' s) \<noteq> [] \<Longrightarrow> waiters (semas k s) \<noteq> [] \<and> sval (semas k' s) \<le> sval (semas k s)"
  shows "ninv (k', ko')"
  unfolding ninv_def prod.case
proof
  fix s
  show "claimed k' ko' s" by (rule claimed_mono [of k ko]) (use assms in \<open>auto simp: ninv_def\<close>)
qed

lemma claimed_less:
  assumes "claimed k ko s" "kwf k'" "rdy k ko s - {c} \<subseteq> rdy k' ko' s" "waiters (semas k' s) = waiters (semas k s)"
    "sval (semas k' s) = sval (semas k s) - 1"
  shows "claimed k' ko' s"
proof -
  have "card (rdy k ko s) - 1 \<le> card (rdy k ko s - {c})" by (cases "c \<in> rdy k ko s") (simp_all add: card_Diff_subset_Int)
  also have "\<dots> \<le> card (rdy k' ko' s)" by (rule card_mono [OF finite_rdy [OF assms(2)] assms(3)])
  finally show ?thesis using assms(1,4,5) by (auto simp: claimed_def)
qed

lemma claimed_more:
  assumes "claimed k ko s" "kwf k'" "rdy k ko s \<subseteq> rdy k' ko' s" "w \<in> rdy k' ko' s" "w \<notin> rdy k ko s" "waiters (semas k s) \<noteq> []"
    "sval (semas k' s) \<le> Suc (sval (semas k s))"
  shows "claimed k' ko' s"
proof -
  have "finite (rdy k ko s)" using assms(3) finite_rdy [OF assms(2)] by (rule finite_subset)
  then have "Suc (card (rdy k ko s)) = card (insert w (rdy k ko s))" using assms(5) by simp
  also have "\<dots> \<le> card (rdy k' ko' s)" using assms(3,4) by (intro card_mono [OF finite_rdy [OF assms(2)]]) auto
  finally show ?thesis using assms(1,6,7) by (auto simp: claimed_def)
qed

lemma rdy_moved:
  assumes "moved S sm k k'" "S = THREAD_READY \<and> (ko (cur k) = ms \<or> (\<forall>r. ko (cur k) \<noteq> Down s # r)) \<or> (\<forall>r. ko (cur k) \<noteq> Down s # r)"
  shows "rdy k ko s \<subseteq> rdy k' (ko(cur k := ms)) s"
proof
  fix t
  assume t: "t \<in> rdy k ko s"
  have al: "\<And>t. alive k' t \<longleftrightarrow> (if t = cur k then S \<noteq> THREAD_DYING else alive k t)"
    and st: "\<And>t. st k' t = (if t = cur k' then Some THREAD_RUNNING
                     else if t = cur k then if S = THREAD_DYING \<and> t \<noteq> initial_thread k then None else Some S else st k t)"
    using assms(1) unfolding moved_def by blast+
  show "t \<in> rdy k' (ko(cur k := ms)) s"
  proof (cases "t = cur k")
    case True
    then show ?thesis using t assms(2) by (auto simp: rdy_def al st)
  next
    case False
    then show ?thesis using t by (auto simp: rdy_def al st)
  qed
qed

lemma rdy_same:
  assumes "st k' = st k" "ko (cur k) = ms \<or> (\<forall>r. ko (cur k) \<noteq> Down s # r)"
  shows "rdy k ko s \<subseteq> rdy k' (ko(cur k := ms)) s"
  using assms by (auto simp: rdy_def alive_def)

lemma ninv_up:
  assumes i: "minv (k, ko)" and n: "claimed k ko x" and m: "ko (cur k) = Up s # ms"
    and k': "kept (give_one s k) (case waiters (semas k s) of [] \<Rightarrow> None | w # _ \<Rightarrow> Some w) k k'"
  shows "claimed k' (ko(cur k := ms)) x"
proof -
  let ?w = "case waiters (semas k s) of [] \<Rightarrow> None | w # _ \<Rightarrow> Some w"
  note q = saneD(1) [OF kwfD(1) [OF minvD(1) [OF i]]]
  have w: "kwf k'" "semas k' = give_one s k" "\<And>t. st k' t = (if ?w = Some t then Some THREAD_READY else st k t)" using k' by (auto simp: kept_def)
  have sub: "rdy k ko y \<subseteq> rdy k' (ko(cur k := ms)) y" for y using m by (auto simp: rdy_def alive_def w(3))
  show ?thesis
  proof (cases "x = s \<and> waiters (semas k s) \<noteq> []")
    case False
    then show ?thesis by (intro claimed_mono [OF n w(1) sub]) (auto simp: w(2) give_one_def split: if_splits)
  next
    case True
    then obtain t ts where t: "waiters (semas k s) = t # ts" by (cases "waiters (semas k s)") auto
    then have b: "st k t = Some THREAD_BLOCKED" "t \<noteq> cur k" "\<exists>r. ko t = Down s # r"
      using queuedD(6) [OF q, of t s] kwfD(7) [OF minvD(1) [OF i], of s] minvD(6) [OF i, of t s] by auto
    then have "t \<in> rdy k' (ko(cur k := ms)) s" "t \<notin> rdy k ko s" by (auto simp: rdy_def alive_def w(3) t)
    then show ?thesis using True n sub [of s] w(1) by (intro claimed_more [of k ko x k']) (auto simp: w(2) give_one_def sz_add_def)
  qed
qed

lemma ninv_effect:
  assumes "effect m m'" "minv m" "ninv m"
  shows "ninv m'"
  using assms
proof (induction rule: effect.induct)
  case (quiet k k' ko ms)
  have "rdy k ko s \<subseteq> rdy k' (ko(cur k := ms)) s" for s using quiet(1,2) by (intro rdy_same) (auto simp: unchanged_def quiet_def)
  then show ?case using quiet(1) by (intro ninv_mono [OF quiet(5)]) (auto simp: unchanged_def)
next
  case (take ko k m r s k' ms)
  have w: "kwf k'" "semas k' = take_one s k" "st k' = st k" using take(4) by (auto simp: kept_def)
  have n: "claimed k ko x" for x using take(10) by (simp add: ninv_def)
  have "claimed k' (ko(cur k := ms)) x" for x
  proof (cases "x = s")
    case True
    have "rdy k ko s - {cur k} \<subseteq> rdy k' (ko(cur k := ms)) s" using w(3) by (auto simp: rdy_def alive_def)
    then show ?thesis unfolding True by (rule claimed_less [OF n w(1)]) (auto simp: w(2) take_one_def)
  next
    case False
    then have "rdy k ko x \<subseteq> rdy k' (ko(cur k := ms)) x" using take(1,2) by (intro rdy_same w(3)) auto
    then show ?thesis by (rule claimed_mono [OF n w(1)]) (use False in \<open>auto simp: w(2) take_one_def\<close>)
  qed
  then show ?case by (auto simp: ninv_def)
next
  case (sleep ko k s ms k')
  have w: "kwf k'" "semas k' = add_waiter s (cur k) k" using sleep(3) by (auto simp: moved_def)
  have "claimed k' ko x" for x
  proof (cases "x = s")
    case True
    then show ?thesis using sleep(2) by (simp add: claimed_def w(2) add_waiter_def)
  next
    case False
    then have "rdy k ko x \<subseteq> rdy k' (ko(cur k := ko (cur k))) x" using sleep(1) by (intro rdy_moved [OF sleep(3)]) auto
    then show ?thesis using sleep(5) False by (intro claimed_mono [of k ko x k' ko] w(1)) (auto simp: ninv_def w(2) add_waiter_def)
  qed
  then show ?case by (auto simp: ninv_def)
next
  case (up ko k s ms k')
  then show ?case using ninv_up [OF up(3) _ up(1,2)] by (auto simp: ninv_def)
next
  case (hold ko k l ms)
  note w = kwf_set_holder [OF minvD(1) [OF hold(2)]]
  have "rdy k ko s \<subseteq> rdy (set_holder l (Some (cur k)) k) (ko(cur k := ms)) s" for s using hold(1) by (intro rdy_same w(2)) auto
  then show ?case by (intro ninv_mono [OF hold(3) w(1)]) (auto simp: set_holder_def)
next
  case (unhold ko k l ms)
  note w = kwf_set_holder [OF minvD(1) [OF unhold(2)]]
  have "rdy k ko s \<subseteq> rdy (set_holder l None k) (ko(cur k := ms)) s" for s using unhold(1) by (intro rdy_same w(2)) auto
  then show ?case by (intro ninv_mono [OF unhold(3) w(1)]) (auto simp: set_holder_def)
next
  case (preempt k k' ko ms)
  have "rdy k ko s \<subseteq> rdy k' (ko(cur k := ms)) s" for s using preempt(2) by (intro rdy_moved [OF preempt(1)]) (auto simp: quiet_def)
  then show ?case using preempt(1) by (intro ninv_mono [OF preempt(5)]) (auto simp: moved_def)
next
  case (exit ko k k')
  have "rdy k ko s \<subseteq> rdy k' (ko(cur k := [])) s" for s using exit(1) by (intro rdy_moved [OF exit(2)]) auto
  then show ?case using exit(2) by (intro ninv_mono [OF exit(4)]) (auto simp: moved_def)
next
  case (idle k k' ko)
  have "ko (cur k) = [Idle]" using minvD(4) [OF idle(3), of "cur k"] idle(1) by (simp add: ok1_def)
  then have "rdy k ko s \<subseteq> rdy k' (ko(cur k := ko (cur k))) s" for s by (intro rdy_moved [OF idle(2)]) auto
  then show ?case using idle(2) by (intro ninv_mono [OF idle(4)]) (auto simp: moved_def)
next
  case (create k t k' p ko)
  have "threads k t = None \<Longrightarrow> rdy k ko s \<subseteq> rdy k' ko s" for s using create(3) by (auto simp: rdy_def alive_def)
  then show ?case using create(1,2,5) by (intro ninv_mono [OF create(10)]) (auto simp: new_semas_def split: if_splits)
qed

end
