(* ===== verification/Sched_Boot.thy ===== *)
theory Sched_Boot
  imports Sched_Lock
begin

text \<open>
  From the start of the kernel: \<open>thread_init\<close> and \<open>thread_start\<close> establish the invariants, every step keeps them,
  and what they mean for threads, locks and semaphores.
\<close>

subsection \<open>The start of the kernel\<close>

text \<open>Before \<open>thread_init\<close>: interrupts are off, there is no thread structure yet, and the locks, semaphores and
  condition variables of the clients are as \<open>lock_init\<close>, \<open>sema_init\<close> and \<open>cond_init\<close> leave them.\<close>

definition power_on :: "kst \<Rightarrow> bool" where
  "power_on k \<longleftrightarrow> \<not> intr_on k \<and> \<not> in_external_intr k \<and> threads k = Map.empty \<and> idle_thread k = None \<and> cur k \<noteq> 0 \<and>
     (\<forall>s. waiters (semas k s) = []) \<and> (\<forall>n. holder k (Lock n) = None \<and> sval (semas k (Lock_sema (Lock n))) = 1) \<and> (\<forall>c. conds k c = [])"

lemmas level_defs = intr_get_level_def intr_disable_def intr_set_level_def intr_enable_def intr_context_def save_level_def restore_level_def
lemmas sync_defs = lock_init_def sema_init_def set_sema_def set_holder_def lock_held_by_current_thread_def sema_down_def sema_up_def sz_add_def
lemmas sched_defs = upd_thread_def is_thread_def thread_current_def thread_block_def thread_unblock_def schedule_def next_thread_to_run_def thread_schedule_tail_def idle_round_def
lemmas create_defs = allocate_tid_def init_thread_def alloc_frame_def setup_frames_def setup_share_def thread_create_def PRI_DEFAULT_def PRI_MIN_def PRI_MAX_def

definition init_th :: "int \<Rightarrow> nat \<Rightarrow> thread" where
  "init_th i c = \<lparr>tid = i, status = THREAD_RUNNING, tname = [109, 97, 105, 110], stack = c + PGSIZE, priority = 31, child_share = [],
     parent_share = None, rvalue = 0, pagedir = None, fds = [], closed_files = replicate 128 0, exe = None, magic = THREAD_MAGIC, old_level = False\<rparr>"

definition after_init :: "kst \<Rightarrow> kst" where
  "after_init k = k\<lparr>ready_list := [], initial_thread := cur k, all_list := [cur k], next_tid := next_tid k + 1,
     holder := (holder k)(Tid_lock := None), semas := (semas k)(Lock_sema Tid_lock := \<lparr>sval = 1, waiters = []\<rparr>), intr_on := False,
     threads := [cur k \<mapsto> init_th (next_tid k) (cur k)]\<rparr>"

lemma thread_init_eq: "power_on k \<Longrightarrow> thread_init k = Some (after_init k)"
  by (simp add: power_on_def thread_init_def level_defs sync_defs sched_defs create_defs after_init_def init_th_def Let_def)

definition idle_th :: "int \<Rightarrow> nat \<Rightarrow> nat \<Rightarrow> thread" where
  "idle_th i t p = \<lparr>tid = i, status = THREAD_BLOCKED, tname = [105, 100, 108, 101], stack = t + PGSIZE - 44, priority = 0, child_share = [],
     parent_share = Some p, rvalue = - 1, pagedir = None, fds = [], closed_files = replicate 128 0, exe = None, magic = THREAD_MAGIC, old_level = True\<rparr>"

definition after_start :: "nat \<Rightarrow> nat \<Rightarrow> kst \<Rightarrow> kst" where
  "after_start t p k = k\<lparr>initial_thread := cur k, all_list := [cur k, t], next_tid := 2 + next_tid k,
     shares := (shares k)(p \<mapsto> \<lparr>ps_tid = next_tid k + 1, ps_rvalue = 0, refcount = 2, loaded = True\<rparr>),
     holder := (holder k)(Tid_lock := None, Share_lock p := None), idle_thread := Some t, ready_list := [], thread_ticks := 0,
     semas := (semas k)(Lock_sema Tid_lock := \<lparr>sval = 1, waiters = []\<rparr>, Sig p := \<lparr>sval = 0, waiters = []\<rparr>,
       Lock_sema (Share_lock p) := \<lparr>sval = 1, waiters = []\<rparr>, Successload p := \<lparr>sval = 0, waiters = []\<rparr>,
       Sema 0 := \<lparr>sval = 0, waiters = []\<rparr>, Setup t := \<lparr>sval = 0, waiters = []\<rparr>),
     intr_on := True,
     threads := [t \<mapsto> idle_th (next_tid k + 1) t p, cur k \<mapsto> (init_th (next_tid k) (cur k))\<lparr>child_share := [p], old_level := True\<rparr>]\<rparr>"

lemma thread_start_eq:
  "power_on k \<Longrightarrow> t \<noteq> 0 \<Longrightarrow> t \<noteq> cur k \<Longrightarrow> thread_start (Some t) (Some p) (after_init k) = Some (after_start t p k)"
  by (simp add: power_on_def thread_start_def idle_start_def level_defs sync_defs sched_defs create_defs after_init_def init_th_def get_thread_def
      Let_def after_start_def idle_th_def)

lemma st_after_start: "power_on k \<Longrightarrow> t \<noteq> cur k \<Longrightarrow>
    st (after_start t p k) u = (if u = cur k then Some THREAD_RUNNING else if u = t then Some THREAD_BLOCKED else None)"
  by (simp add: st_def after_start_def init_th_def idle_th_def)

lemma kwf_after_start:
  assumes "power_on k" "t \<noteq> cur k"
  shows "kwf (after_start t p k)"
proof -
  note st = st_after_start [OF assms, of p]
  have al: "alive (after_start t p k) u \<longleftrightarrow> u = cur k \<or> u = t" for u by (simp add: alive_def st)
  have ws: "waiters (semas (after_start t p k) s) = []" for s using assms(1) by (simp add: after_start_def power_on_def)
  have sel: "ready_list (after_start t p k) = []" "idle_thread (after_start t p k) = Some t" "all_list (after_start t p k) = [cur k, t]"
      "cur (after_start t p k) = cur k" "intr_on (after_start t p k)" "\<not> in_external_intr (after_start t p k)"
    using assms(1) by (simp_all add: after_start_def power_on_def)
  have "queued (after_start t p k)" unfolding queued_def sel ws using assms(2) by (simp add: st)
  moreover have "magic th = THREAD_MAGIC \<and> (u \<noteq> cur k \<longrightarrow> status th \<noteq> THREAD_DYING \<longrightarrow> old_level th)" if "threads (after_start t p k) u = Some th" for u th
    using that by (auto simp: after_start_def idle_th_def init_th_def split: if_splits)
  ultimately have "sane (after_start t p k)" unfolding sane_def sel al using assms(2) sel(6) by auto
  then show ?thesis unfolding kwf_def sel using sel(5) by (simp add: st)
qed

definition boot :: "nat \<Rightarrow> nat \<Rightarrow> kst \<Rightarrow> kst option" where
  "boot t p k = do { k \<leftarrow> thread_init k; thread_start (Some t) (Some p) k }"

definition boot_ko :: "kst \<Rightarrow> nat \<Rightarrow> micro list" where
  "boot_ko k t = (if idle_thread k = Some t then [Idle] else [])"

lemma boot_eq: "power_on k \<Longrightarrow> t \<noteq> 0 \<Longrightarrow> t \<noteq> cur k \<Longrightarrow> boot t p k = Some (after_start t p k)"
  by (simp add: boot_def thread_init_eq thread_start_eq)

lemma boot_invs:
  fixes p :: nat
  assumes "power_on k" "t \<noteq> cur k"
  defines "k' \<equiv> after_start t p k"
  shows "minv (k', boot_ko k')" "linv (k', boot_ko k')" "ninv (k', boot_ko k')"
proof -
  note st = st_after_start [OF assms(1,2), of p, folded k'_def]
  have sel: "idle_thread k' = Some t" "\<And>s. waiters (semas k' s) = []" "\<And>n. holder k' (Lock n) = None \<and> lval k' n = 1" "\<And>c. conds k' c = []" "tid_lock_free k'"
    using assms(1) by (auto simp: k'_def after_start_def power_on_def lval_def tid_lock_free_def)
  have "alive k' t" by (simp add: alive_def st)
  then show "minv (k', boot_ko k')"
    using kwf_after_start [OF assms(1,2), of p] sel by (auto simp: minv_def k'_def [symmetric] boot_ko_def ok1_def st split: if_splits)
  show "linv (k', boot_ko k')" using sel(3) by (auto simp: linv_def owns_def boot_ko_def)
  show "ninv (k', boot_ko k')" using sel(2) by (simp add: ninv_def claimed_def)
qed

subsection \<open>Reachable states\<close>

inductive reachable :: "machine \<Rightarrow> bool" where
  boot: "power_on k \<Longrightarrow> t \<noteq> 0 \<Longrightarrow> t \<noteq> cur k \<Longrightarrow> boot t p k = Some k' \<Longrightarrow> reachable (k', boot_ko k')"
| go: "reachable m \<Longrightarrow> step m m' \<Longrightarrow> reachable m'"

lemma reachable_inv: "reachable m \<Longrightarrow> minv m \<and> linv m \<and> ninv m"
proof (induction rule: reachable.induct)
  case (boot k t p k')
  then show ?case using boot_invs [of k t p] boot_eq [of k t p] by simp
next
  case (go m m')
  obtain k ko where m: "m = (k, ko)" by (cases m)
  have "effect m m'" using step_effect go m by blast
  then show ?case using minv_effect linv_effect ninv_effect go.IH by blast
qed

lemma reachableD:
  assumes "reachable (k, ko)"
  shows "minv (k, ko)" "linv (k, ko)" "ninv (k, ko)"
  using reachable_inv [OF assms] by simp_all

end
