(* ===== verification/Spec2Isabelle.thy ===== *)
theory Spec2Isabelle
  imports Prelude Bytes Bitmap Klist Klist_Sort Hash_Table Block Partition_Table Bufcache
    Bufcache_Conc Inode Inode_Alloc Inode_Store Filesys Cstring Arith64 Stdlib Stdlib_Sort
    Fixed_Point Intq Rc4_Random Kthread Synch Sched Sched_Step Sched_Inv Sched_Lock Sched_Boot
begin

text \<open>
  Verification of the Pintos kernel of this repository (\<open>src/pintos/src\<close>): the file system with its buffer cache, the
  block layer, the kernel's data structures and the C library it is linked with.

  \<^bold>\<open>How the program is put together.\<close> System calls reach \<open>filesys.c\<close>, which finds a file through
  \<open>directory.c\<close> and hands out \<open>file.c\<close> handles. Both work on \<open>inode.c\<close>, which maps byte positions to
  sectors, takes sectors from \<open>free-map.c\<close> (a \<open>bitmap.c\<close> that is itself stored in a file) and moves all data through
  \<open>bufcache.c\<close>. The buffer cache is the only client of the block layer \<open>block.c\<close>, whose devices are disks and the
  partitions that \<open>partition.c\<close> finds on them. \<open>list.c\<close>, \<open>hash.c\<close>, \<open>bitmap.c\<close>, \<open>string.c\<close>, \<open>stdlib.c\<close>,
  \<open>arithmetic.c\<close>, \<open>random.c\<close>, \<open>fixed-point.h\<close> and \<open>intq.c\<close> are libraries of the kernel.

  \<^bold>\<open>Conventions.\<close> A function that may stop the kernel (a failed \<open>ASSERT\<close>, a \<open>PANIC\<close>, an access outside an object,
  undefined arithmetic) or that would wait for ever in a single thread returns an \<open>option\<close>, and \<open>None\<close> is that outcome; what the
  C code returns to report an error is an ordinary value. \<open>size_t\<close> is \<open>nat\<close> with the 32-bit wrap-around written out
  (\<open>sz_add\<close>, \<open>sz_sub\<close>, \<open>sz_mul\<close>), sector numbers and bytes are words, \<open>off_t\<close> and \<open>int\<close> are \<open>int\<close> with the range
  tested where C leaves overflow undefined. Whether \<open>malloc\<close> succeeds is an argument.

  \<^bold>\<open>Theories.\<close>
  \<^item> \<open>Prelude\<close>, \<open>Bytes\<close>: types, counting loops and their invariant rules, words and bytes, and the interface \<open>fifo\<close> of
    queues, which \<open>Klist\<close> and \<open>Intq\<close> implement.
  \<^item> \<open>Bitmap\<close> (\<open>lib/kernel/bitmap.c\<close>): operations on the words of a bitmap; they set and test single bits as promised, and
    \<open>bitmap_scan_and_flip\<close> finds the first free group. The interface \<open>slot_pool\<close> is what the free map relies on.
  \<^item> \<open>Klist\<close>, \<open>Klist_Sort\<close> (\<open>lib/kernel/list.c\<close>): linked lists in an explicit heap of links; removal undoes insertion,
    \<open>list_sort\<close> sorts stably, \<open>list_insert_ordered\<close> keeps order.
  \<^item> \<open>Hash_Table\<close> (\<open>lib/kernel/hash.c\<close>): the table as a set of elements up to equality, through insertion, deletion and
    rehashing, whether or not the new buckets can be allocated.
  \<^item> \<open>Block\<close>, \<open>Partition_Table\<close> (\<open>devices/block.c\<close>, \<open>devices/partition.c\<close>): reading back what was written;
    partitions lie within their disk; a partition table that refers to itself makes the scan run for ever.
  \<^item> \<open>Bufcache\<close> (\<open>filesys/bufcache.c\<close>): the cache as a store of sectors (interface \<open>sector_store\<close>);
    \<open>Bufcache_Conc\<close>: the same operations as a machine of threads that release the cache lock during device transfers; it is
    linearizable and free of deadlock.
  \<^item> \<open>Inode\<close> (\<open>filesys/inode.c\<close> with allocation of \<open>free-map.c\<close>), \<open>Inode_Store\<close>, \<open>Inode_Alloc\<close>: block mapping with
    direct, indirect and doubly indirect blocks; what is written inside a file is what is read; allocation returns a sector no file
    uses. The functions are mutually recursive (the free map is a file), which fuel cuts: writing the free
    map file never allocates, so a depth of 2 is enough.
  \<^item> \<open>Filesys\<close> (\<open>file.c\<close>, \<open>directory.c\<close>, \<open>filesys.c\<close>, the rest of \<open>free-map.c\<close>).
  \<^item> \<open>Cstring\<close> (\<open>lib/string.c\<close>), \<open>Stdlib\<close> and \<open>Stdlib_Sort\<close> (\<open>lib/stdlib.c\<close>): on a byte-addressed memory, compared with
    operations on lists; heap sort sorts, binary search finds, \<open>strtok_r\<close> splits.
  \<^item> \<open>Arith64\<close> (\<open>lib/arithmetic.c\<close>), \<open>Fixed_Point\<close> (\<open>threads/fixed-point.h\<close>), \<open>Rc4_Random\<close> (\<open>lib/random.c\<close>).
  \<^item> \<open>Intq\<close> (\<open>devices/intq.c\<close>): the ring buffer between interrupt handlers and threads.

  \<^bold>\<open>Loops.\<close> Counting loops are recursive functions that terminate; loops that need not end are
  \<open>partial_function (option)\<close>, and what returns is proved to return.

  \<^bold>\<open>Not modelled.\<close> Drivers that only move bytes to and from ports (\<open>ide.c\<close>, \<open>serial.c\<close>, \<open>vga.c\<close>, \<open>kbd.c\<close>, \<open>rtc.c\<close>,
  \<open>pit.c\<close>, \<open>speaker.c\<close>, \<open>shutdown.c\<close>): what they do is defined by the devices. Console output and the functions that
  only print. Assembly code. The boot sequence of \<open>init.c\<close>. The test programs, examples and host utilities.
\<close>

end
